(* ===== verification/Prelude.thy ===== *)
theory Prelude
  imports Main "HOL-Library.Word" "HOL-Library.Signed_Division"
begin

text \<open>
  Shared vocabulary of the development. Nachos is written in C++: a failed
  \<open>ASSERT\<close> aborts the simulator, and an out-of-range array access or a
  dereference of a null or freed pointer is undefined. Every such event is a value of
  the type \<open>fault\<close> here, and an operation that can meet one returns
  \<open>fault + 'a\<close> (\<open>Inl\<close> the fault). The theory also holds the arithmetic macros of
  \<open>threads/utility.h\<close> and the generic lemmas on results, lists and words that the
  components share.
\<close>

named_theorems nachos_defs \<open>definitions of the model unfolded by the component proofs\<close>

section \<open>Faults and results\<close>

datatype fault =
    AssertFail      \<comment> \<open>a false \<open>ASSERT\<close> (utility.h) calls \<open>Abort\<close>\<close>
  | NullDeref       \<comment> \<open>a null pointer is dereferenced\<close>
  | DanglingPtr     \<comment> \<open>a freed or never allocated cell is dereferenced\<close>
  | OutOfBounds     \<comment> \<open>an array is indexed outside its bounds\<close>
  | DivTrap         \<comment> \<open>a signed division overflows (the least integer by -1)\<close>
  | BadAlloc        \<comment> \<open>\<open>new\<close> is asked for a negative number of bytes\<close>
  | OutOfFuel       \<comment> \<open>a loop of the model ran out of its bound; proved not to happen\<close>

type_synonym 'a res = "fault + 'a"

definition res_bind :: "'a res \<Rightarrow> ('a \<Rightarrow> 'b res) \<Rightarrow> 'b res" where
  "res_bind m f = (case m of Inl e \<Rightarrow> Inl e | Inr x \<Rightarrow> f x)"

text \<open>The macro \<open>ASSERT(condition)\<close>: go on with the rest of the function, or abort.\<close>

definition ASSERT :: "bool \<Rightarrow> 'a res \<Rightarrow> 'a res" where
  "ASSERT c k = (if c then k else Inl AssertFail)"

lemma res_bind_simps [simp]:
  "res_bind (Inl e) f = Inl e"
  "res_bind (Inr x) f = f x"
  by (simp_all add: res_bind_def)

lemma res_bind_Inr_iff: "res_bind m f = Inr y \<longleftrightarrow> (\<exists>x. m = Inr x \<and> f x = Inr y)"
  by (cases m) auto

lemma res_bind_assoc: "res_bind (res_bind m f) g = res_bind m (\<lambda>x. res_bind (f x) g)"
  by (cases m) simp_all

lemma ASSERT_True [simp]: "c \<Longrightarrow> ASSERT c k = k"
  by (simp add: ASSERT_def)

lemma ASSERT_False [simp]: "\<not> c \<Longrightarrow> ASSERT c k = Inl AssertFail"
  by (simp add: ASSERT_def)

lemma ASSERT_Inr_iff: "ASSERT c k = Inr y \<longleftrightarrow> c \<and> k = Inr y"
  by (simp add: ASSERT_def)

text \<open>Running a fallible operation over a sequence of arguments, and \<open>n\<close> times for its results.\<close>

primrec res_fold :: "('x \<Rightarrow> 's \<Rightarrow> 's res) \<Rightarrow> 'x list \<Rightarrow> 's \<Rightarrow> 's res" where
  "res_fold f [] s = Inr s"
| "res_fold f (x # xs) s = res_bind (f x s) (res_fold f xs)"

primrec res_drain :: "('s \<Rightarrow> ('y \<times> 's) res) \<Rightarrow> nat \<Rightarrow> 's \<Rightarrow> ('y list \<times> 's) res" where
  "res_drain f 0 s = Inr ([], s)"
| "res_drain f (Suc n) s = res_bind (f s) (\<lambda>(y, s').
     res_bind (res_drain f n s') (\<lambda>(ys, s''). Inr (y # ys, s'')))"

lemma res_fold_append: "res_fold f (xs @ ys) s = res_bind (res_fold f xs s) (res_fold f ys)"
  by (induction xs arbitrary: s) (auto simp: res_bind_def split: sum.split)

section \<open>Arithmetic macros\<close>

text \<open>
  C division truncates towards zero; \<open>sdiv\<close> and \<open>smod\<close> of the library do the same.
  The macros of \<open>utility.h\<close> are applied to \<open>int\<close>s in the kernel.
\<close>

definition divRoundDown :: "int \<Rightarrow> int \<Rightarrow> int" where
  "divRoundDown n s = n sdiv s"

definition divRoundUp :: "int \<Rightarrow> int \<Rightarrow> int" where
  "divRoundUp n s = (n sdiv s) + (if n smod s > 0 then 1 else 0)"

lemma sdiv_nonneg: "0 \<le> n \<Longrightarrow> 0 < s \<Longrightarrow> n sdiv s = n div (s::int)"
  by (simp add: signed_divide_int_def sgn_if)

lemma smod_nonneg: "0 \<le> n \<Longrightarrow> 0 < s \<Longrightarrow> n smod s = n mod (s::int)"
  by (cases "n = 0") (simp_all add: signed_modulo_int_def sgn_if)

text \<open>For the sizes the kernel passes, \<open>divRoundUp\<close> is the least number of blocks
  of size \<open>s\<close> that holds \<open>n\<close> bytes.\<close>

lemma divRoundUp_bounds:
  assumes "0 \<le> n" and "0 < s"
  shows "n \<le> divRoundUp n s * s" and "divRoundUp n s * s < n + s"
proof -
  define q r where "q = n div s * s" and "r = n mod s"
  have n: "n = q + r" and r: "0 \<le> r" "r < s"
    using assms by (simp_all add: q_def r_def)
  have eq: "divRoundUp n s * s = q + (if r > 0 then s else 0)"
    using assms by (simp add: divRoundUp_def sdiv_nonneg smod_nonneg distrib_right q_def r_def)
  show "n \<le> divRoundUp n s * s" and "divRoundUp n s * s < n + s"
    unfolding eq using n r by (simp_all split: if_split)
qed

lemma divRoundUp_nonneg: "0 \<le> n \<Longrightarrow> 0 < s \<Longrightarrow> 0 \<le> divRoundUp n s"
  by (simp add: divRoundUp_def sdiv_nonneg smod_nonneg pos_imp_zdiv_nonneg_iff)

end
