(* ===== verification/Machine.thy ===== *)
theory Machine
  imports Prelude
begin

unbundle bit_operations_syntax

text \<open>
  The simulated workstation as a user program sees it (\<open>machine/machine.h\<close>,
  \<open>machine/machine.cc\<close>, \<open>machine/translate.cc\<close>): CPU registers, physical memory, and the
  translation of virtual addresses by a page table or a TLB. An \<open>int\<close> of the simulated machine is
  a 32-bit word here. A page table is an array allocated by the kernel that the machine only
  points to, so the arrays live in a heap \<open>te_heap\<close> and \<open>pageTable\<close> holds an address.

  The handler that \<open>RaiseException\<close> calls belongs to the kernel. An access that raises an exception
  therefore returns \<open>Trap\<close> with the state in which the handler is called; the kernel model runs the
  handler on that state. Nothing follows in the callers: \<open>ReadMem\<close> and \<open>WriteMem\<close> return FALSE and
  \<open>OneInstruction\<close> returns.
\<close>

section \<open>Constants and data\<close>

definition PageSize :: "32 word" where "PageSize = 512"
definition NumPhysPages :: "32 word" where "NumPhysPages = 128"
definition MemorySize :: int where "MemorySize = 65536"
definition TLBSize :: nat where "TLBSize = 4"

datatype ExceptionType =
    NoException | SyscallException | PageFaultException | ReadOnlyException
  | BusErrorException | AddressErrorException | OverflowException | IllegalInstrException

text \<open>The register numbers.\<close>

definition StackReg :: nat where "StackReg = 29"
definition RetAddrReg :: nat where "RetAddrReg = 31"
definition HiReg :: nat where "HiReg = 32"
definition LoReg :: nat where "LoReg = 33"
definition PCReg :: nat where "PCReg = 34"
definition NextPCReg :: nat where "NextPCReg = 35"
definition PrevPCReg :: nat where "PrevPCReg = 36"
definition LoadReg :: nat where "LoadReg = 37"
definition LoadValueReg :: nat where "LoadValueReg = 38"
definition BadVAddrReg :: nat where "BadVAddrReg = 39"
definition NumTotalRegs :: nat where "NumTotalRegs = 40"

lemmas reg_defs [simp] = StackReg_def RetAddrReg_def HiReg_def LoReg_def PCReg_def NextPCReg_def
  PrevPCReg_def LoadReg_def LoadValueReg_def BadVAddrReg_def NumTotalRegs_def

record TranslationEntry =
  virtualPage :: "32 word"
  physicalPage :: "32 word"
  valid :: bool
  readOnly :: bool
  te_use :: bool
  dirty :: bool

record Machine =
  registers :: "nat \<Rightarrow> 32 word"
  mainMemory :: "nat \<Rightarrow> 8 word"
  tlb :: "TranslationEntry list option"
  pageTable :: "nat option"
  pageTableSize :: "32 word"
  te_heap :: "nat \<Rightarrow> TranslationEntry list option"

datatype 'a trapped = Done 'a | Trap ExceptionType

text \<open>The constructor. The fields other than \<open>valid\<close> of the TLB's entries are not initialised
  by the code; no operation reads them in an invalid entry.\<close>

definition Machine_new :: "bool \<Rightarrow> Machine" where
  "Machine_new use_tlb = \<lparr>registers = (\<lambda>_. 0), mainMemory = (\<lambda>_. 0),
     tlb = (if use_tlb
            then Some (replicate TLBSize \<lparr>virtualPage = 0, physicalPage = 0, valid = False, readOnly = False,
                                          te_use = False, dirty = False\<rparr>)
            else None),
     pageTable = None, pageTableSize = 0, te_heap = (\<lambda>_. None)\<rparr>"

section \<open>Registers\<close>

definition ReadRegister :: "int \<Rightarrow> Machine \<Rightarrow> 32 word res" where
  "ReadRegister num m = ASSERT (num \<ge> 0 \<and> num < int NumTotalRegs) (Inr (registers m (nat num)))"

definition set_reg :: "nat \<Rightarrow> 32 word \<Rightarrow> Machine \<Rightarrow> Machine" where
  "set_reg n v m = m\<lparr>registers := (registers m)(n := v)\<rparr>"

definition WriteRegister :: "int \<Rightarrow> 32 word \<Rightarrow> Machine \<Rightarrow> Machine res" where
  "WriteRegister num v m = ASSERT (num \<ge> 0 \<and> num < int NumTotalRegs) (Inr (set_reg (nat num) v m))"

lemma set_reg_frame [simp]:
  "mainMemory (set_reg n v m) = mainMemory m" "tlb (set_reg n v m) = tlb m"
  "pageTable (set_reg n v m) = pageTable m" "pageTableSize (set_reg n v m) = pageTableSize m"
  "te_heap (set_reg n v m) = te_heap m"
  by (simp_all add: set_reg_def)

lemma registers_set_reg [simp]: "registers (set_reg n v m) i = (if i = n then v else registers m i)"
  by (simp add: set_reg_def)

text \<open>\<open>DelayedLoad\<close> of \<open>mipssim.cc\<close>. The index \<open>registers[LoadReg]\<close> is an \<open>int\<close> that the kernel can set.\<close>

definition DelayedLoad :: "32 word \<Rightarrow> 32 word \<Rightarrow> Machine \<Rightarrow> Machine res" where
  "DelayedLoad nextReg nextValue m =
     (let r = registers m LoadReg in
      if unat r < NumTotalRegs
      then Inr (set_reg 0 0 (set_reg LoadValueReg nextValue (set_reg LoadReg nextReg
                 (set_reg (unat r) (registers m LoadValueReg) m))))
      else Inl OutOfBounds)"

text \<open>\<open>RaiseException\<close> up to the call of the kernel's handler.\<close>

definition RaiseException :: "ExceptionType \<Rightarrow> 32 word \<Rightarrow> Machine \<Rightarrow> ('a trapped \<times> Machine) res" where
  "RaiseException which badVAddr m =
     res_bind (DelayedLoad 0 0 (set_reg BadVAddrReg badVAddr m)) (\<lambda>m'. Inr (Trap which, m'))"

section \<open>Byte order\<close>

text \<open>
  The simulated machine is little endian, the host may be either: \<open>big\<close> is
  \<open>HOST_IS_BIG_ENDIAN\<close>. A cast of a \<open>char\<close> pointer to an \<open>int\<close> pointer reads in host order.
\<close>

definition WordToHost :: "bool \<Rightarrow> 32 word \<Rightarrow> 32 word" where
  "WordToHost big w =
     (if big then (drop_bit 24 w AND 0x000000ff) OR (drop_bit 8 w AND 0x0000ff00) OR
                  (push_bit 8 w AND 0x00ff0000) OR (push_bit 24 w AND 0xff000000)
      else w)"

definition ShortToHost :: "bool \<Rightarrow> 16 word \<Rightarrow> 16 word" where
  "ShortToHost big w =
     (if big then (push_bit 8 w AND 0xff00) OR (drop_bit 8 w AND 0x00ff) else w)"

definition WordToMachine :: "bool \<Rightarrow> 32 word \<Rightarrow> 32 word" where
  "WordToMachine big w = WordToHost big w"

definition ShortToMachine :: "bool \<Rightarrow> 16 word \<Rightarrow> 16 word" where
  "ShortToMachine big w = ShortToHost big w"

definition le_word :: "8 word \<Rightarrow> 8 word \<Rightarrow> 8 word \<Rightarrow> 8 word \<Rightarrow> 32 word" where
  "le_word b0 b1 b2 b3 =
     ucast b0 OR push_bit 8 (ucast b1) OR push_bit 16 (ucast b2) OR push_bit 24 (ucast b3)"

definition le_short :: "8 word \<Rightarrow> 8 word \<Rightarrow> 16 word" where
  "le_short b0 b1 = ucast b0 OR push_bit 8 (ucast b1)"

definition host_load4 :: "bool \<Rightarrow> (nat \<Rightarrow> 8 word) \<Rightarrow> nat \<Rightarrow> 32 word" where
  "host_load4 big mem p =
     (if big then le_word (mem (p + 3)) (mem (p + 2)) (mem (p + 1)) (mem p)
      else le_word (mem p) (mem (p + 1)) (mem (p + 2)) (mem (p + 3)))"

definition host_load2 :: "bool \<Rightarrow> (nat \<Rightarrow> 8 word) \<Rightarrow> nat \<Rightarrow> 16 word" where
  "host_load2 big mem p =
     (if big then le_short (mem (p + 1)) (mem p) else le_short (mem p) (mem (p + 1)))"

definition byte_of :: "nat \<Rightarrow> 'a::len word \<Rightarrow> 8 word" where
  "byte_of k w = ucast (drop_bit (8 * k) w)"

definition host_store4 :: "bool \<Rightarrow> (nat \<Rightarrow> 8 word) \<Rightarrow> nat \<Rightarrow> 32 word \<Rightarrow> nat \<Rightarrow> 8 word" where
  "host_store4 big mem p w =
     (if big then mem(p := byte_of 3 w, p + 1 := byte_of 2 w, p + 2 := byte_of 1 w, p + 3 := byte_of 0 w)
      else mem(p := byte_of 0 w, p + 1 := byte_of 1 w, p + 2 := byte_of 2 w, p + 3 := byte_of 3 w))"

definition host_store2 :: "bool \<Rightarrow> (nat \<Rightarrow> 8 word) \<Rightarrow> nat \<Rightarrow> 16 word \<Rightarrow> nat \<Rightarrow> 8 word" where
  "host_store2 big mem p w =
     (if big then mem(p := byte_of 1 w, p + 1 := byte_of 0 w)
      else mem(p := byte_of 0 w, p + 1 := byte_of 1 w))"

text \<open>The check in the constructor that the build's \<open>HOST_IS_BIG_ENDIAN\<close> matches the host:
  \<open>host\<close> is the byte order the host really has.\<close>

definition CheckEndian :: "bool \<Rightarrow> bool \<Rightarrow> unit res" where
  "CheckEndian big host =
     (let intword = host_load4 host (\<lambda>i. if i = 0 then 1 else if i = 1 then 2 else if i = 2 then 3 else 4) 0
      in if big then ASSERT (intword = 0x01020304) (Inr ()) else ASSERT (intword = 0x04030201) (Inr ()))"

section \<open>Address translation\<close>

text \<open>The TLB search: the index of the first matching entry.\<close>

fun tlb_search :: "TranslationEntry list \<Rightarrow> 32 word \<Rightarrow> nat \<Rightarrow> nat option" where
  "tlb_search [] vpn i = None"
| "tlb_search (e # es) vpn i = (if valid e \<and> virtualPage e = vpn then Some i else tlb_search es vpn (i + 1))"

text \<open>Finding the entry: the exception, or the entry and the way to store it back.\<close>

definition find_entry :: "32 word \<Rightarrow> Machine \<Rightarrow>
    (ExceptionType + TranslationEntry \<times> (TranslationEntry \<Rightarrow> Machine)) res" where
  "find_entry vpn m =
     (case tlb m of
        None \<Rightarrow>
          if vpn \<ge> pageTableSize m then Inr (Inl AddressErrorException)
          else (case pageTable m of
              None \<Rightarrow> Inl NullDeref
            | Some p \<Rightarrow> (case te_heap m p of
                None \<Rightarrow> Inl DanglingPtr
              | Some tbl \<Rightarrow>
                  if unat vpn < length tbl
                  then if \<not> valid (tbl ! unat vpn) then Inr (Inl PageFaultException)
                       else Inr (Inr (tbl ! unat vpn,
                              \<lambda>e. m\<lparr>te_heap := (te_heap m)(p \<mapsto> tbl[unat vpn := e])\<rparr>))
                  else Inl OutOfBounds))
      | Some es \<Rightarrow>
          (case tlb_search es vpn 0 of
             None \<Rightarrow> Inr (Inl PageFaultException)
           | Some i \<Rightarrow> Inr (Inr (es ! i, \<lambda>e. m\<lparr>tlb := Some (es[i := e])\<rparr>))))"

definition Translate :: "32 word \<Rightarrow> int \<Rightarrow> bool \<Rightarrow> Machine \<Rightarrow> ((ExceptionType + 32 word) \<times> Machine) res" where
  "Translate virtAddr sz writing m =
     (if (sz = 4 \<and> virtAddr AND 0x3 \<noteq> 0) \<or> (sz = 2 \<and> virtAddr AND 0x1 \<noteq> 0)
      then Inr (Inl AddressErrorException, m)
      else ASSERT (tlb m = None \<or> pageTable m = None) (ASSERT (tlb m \<noteq> None \<or> pageTable m \<noteq> None)
        (let vpn = virtAddr div PageSize; offset = virtAddr mod PageSize in
         res_bind (find_entry vpn m) (\<lambda>r.
           case r of Inl ex \<Rightarrow> Inr (Inl ex, m)
           | Inr (entry, put) \<Rightarrow>
               if readOnly entry \<and> writing then Inr (Inl ReadOnlyException, m)
               else let pageFrame = physicalPage entry in
                 if pageFrame \<ge> NumPhysPages then Inr (Inl BusErrorException, m)
                 else let entry' = entry\<lparr>te_use := True, dirty := dirty entry \<or> writing\<rparr>;
                          physAddr = pageFrame * PageSize + offset
                      in ASSERT (sint physAddr \<ge> 0 \<and> sint physAddr + sz \<le> MemorySize)
                           (Inr (Inr physAddr, put entry'))))))"

section \<open>Memory access\<close>

definition ReadMem :: "bool \<Rightarrow> 32 word \<Rightarrow> int \<Rightarrow> Machine \<Rightarrow> (32 word trapped \<times> Machine) res" where
  "ReadMem big addr sz m =
     res_bind (Translate addr sz False m) (\<lambda>(r, m').
       case r of
         Inl ex \<Rightarrow> RaiseException ex addr m'
       | Inr pa \<Rightarrow> let p = unat pa in
           if sz = 1 then Inr (Done (scast (mainMemory m' p)), m')
           else if sz = 2 then Inr (Done (ucast (ShortToHost big (host_load2 big (mainMemory m') p))), m')
           else if sz = 4 then Inr (Done (WordToHost big (host_load4 big (mainMemory m') p)), m')
           else Inl AssertFail)"

definition WriteMem :: "bool \<Rightarrow> 32 word \<Rightarrow> int \<Rightarrow> 32 word \<Rightarrow> Machine \<Rightarrow> (unit trapped \<times> Machine) res" where
  "WriteMem big addr sz v m =
     res_bind (Translate addr sz True m) (\<lambda>(r, m').
       case r of
         Inl ex \<Rightarrow> RaiseException ex addr m'
       | Inr pa \<Rightarrow> let p = unat pa; mem = mainMemory m' in
           if sz = 1 then Inr (Done (), m'\<lparr>mainMemory := mem(p := ucast (v AND 0xff))\<rparr>)
           else if sz = 2 then
             Inr (Done (), m'\<lparr>mainMemory := host_store2 big mem p (ShortToMachine big (ucast (v AND 0xffff)))\<rparr>)
           else if sz = 4 then
             Inr (Done (), m'\<lparr>mainMemory := host_store4 big mem p (WordToMachine big v)\<rparr>)
           else Inl AssertFail)"

section \<open>Byte order is invisible\<close>

lemma byte_masks:
  "(0x000000ff :: 32 word) = mask 8" "(0x0000ff00 :: 32 word) = push_bit 8 (mask 8)"
  "(0x00ff0000 :: 32 word) = push_bit 16 (mask 8)" "(0xff000000 :: 32 word) = push_bit 24 (mask 8)"
  "(0x00ff :: 16 word) = mask 8" "(0xff00 :: 16 word) = push_bit 8 (mask 8)"
  by (simp_all add: mask_eq_exp_minus_1 push_bit_eq_mult)

lemma byte_bit_high [simp]: "8 \<le> n \<Longrightarrow> \<not> bit (b :: 8 word) n"
  using bit_imp_le_length [of b n] by auto

lemma WordToHost_load4 [simp]:
  "WordToHost big (host_load4 big mem p) = le_word (mem p) (mem (p + 1)) (mem (p + 2)) (mem (p + 3))"
proof (cases big)
  case True
  show ?thesis
  proof (rule bit_word_eqI)
    fix n assume "n < LENGTH(32)"
    then have n: "n < 32" by simp
    consider "n < 8" | "8 \<le> n" "n < 16" | "16 \<le> n" "n < 24" | "24 \<le> n" using n by linarith
    then show "bit (WordToHost big (host_load4 big mem p)) n =
        bit (le_word (mem p) (mem (p + 1)) (mem (p + 2)) (mem (p + 3))) n"
      using n True
      by cases (simp_all add: WordToHost_def host_load4_def le_word_def byte_masks bit_simps, auto)
  qed
qed (simp add: WordToHost_def host_load4_def)

lemma ShortToHost_load2 [simp]:
  "ShortToHost big (host_load2 big mem p) = le_short (mem p) (mem (p + 1))"
proof (cases big)
  case True
  show ?thesis
  proof (rule bit_word_eqI)
    fix n assume "n < LENGTH(16)"
    then have n: "n < 16" by simp
    consider "n < 8" | "8 \<le> n" by linarith
    then show "bit (ShortToHost big (host_load2 big mem p)) n = bit (le_short (mem p) (mem (p + 1))) n"
      using n True
      by cases (auto simp: ShortToHost_def host_load2_def le_short_def byte_masks bit_simps
          dest: bit_imp_le_length)
  qed
qed (simp add: ShortToHost_def host_load2_def)

lemma byte_of_bit: "n < 8 \<Longrightarrow> bit (byte_of k w) n \<longleftrightarrow> bit w (8 * k + n)"
  by (simp add: byte_of_def bit_simps)

lemma byte_of_WordToHost:
  "byte_of 0 (WordToHost True w) = byte_of 3 w" "byte_of 1 (WordToHost True w) = byte_of 2 w"
  "byte_of 2 (WordToHost True w) = byte_of 1 w" "byte_of 3 (WordToHost True w) = byte_of 0 w"
  by (rule bit_word_eqI, simp add: byte_of_bit WordToHost_def byte_masks bit_simps)+

lemma byte_of_ShortToHost:
  "byte_of 0 (ShortToHost True w) = byte_of 1 w" "byte_of 1 (ShortToHost True w) = byte_of 0 w"
  by (rule bit_word_eqI, simp add: byte_of_bit ShortToHost_def byte_masks bit_simps)+

lemma host_store4_endian [simp]: "host_store4 big mem p (WordToMachine big w) = host_store4 False mem p w"
proof (cases big)
  case True
  then show ?thesis
    by (simp add: host_store4_def WordToMachine_def byte_of_WordToHost
        byte_of_WordToHost(2) [unfolded One_nat_def])
qed (simp add: WordToMachine_def WordToHost_def)

lemma host_store2_endian [simp]: "host_store2 big mem p (ShortToMachine big w) = host_store2 False mem p w"
proof (cases big)
  case True
  then show ?thesis
    by (simp add: host_store2_def ShortToMachine_def byte_of_ShortToHost
        byte_of_ShortToHost(2) [unfolded One_nat_def])
qed (simp add: ShortToMachine_def ShortToHost_def)

lemma le_word_bytes [simp]: "le_word (byte_of 0 w) (byte_of 1 w) (byte_of 2 w) (byte_of 3 w) = w"
proof (rule bit_word_eqI)
  fix n assume "n < LENGTH(32)"
  then have n: "n < 32" by simp
  consider "n < 8" | "8 \<le> n" "n < 16" | "16 \<le> n" "n < 24" | "24 \<le> n" using n by linarith
  then show "bit (le_word (byte_of 0 w) (byte_of 1 w) (byte_of 2 w) (byte_of 3 w)) n = bit w n"
    using n by cases (auto simp: le_word_def byte_of_def bit_simps)
qed

lemma le_short_bytes [simp]: "le_short (byte_of 0 w) (byte_of 1 w) = w"
proof (rule bit_word_eqI)
  fix n assume "n < LENGTH(16)"
  then have n: "n < 16" by simp
  consider "n < 8" | "8 \<le> n" by linarith
  then show "bit (le_short (byte_of 0 w) (byte_of 1 w)) n = bit w n"
    using n by cases (auto simp: le_short_def byte_of_def bit_simps)
qed

section \<open>What the translation depends on\<close>

text \<open>An entry without its use and dirty bits, and all that the translation reads.\<close>

definition te_core :: "TranslationEntry \<Rightarrow> 32 word \<times> 32 word \<times> bool \<times> bool" where
  "te_core e = (virtualPage e, physicalPage e, valid e, readOnly e)"

definition mmu_view where
  "mmu_view m = (map_option (map te_core) (tlb m), pageTable m, pageTableSize m,
                 \<lambda>p. map_option (map te_core) (te_heap m p))"

text \<open>A machine ready to run user code: a TLB, or a page table of the announced size.\<close>

definition mach_ok :: "Machine \<Rightarrow> bool" where
  "mach_ok m = (case tlb m of
      Some es \<Rightarrow> pageTable m = None
    | None \<Rightarrow> (case pageTable m of None \<Rightarrow> False
        | Some p \<Rightarrow> (case te_heap m p of None \<Rightarrow> False
            | Some tbl \<Rightarrow> unat (pageTableSize m) \<le> length tbl)))"

text \<open>The translation of a page number as a partial function: frame and write protection.\<close>

definition lookup_page :: "32 word \<Rightarrow> Machine \<Rightarrow> ExceptionType + 32 word \<times> bool" where
  "lookup_page vpn m = (case tlb m of
      Some es \<Rightarrow> (case find (\<lambda>e. valid e \<and> virtualPage e = vpn) es of
          None \<Rightarrow> Inl PageFaultException | Some e \<Rightarrow> Inr (physicalPage e, readOnly e))
    | None \<Rightarrow> if vpn \<ge> pageTableSize m then Inl AddressErrorException
        else let e = the (te_heap m (the (pageTable m))) ! unat vpn in
             if valid e then Inr (physicalPage e, readOnly e) else Inl PageFaultException)"

definition aligned :: "32 word \<Rightarrow> int \<Rightarrow> bool" where
  "aligned va sz = (unat va mod nat sz = 0)"

definition translate_spec :: "32 word \<Rightarrow> int \<Rightarrow> bool \<Rightarrow> Machine \<Rightarrow> ExceptionType + nat" where
  "translate_spec va sz writing m =
     (if \<not> aligned va sz then Inl AddressErrorException
      else case lookup_page (va div 512) m of
        Inl ex \<Rightarrow> Inl ex
      | Inr (f, ro) \<Rightarrow> if ro \<and> writing then Inl ReadOnlyException
          else if f \<ge> 128 then Inl BusErrorException
          else Inr (unat f * 512 + unat va mod 512))"

lemma find_te_core:
  "map_option te_core (find (\<lambda>e. valid e \<and> virtualPage e = vpn) es) =
   find (\<lambda>c. fst (snd (snd c)) \<and> fst c = vpn) (map te_core es)"
  by (induction es) (auto simp: te_core_def)

lemma lookup_page_view:
  assumes "mmu_view m' = mmu_view m" and "mach_ok m"
  shows "lookup_page vpn m' = lookup_page vpn m"
proof (cases "tlb m")
  case None
  with assms obtain p tbl where p: "pageTable m = Some p" "te_heap m p = Some tbl"
    "unat (pageTableSize m) \<le> length tbl"
    by (auto simp: mach_ok_def split: option.splits)
  from assms(1) None p(1) have v: "tlb m' = None" "pageTable m' = Some p" "pageTableSize m' = pageTableSize m"
    and "map_option (map te_core) (te_heap m' p) = map_option (map te_core) (te_heap m p)"
    by (auto simp: mmu_view_def fun_eq_iff)
  with p(2) obtain tbl' where tbl': "te_heap m' p = Some tbl'" "map te_core tbl' = map te_core tbl" by auto
  have "te_core (tbl' ! unat vpn) = te_core (tbl ! unat vpn)" if "vpn < pageTableSize m"
  proof -
    from that p(3) have "unat vpn < length tbl" by (simp add: word_less_nat_alt)
    with tbl'(2) show ?thesis by (metis length_map nth_map)
  qed
  with None p v tbl' show ?thesis by (auto simp: lookup_page_def te_core_def Let_def not_le)
next
  case (Some es)
  with assms(1) obtain es' where es': "tlb m' = Some es'" "map te_core es' = map te_core es"
    by (auto simp: mmu_view_def)
  have "map_option te_core (find (\<lambda>e. valid e \<and> virtualPage e = vpn) es') =
        map_option te_core (find (\<lambda>e. valid e \<and> virtualPage e = vpn) es)"
    by (simp add: find_te_core es'(2))
  with Some es' show ?thesis
    by (cases "find (\<lambda>e. valid e \<and> virtualPage e = vpn) es'";
        cases "find (\<lambda>e. valid e \<and> virtualPage e = vpn) es") (auto simp: lookup_page_def te_core_def)
qed

lemma mach_ok_view:
  assumes "mmu_view m' = mmu_view m" "mach_ok m"
  shows "mach_ok m'"
proof (cases "tlb m")
  case None
  with assms(2) obtain p tbl where p: "pageTable m = Some p" "te_heap m p = Some tbl"
    "unat (pageTableSize m) \<le> length tbl"
    by (auto simp: mach_ok_def split: option.splits)
  from assms(1) None p(1) have "tlb m' = None" "pageTable m' = Some p" "pageTableSize m' = pageTableSize m"
    and "map_option (map te_core) (te_heap m' p) = map_option (map te_core) (te_heap m p)"
    by (auto simp: mmu_view_def fun_eq_iff)
  moreover from this(4) p(2) obtain tbl' where
    t: "te_heap m' p = Some tbl'" "map te_core tbl' = map te_core tbl" by auto
  moreover from t(2) have "length tbl' = length tbl" by (rule map_eq_imp_length_eq)
  ultimately show ?thesis using p(3) by (simp add: mach_ok_def)
next
  case (Some es)
  with assms show ?thesis by (auto simp: mach_ok_def mmu_view_def)
qed

lemma translate_spec_view:
  assumes "mmu_view m' = mmu_view m" "mach_ok m"
  shows "translate_spec va sz w m' = translate_spec va sz w m"
  unfolding translate_spec_def lookup_page_view [OF assms] ..

section \<open>Translate refines the page lookup\<close>

lemma and_mask_eq_0: "(va :: 32 word) AND mask n = 0 \<longleftrightarrow> unat va mod 2 ^ n = 0"
proof -
  have "unat (va AND mask n) = unat va mod 2 ^ n"
    by (simp only: take_bit_eq_mask [symmetric] unsigned_take_bit_eq) (simp only: take_bit_eq_mod)
  then show ?thesis by (simp flip: unat_eq_zero)
qed

lemma aligned_4: "va AND 0x3 \<noteq> 0 \<longleftrightarrow> \<not> aligned va 4"
  using and_mask_eq_0 [of va 2] by (simp add: mask_eq_exp_minus_1 aligned_def)

lemma aligned_2: "va AND 0x1 \<noteq> 0 \<longleftrightarrow> \<not> aligned va 2"
  using and_mask_eq_0 [of va 1] by (simp add: mask_eq_exp_minus_1 aligned_def)

lemma aligned_1 [simp]: "aligned va 1"
  unfolding aligned_def by simp

lemma phys_addr_unat:
  assumes "f < (128 :: 32 word)"
  shows "unat (f * 512 + va mod 512) = unat f * 512 + unat va mod 512"
proof -
  from assms have f: "unat f < 128" by (simp add: word_less_nat_alt)
  have "unat (va mod 512) = unat va mod 512" by (simp add: unat_mod_distrib)
  moreover have "unat va mod 512 < 512" by simp
  moreover have "unat (f * 512) = unat f * 512" using f by (simp add: unat_word_ariths)
  ultimately show ?thesis using f by (simp add: unat_word_ariths)
qed

lemma page_end:
  assumes "sz \<in> {1, 2, 4}" "aligned va sz"
  shows "int (unat va mod 512) + sz \<le> 512"
proof -
  from assms(1) have "nat sz dvd 512" by auto
  with assms have "(unat va mod 512) mod nat sz = 0" by (simp add: aligned_def mod_mod_cancel)
  moreover have "unat va mod 512 < 512" by simp
  ultimately show ?thesis using assms(1) by auto
qed

lemma phys_addr_ok:
  assumes "f < (128 :: 32 word)" "sz \<in> {1, 2, 4}" "aligned va sz"
  shows "sint (f * 512 + va mod 512) \<ge> 0 \<and> sint (f * 512 + va mod 512) + sz \<le> 65536"
proof -
  let ?p = "f * 512 + va mod 512"
  have f: "unat f < 128" using assms(1) by (simp add: word_less_nat_alt)
  have u: "unat ?p = unat f * 512 + unat va mod 512" by (rule phys_addr_unat [OF assms(1)])
  moreover have "unat va mod 512 < 512" by simp
  ultimately have "unat ?p < 65536" using f by linarith
  then have "uint ?p < 2 ^ 31" by (simp flip: of_nat_less_iff [where 'a = int])
  moreover have "- (2 ^ 31) \<le> uint ?p" by (rule order_trans [OF _ uint_ge_0]) simp
  ultimately have "sint ?p = uint ?p"
    using signed_take_bit_int_eq_self [of 31 "uint ?p"] by (simp add: sint_uint)
  moreover have "uint ?p = int (unat f * 512 + unat va mod 512)" using u by (metis uint_nat)
  moreover have "uint f < 128" using assms(1) by (simp add: word_less_def)
  ultimately show ?thesis using page_end [OF assms(2,3)] by simp
qed

lemma tlb_search_Some:
  "tlb_search es vpn i = Some j \<Longrightarrow>
   i \<le> j \<and> j - i < length es \<and> find (\<lambda>e. valid e \<and> virtualPage e = vpn) es = Some (es ! (j - i))"
proof (induction es arbitrary: i)
  case (Cons e es)
  show ?case
  proof (cases "valid e \<and> virtualPage e = vpn")
    case False
    with Cons.prems have "tlb_search es vpn (i + 1) = Some j" by simp
    from Cons.IH [OF this] False show ?thesis by (auto simp: nth_Cons' Suc_le_eq)
  qed (use Cons.prems in auto)
qed simp

lemma tlb_search_None:
  "tlb_search es vpn i = None \<longleftrightarrow> find (\<lambda>e. valid e \<and> virtualPage e = vpn) es = None"
  by (induction es arbitrary: i) auto

lemma mmu_view_list_update:
  "i < length es \<Longrightarrow> te_core e = te_core (es ! i) \<Longrightarrow> map te_core (es[i := e]) = map te_core es"
  by (metis length_map list_update_id map_update nth_map)

lemma find_entry_ok:
  assumes "mach_ok m"
  shows "(\<exists>ex. find_entry vpn m = Inr (Inl ex) \<and> lookup_page vpn m = Inl ex) \<or>
    (\<exists>e put. find_entry vpn m = Inr (Inr (e, put)) \<and> lookup_page vpn m = Inr (physicalPage e, readOnly e) \<and>
       (\<forall>e'. te_core e' = te_core e \<longrightarrow> mmu_view (put e') = mmu_view m) \<and>
       (\<forall>e'. registers (put e') = registers m \<and> mainMemory (put e') = mainMemory m))"
proof (cases "tlb m")
  case None
  with assms obtain p tbl where p: "pageTable m = Some p" "te_heap m p = Some tbl"
    "unat (pageTableSize m) \<le> length tbl"
    by (auto simp: mach_ok_def split: option.splits)
  show ?thesis
  proof (cases "vpn < pageTableSize m \<and> valid (tbl ! unat vpn)")
    case True
    with p(3) have len: "unat vpn < length tbl" by (simp add: word_less_nat_alt)
    define put where "put e = m\<lparr>te_heap := (te_heap m)(p \<mapsto> tbl[unat vpn := e])\<rparr>" for e
    have "find_entry vpn m = Inr (Inr (tbl ! unat vpn, put))"
      using True len None p unfolding find_entry_def put_def by (simp add: not_le [symmetric])
    moreover have "lookup_page vpn m = Inr (physicalPage (tbl ! unat vpn), readOnly (tbl ! unat vpn))"
      using True None p by (simp add: lookup_page_def Let_def not_le [symmetric])
    moreover have "mmu_view (put e') = mmu_view m" if "te_core e' = te_core (tbl ! unat vpn)" for e'
      using p(2) mmu_view_list_update [OF len that] by (auto simp: put_def mmu_view_def)
    moreover have "registers (put e') = registers m \<and> mainMemory (put e') = mainMemory m" for e'
      by (simp add: put_def)
    ultimately show ?thesis by blast
  next
    case False
    show ?thesis
    proof (cases "vpn < pageTableSize m")
      case True
      with p(3) have "unat vpn < length tbl" by (simp add: word_less_nat_alt)
      with True False None p show ?thesis by (auto simp: find_entry_def lookup_page_def)
    next
      case False
      with None p show ?thesis by (auto simp: find_entry_def lookup_page_def)
    qed
  qed
next
  case (Some es)
  show ?thesis
  proof (cases "tlb_search es vpn 0")
    case None
    then have "find (\<lambda>e. valid e \<and> virtualPage e = vpn) es = None" by (simp only: tlb_search_None)
    with None Some show ?thesis by (auto simp: find_entry_def lookup_page_def)
  next
    case (Some i)
    from tlb_search_Some [OF this] have len: "i < length es"
      and f: "find (\<lambda>e. valid e \<and> virtualPage e = vpn) es = Some (es ! i)" by auto
    define put where "put e = m\<lparr>tlb := Some (es[i := e])\<rparr>" for e
    have "find_entry vpn m = Inr (Inr (es ! i, put))"
      using Some \<open>tlb m = Some es\<close> unfolding find_entry_def put_def by simp
    moreover have "lookup_page vpn m = Inr (physicalPage (es ! i), readOnly (es ! i))"
      using f \<open>tlb m = Some es\<close> by (simp add: lookup_page_def)
    moreover have "mmu_view (put e') = mmu_view m" if "te_core e' = te_core (es ! i)" for e'
      using \<open>tlb m = Some es\<close> mmu_view_list_update [OF len that] by (auto simp: put_def mmu_view_def)
    moreover have "registers (put e') = registers m \<and> mainMemory (put e') = mainMemory m" for e'
      by (simp add: put_def)
    ultimately show ?thesis by blast
  qed
qed

lemma Translate_refines:
  assumes "mach_ok m" and sz: "sz \<in> {1, 2, 4}"
  shows "\<exists>r m'. Translate va sz w m = Inr (r, m') \<and> map_sum id unat r = translate_spec va sz w m \<and>
     mmu_view m' = mmu_view m \<and> registers m' = registers m \<and> mainMemory m' = mainMemory m"
proof (cases "aligned va sz")
  case False
  then have "(sz = 4 \<and> va AND 0x3 \<noteq> 0) \<or> (sz = 2 \<and> va AND 0x1 \<noteq> 0)"
    using sz by (auto simp: aligned_4 aligned_2)
  with False show ?thesis by (simp add: Translate_def translate_spec_def)
next
  case True
  then have al: "\<not> ((sz = 4 \<and> va AND 0x3 \<noteq> 0) \<or> (sz = 2 \<and> va AND 0x1 \<noteq> 0))"
    using sz by (auto simp: aligned_4 aligned_2)
  have modes: "tlb m = None \<or> pageTable m = None" "tlb m \<noteq> None \<or> pageTable m \<noteq> None"
    using assms(1) by (auto simp: mach_ok_def split: option.splits)
  have unf: "Translate va sz w m = res_bind (find_entry (va div 512) m) (\<lambda>r.
           case r of Inl ex \<Rightarrow> Inr (Inl ex, m)
           | Inr (entry, put) \<Rightarrow>
               if readOnly entry \<and> w then Inr (Inl ReadOnlyException, m)
               else if physicalPage entry \<ge> 128 then Inr (Inl BusErrorException, m)
               else ASSERT (sint (physicalPage entry * 512 + va mod 512) \<ge> 0 \<and>
                            sint (physicalPage entry * 512 + va mod 512) + sz \<le> 65536)
                      (Inr (Inr (physicalPage entry * 512 + va mod 512),
                            put (entry\<lparr>te_use := True, dirty := dirty entry \<or> w\<rparr>))))"
    unfolding Translate_def if_not_P [OF al] ASSERT_True [OF modes(1)] ASSERT_True [OF modes(2)]
      Let_def PageSize_def NumPhysPages_def MemorySize_def ..
  from find_entry_ok [OF assms(1), of "va div 512"] show ?thesis
  proof (elim disjE exE conjE)
    fix ex assume "find_entry (va div 512) m = Inr (Inl ex)" "lookup_page (va div 512) m = Inl ex"
    with True show ?thesis by (simp add: unf translate_spec_def)
  next
    fix e put
    assume e: "find_entry (va div 512) m = Inr (Inr (e, put))"
      and l: "lookup_page (va div 512) m = Inr (physicalPage e, readOnly e)"
      and v: "\<forall>e'. te_core e' = te_core e \<longrightarrow> mmu_view (put e') = mmu_view m"
      and f: "\<forall>e'. registers (put e') = registers m \<and> mainMemory (put e') = mainMemory m"
    have core: "te_core (e\<lparr>te_use := True, dirty := d\<rparr>) = te_core e" for d by (simp add: te_core_def)
    show ?thesis
    proof (cases "(readOnly e \<and> w) \<or> physicalPage e \<ge> 128")
      case True
      with \<open>aligned va sz\<close> l have "translate_spec va sz w m =
          Inl (if readOnly e \<and> w then ReadOnlyException else BusErrorException)"
        by (auto simp: translate_spec_def)
      with True e show ?thesis by (auto simp: unf)
    next
      case False
      then have "physicalPage e < 128" by (simp add: not_le)
      note ok = phys_addr_ok [OF this sz True] phys_addr_unat [OF this, of va]
      have "Translate va sz w m = Inr (Inr (physicalPage e * 512 + va mod 512),
              put (e\<lparr>te_use := True, dirty := dirty e \<or> w\<rparr>))"
        unfolding unf e using False ok(1) by (simp del: not_le)
      moreover have "translate_spec va sz w m = Inr (unat (physicalPage e * 512 + va mod 512))"
        using False True l ok(2) by (simp add: translate_spec_def)
      ultimately show ?thesis using v f core by simp
    qed
  qed
qed

section \<open>Reading and writing virtual memory\<close>

text \<open>The bytes of an access, as the user program sees them.\<close>

definition load_spec :: "int \<Rightarrow> (nat \<Rightarrow> 8 word) \<Rightarrow> nat \<Rightarrow> 32 word" where
  "load_spec sz mem p =
     (if sz = 1 then scast (mem p)
      else if sz = 2 then ucast (le_short (mem p) (mem (p + 1)))
      else le_word (mem p) (mem (p + 1)) (mem (p + 2)) (mem (p + 3)))"

definition store_spec :: "int \<Rightarrow> (nat \<Rightarrow> 8 word) \<Rightarrow> nat \<Rightarrow> 32 word \<Rightarrow> nat \<Rightarrow> 8 word" where
  "store_spec sz mem p v = (\<lambda>q. if p \<le> q \<and> q < p + nat sz then byte_of (q - p) v else mem q)"

text \<open>What a \<open>sz\<close>-byte read gives after \<open>v\<close> was written there.\<close>

definition stored_value :: "int \<Rightarrow> 32 word \<Rightarrow> 32 word" where
  "stored_value sz v =
     (if sz = 1 then scast (ucast v :: 8 word) else if sz = 2 then ucast (ucast v :: 16 word) else v)"

text \<open>The registers when the kernel's handler is entered.\<close>

definition raise_regs :: "32 word \<Rightarrow> (nat \<Rightarrow> 32 word) \<Rightarrow> nat \<Rightarrow> 32 word" where
  "raise_regs bad r = r(BadVAddrReg := bad, unat (r LoadReg) := r LoadValueReg, LoadReg := 0, LoadValueReg := 0, 0 := 0)"

lemma RaiseException_ok:
  assumes "unat (registers m LoadReg) < 32"
  shows "RaiseException ex a m = Inr (Trap ex, m\<lparr>registers := raise_regs a (registers m)\<rparr>)"
  using assms by (simp add: RaiseException_def DelayedLoad_def Let_def raise_regs_def set_reg_def)

lemma store_spec_1: "mem(p := ucast (v AND 0xff)) = store_spec 1 mem p v"
proof -
  have "ucast (v AND 0xff) = byte_of 0 v"
    by (rule bit_word_eqI) (simp add: byte_of_bit byte_masks bit_simps)
  then show ?thesis by (auto simp: store_spec_def fun_eq_iff)
qed

lemma store_spec_2: "host_store2 False mem p (ucast (v AND 0xffff)) = store_spec 2 mem p v"
proof -
  have m: "(0xffff :: 32 word) = mask 16" by (simp add: mask_eq_exp_minus_1)
  have "byte_of k (ucast (v AND 0xffff) :: 16 word) = byte_of k v" if "k < 2" for k
    using that by (intro bit_word_eqI) (simp add: byte_of_bit m bit_simps)
  from this [of 0] this [of 1] show ?thesis
    by (auto simp: store_spec_def host_store2_def fun_eq_iff less_Suc_eq numeral_2_eq_2)
qed

lemma store_spec_4: "host_store4 False mem p v = store_spec 4 mem p v"
proof
  fix q
  consider "q < p" | "q = p" | "q = p + 1" | "q = p + 2" | "q = p + 3" | "p + 4 \<le> q" by linarith
  then show "host_store4 False mem p v q = store_spec 4 mem p v q"
    by cases (simp_all add: host_store4_def store_spec_def)
qed

lemma store_outside: "q < p \<or> p + nat sz \<le> q \<Longrightarrow> store_spec sz mem p v q = mem q"
  by (auto simp: store_spec_def)

lemma load_after_store:
  assumes "sz \<in> {1, 2, 4}"
  shows "load_spec sz (store_spec sz mem p v) p = stored_value sz v"
proof -
  have "byte_of 0 v = ucast v" by (simp add: byte_of_def)
  moreover have "le_short (byte_of 0 v) (byte_of 1 v) = ucast v"
  proof (rule bit_word_eqI)
    fix n assume "n < LENGTH(16)"
    then have n: "n < 16" by simp
    consider "n < 8" | "8 \<le> n" by linarith
    then show "bit (le_short (byte_of 0 v) (byte_of 1 v)) n = bit (ucast v :: 16 word) n"
      using n by cases (simp_all add: le_short_def byte_of_def bit_simps, auto)
  qed
  ultimately show ?thesis using assms le_word_bytes [of v]
    by (auto simp: load_spec_def store_spec_def stored_value_def)
qed

text \<open>A machine between two instructions: the translation is set up and the pending delayed load, if
  any, is for a general register.\<close>

definition cpu_ok :: "Machine \<Rightarrow> bool" where
  "cpu_ok m = (mach_ok m \<and> registers m LoadReg < 32 \<and> registers m 0 = 0)"

lemma cpu_ok_load: "cpu_ok m \<Longrightarrow> unat (registers m LoadReg) < 32"
  by (simp add: cpu_ok_def word_less_nat_alt)

lemma raise_regs_ok:
  "raise_regs a r LoadReg = 0" "raise_regs a r 0 = 0"
  by (simp_all add: raise_regs_def)

lemma ReadMem_ok:
  assumes "cpu_ok m" "sz \<in> {1, 2, 4}"
  shows "\<exists>m'. mmu_view m' = mmu_view m \<and> mainMemory m' = mainMemory m \<and> cpu_ok m' \<and>
    (case translate_spec addr sz False m of
       Inl ex \<Rightarrow> ReadMem big addr sz m = Inr (Trap ex, m') \<and> registers m' = raise_regs addr (registers m)
     | Inr p \<Rightarrow> ReadMem big addr sz m = Inr (Done (load_spec sz (mainMemory m) p), m') \<and>
                registers m' = registers m)"
proof -
  from assms have "mach_ok m" by (simp add: cpu_ok_def)
  from Translate_refines [OF this assms(2), of addr False] obtain r m1 where
    t: "Translate addr sz False m = Inr (r, m1)" "map_sum id unat r = translate_spec addr sz False m"
       "mmu_view m1 = mmu_view m" "registers m1 = registers m" "mainMemory m1 = mainMemory m" by blast
  have ok1: "mach_ok m1" using mach_ok_view [OF t(3) \<open>mach_ok m\<close>] .
  show ?thesis
  proof (cases r)
    case (Inl ex)
    let ?m' = "m1\<lparr>registers := raise_regs addr (registers m1)\<rparr>"
    have "ReadMem big addr sz m = Inr (Trap ex, ?m')"
      using t(1,4) Inl cpu_ok_load [OF assms(1)] by (simp add: ReadMem_def RaiseException_ok)
    moreover have "mmu_view ?m' = mmu_view m" using t(3) by (simp add: mmu_view_def)
    moreover have "cpu_ok ?m'" using mach_ok_view [OF calculation(2) \<open>mach_ok m\<close>]
      by (simp add: cpu_ok_def raise_regs_ok del: reg_defs)
    ultimately show ?thesis using t(2,4,5) Inl by (intro exI [of _ ?m']) (auto simp flip: t(2))
  next
    case (Inr pa)
    have "ReadMem big addr sz m = Inr (Done (load_spec sz (mainMemory m) (unat pa)), m1)"
      using t(1,5) Inr assms(2) by (auto simp: ReadMem_def load_spec_def Let_def)
    moreover have "cpu_ok m1" using ok1 assms(1) t(4) by (simp add: cpu_ok_def)
    ultimately show ?thesis using t Inr by (intro exI [of _ m1]) (auto simp flip: t(2))
  qed
qed

lemma WriteMem_ok:
  assumes "cpu_ok m" "sz \<in> {1, 2, 4}"
  shows "\<exists>m'. mmu_view m' = mmu_view m \<and> cpu_ok m' \<and>
    (case translate_spec addr sz True m of
       Inl ex \<Rightarrow> WriteMem big addr sz v m = Inr (Trap ex, m') \<and> mainMemory m' = mainMemory m \<and>
                 registers m' = raise_regs addr (registers m)
     | Inr p \<Rightarrow> WriteMem big addr sz v m = Inr (Done (), m') \<and> registers m' = registers m \<and>
                mainMemory m' = store_spec sz (mainMemory m) p v)"
proof -
  from assms have "mach_ok m" by (simp add: cpu_ok_def)
  from Translate_refines [OF this assms(2), of addr True] obtain r m1 where
    t: "Translate addr sz True m = Inr (r, m1)" "map_sum id unat r = translate_spec addr sz True m"
       "mmu_view m1 = mmu_view m" "registers m1 = registers m" "mainMemory m1 = mainMemory m" by blast
  have ok1: "mach_ok m1" using mach_ok_view [OF t(3) \<open>mach_ok m\<close>] .
  show ?thesis
  proof (cases r)
    case (Inl ex)
    let ?m' = "m1\<lparr>registers := raise_regs addr (registers m1)\<rparr>"
    have "WriteMem big addr sz v m = Inr (Trap ex, ?m')"
      using t(1,4) Inl cpu_ok_load [OF assms(1)] by (simp add: WriteMem_def RaiseException_ok)
    moreover have "mmu_view ?m' = mmu_view m" using t(3) by (simp add: mmu_view_def)
    moreover have "cpu_ok ?m'" using mach_ok_view [OF calculation(2) \<open>mach_ok m\<close>]
      by (simp add: cpu_ok_def raise_regs_ok del: reg_defs)
    ultimately show ?thesis using t(2,4,5) Inl by (intro exI [of _ ?m']) (auto simp flip: t(2))
  next
    case (Inr pa)
    let ?m' = "m1\<lparr>mainMemory := store_spec sz (mainMemory m) (unat pa) v\<rparr>"
    have "WriteMem big addr sz v m = Inr (Done (), ?m')"
      using t(1,5) Inr assms(2)
      by (auto simp: WriteMem_def Let_def store_spec_1 store_spec_2 store_spec_4)
    moreover have "mmu_view ?m' = mmu_view m" using t(3) by (simp add: mmu_view_def)
    moreover have "cpu_ok ?m'" using mach_ok_view [OF calculation(2) \<open>mach_ok m\<close>] assms(1) t(4)
      by (simp add: cpu_ok_def)
    ultimately show ?thesis using t Inr by (intro exI [of _ ?m']) (auto simp flip: t(2))
  qed
qed

text \<open>The physical memory that the current translation gives access to.\<close>

definition frames :: "Machine \<Rightarrow> nat set" where
  "frames m = {unat f | f. \<exists>vpn ro. lookup_page vpn m = Inr (f, ro)}"

lemma frames_view: "mmu_view m' = mmu_view m \<Longrightarrow> mach_ok m \<Longrightarrow> frames m' = frames m"
  by (simp add: frames_def lookup_page_view [of m' m])

lemma translate_spec_frame:
  assumes "translate_spec va sz w m = Inr p" "sz \<in> {1, 2, 4}" "p \<le> q" "q < p + nat sz"
  shows "q div 512 \<in> frames m \<and> q < 65536"
proof -
  from assms(1) obtain f ro where l: "lookup_page (va div 512) m = Inr (f, ro)" "f < 128"
    and p: "p = unat f * 512 + unat va mod 512" and al: "aligned va sz"
    by (auto simp: translate_spec_def not_le split: if_splits sum.splits)
  from page_end [OF assms(2) al] assms(2-4) p
  have q: "unat f * 512 \<le> q" "q < unat f * 512 + 512" by auto
  then have "q div 512 = unat f" by (simp add: div_nat_eqI)
  moreover have "unat f < 128" using l(2) by (simp add: word_less_nat_alt)
  moreover have "unat f \<in> frames m" using l(1) unfolding frames_def by blast
  ultimately show ?thesis using q by auto
qed

lemma store_spec_frames:
  assumes "translate_spec va sz w m = Inr p" "sz \<in> {1, 2, 4}" "q div 512 \<notin> frames m"
  shows "store_spec sz mem p v q = mem q"
  using translate_spec_frame [OF assms(1,2), of q] assms(3) by (auto simp: store_spec_def)

section \<open>Properties\<close>

text \<open>A machine with a two-page table, for the witnesses: page 0 is frame 5, writable; page 1 is
  frame 9, read-only.\<close>

definition demo_entry :: "32 word \<Rightarrow> 32 word \<Rightarrow> bool \<Rightarrow> TranslationEntry" where
  "demo_entry v f ro = \<lparr>virtualPage = v, physicalPage = f, valid = True, readOnly = ro, te_use = False, dirty = False\<rparr>"

definition demo_machine :: Machine where
  "demo_machine = (Machine_new False)\<lparr>pageTable := Some 1, pageTableSize := 2,
     te_heap := [1 \<mapsto> [demo_entry 0 5 False, demo_entry 1 9 True]]\<rparr>"

lemmas demo_defs = demo_machine_def demo_entry_def Machine_new_def

lemma demo_ok: "cpu_ok demo_machine"
  by (simp add: demo_defs cpu_ok_def mach_ok_def)

text \<open>C22. \<open>Machine::Translate\<close>, with a page table or a TLB and for the access sizes 1, 2 and 4, never trips
  an assertion or leaves a table; it returns exactly the exception or physical address
  that the page lookup prescribes, and apart from use and dirty bits it changes nothing.\<close>

theorem translate_is_page_lookup:
  assumes "mach_ok m" and "sz \<in> {1, 2, 4}"
  shows "\<exists>r m'. Translate va sz writing m = Inr (r, m') \<and>
     map_sum id unat r = translate_spec va sz writing m \<and>
     mmu_view m' = mmu_view m \<and> registers m' = registers m \<and> mainMemory m' = mainMemory m"
  using assms by (rule Translate_refines)

theorem translate_is_page_lookup_witness:
  "mach_ok demo_machine \<and>
   (\<exists>m'. Translate 0x104 4 True demo_machine = Inr (Inr 0xB04, m')) \<and>
   (\<exists>m'. Translate 0x204 4 True demo_machine = Inr (Inl ReadOnlyException, m'))"
proof -
  have ok: "mach_ok demo_machine" using demo_ok by (simp add: cpu_ok_def)
  have s: "translate_spec 0x104 4 True demo_machine = Inr 0xB04"
    "translate_spec 0x204 4 True demo_machine = Inl ReadOnlyException"
    by (simp_all add: translate_spec_def lookup_page_def aligned_def demo_defs word_le_nat_alt)
  from translate_is_page_lookup [OF ok, of 4 "0x104" True] obtain r m1 where
    r: "Translate 0x104 4 True demo_machine = Inr (r, m1)" "map_sum id unat r = Inr 0xB04"
    unfolding s by auto
  from r(2) have "r = Inr 0xB04"
    by (cases r) (auto simp: word_unat_eq_iff)
  moreover from translate_is_page_lookup [OF ok, of 4 "0x204" True] obtain r' m2 where
    "Translate 0x204 4 True demo_machine = Inr (r', m2)" "map_sum id unat r' = Inl ReadOnlyException"
    unfolding s by auto
  moreover from this(2) have "r' = Inl ReadOnlyException" by (cases r') auto
  ultimately show ?thesis using ok r(1) by auto
qed

text \<open>C23. A successful \<open>WriteMem\<close> of 1, 2 or 4 bytes is read back by \<open>ReadMem\<close> at the same address (a byte
  sign-extended, a half word zero-extended), it can never change a byte of physical memory
  outside the frames of the current translation, and it leaves the machine ready to go on.\<close>

theorem memory_write_read:
  assumes "cpu_ok m" and "sz \<in> {1, 2, 4}" and "WriteMem big a sz v m = Inr (Done (), m')"
  shows "(\<exists>m''. ReadMem big a sz m' = Inr (Done (stored_value sz v), m'')) \<and> cpu_ok m' \<and>
     (\<forall>q. q div 512 \<notin> frames m \<longrightarrow> mainMemory m' q = mainMemory m q)"
proof -
  from WriteMem_ok [OF assms(1,2), where addr = a and big = big and v = v] assms(3) obtain p where
    p: "translate_spec a sz True m = Inr p" "mmu_view m' = mmu_view m" "cpu_ok m'"
       "mainMemory m' = store_spec sz (mainMemory m) p v"
    by (cases "translate_spec a sz True m") auto
  have ok: "mach_ok m" using assms(1) by (simp add: cpu_ok_def)
  have "translate_spec a sz False m = Inr p"
    using p(1) by (auto simp: translate_spec_def split: if_splits sum.splits)
  then have "translate_spec a sz False m' = Inr p" by (simp add: translate_spec_view [OF p(2) ok])
  with ReadMem_ok [OF p(3) assms(2), where addr = a and big = big] p(4) load_after_store [OF assms(2)]
  have "\<exists>m''. ReadMem big a sz m' = Inr (Done (stored_value sz v), m'')" by auto
  with p store_spec_frames [OF p(1) assms(2)] show ?thesis by simp
qed

theorem memory_write_read_witness:
  "cpu_ok demo_machine \<and> (\<exists>m' m''. WriteMem True 0x104 2 0xABCD8765 demo_machine = Inr (Done (), m') \<and>
     ReadMem True 0x104 2 m' = Inr (Done 0x8765, m''))"
proof -
  have t: "translate_spec 0x104 2 True demo_machine = Inr 0xB04"
    by (simp add: translate_spec_def lookup_page_def aligned_def demo_defs)
  with WriteMem_ok [OF demo_ok, where sz = 2 and addr = "0x104" and big = True and v = "0xABCD8765"] obtain m' where
    w: "WriteMem True 0x104 2 0xABCD8765 demo_machine = Inr (Done (), m')" by auto
  from memory_write_read [OF demo_ok _ w] have "\<exists>m''. ReadMem True 0x104 2 m' = Inr (Done (stored_value 2 0xABCD8765), m'')"
    by simp
  moreover have "stored_value 2 0xABCD8765 = 0x8765" by (simp add: stored_value_def)
  ultimately show ?thesis using demo_ok w by auto
qed

text \<open>C24. User programs cannot tell the byte order of the host: built for a big-endian or a little-endian
  host, \<open>ReadMem\<close> and \<open>WriteMem\<close> give the same results for every address, size and state.\<close>

theorem host_byte_order_invisible:
  "ReadMem True a sz m = ReadMem False a sz m \<and> WriteMem True a sz v m = WriteMem False a sz v m"
  unfolding ReadMem_def WriteMem_def WordToHost_load4 ShortToHost_load2 host_store4_endian host_store2_endian
  by (rule conjI; rule refl)

end
