(* ===== verification/MipsSim.thy ===== *)
theory MipsSim
  imports Machine
begin

unbundle bit_operations_syntax

text \<open>
  The MIPS R2000 simulator of \<open>machine/mipssim.h\<close> and \<open>machine/mipssim.cc\<close>: decoding, the switch of
  \<open>OneInstruction\<close> in the order of the source, delayed loads and branches, and the bit-serial
  multiplication. Signed arithmetic of the host wraps around at 32 bits, as the simulator's
  overflow tests presuppose. The properties at the end compare the code with the instruction
  set it implements.
\<close>

section \<open>Instructions and their encoding\<close>

datatype (plugins only: code) opcode =
    OP_ADD | OP_ADDI | OP_ADDIU | OP_ADDU | OP_AND | OP_ANDI | OP_BEQ | OP_BGEZ | OP_BGEZAL | OP_BGTZ
  | OP_BLEZ | OP_BLTZ | OP_BLTZAL | OP_BNE | OP_DIV | OP_DIVU | OP_J | OP_JAL | OP_JALR | OP_JR
  | OP_LB | OP_LBU | OP_LH | OP_LHU | OP_LUI | OP_LW | OP_LWL | OP_LWR | OP_MFHI | OP_MFLO
  | OP_MTHI | OP_MTLO | OP_MULT | OP_MULTU | OP_NOR | OP_OR | OP_ORI | OP_RFE | OP_SB | OP_SH
  | OP_SLL | OP_SLLV | OP_SLT | OP_SLTI | OP_SLTIU | OP_SLTU | OP_SRA | OP_SRAV | OP_SRL | OP_SRLV
  | OP_SUB | OP_SUBU | OP_SW | OP_SWL | OP_SWR | OP_XOR | OP_XORI | OP_SYSCALL | OP_UNIMP | OP_RES
  | SPECIAL | BCOND

datatype OpFormat = IFMT | JFMT | RFMT

record Instruction =
  ivalue :: "32 word"
  opCode :: opcode
  rs :: nat
  rt :: nat
  rd :: nat
  extra :: "32 word"

definition opTable :: "(opcode \<times> OpFormat) list" where
  "opTable = [
    (SPECIAL, RFMT), (BCOND, IFMT), (OP_J, JFMT), (OP_JAL, JFMT),
    (OP_BEQ, IFMT), (OP_BNE, IFMT), (OP_BLEZ, IFMT), (OP_BGTZ, IFMT),
    (OP_ADDI, IFMT), (OP_ADDIU, IFMT), (OP_SLTI, IFMT), (OP_SLTIU, IFMT),
    (OP_ANDI, IFMT), (OP_ORI, IFMT), (OP_XORI, IFMT), (OP_LUI, IFMT),
    (OP_UNIMP, IFMT), (OP_UNIMP, IFMT), (OP_UNIMP, IFMT), (OP_UNIMP, IFMT),
    (OP_RES, IFMT), (OP_RES, IFMT), (OP_RES, IFMT), (OP_RES, IFMT),
    (OP_RES, IFMT), (OP_RES, IFMT), (OP_RES, IFMT), (OP_RES, IFMT),
    (OP_RES, IFMT), (OP_RES, IFMT), (OP_RES, IFMT), (OP_RES, IFMT),
    (OP_LB, IFMT), (OP_LH, IFMT), (OP_LWL, IFMT), (OP_LW, IFMT),
    (OP_LBU, IFMT), (OP_LHU, IFMT), (OP_LWR, IFMT), (OP_RES, IFMT),
    (OP_SB, IFMT), (OP_SH, IFMT), (OP_SWL, IFMT), (OP_SW, IFMT),
    (OP_RES, IFMT), (OP_RES, IFMT), (OP_SWR, IFMT), (OP_RES, IFMT),
    (OP_UNIMP, IFMT), (OP_UNIMP, IFMT), (OP_UNIMP, IFMT), (OP_UNIMP, IFMT),
    (OP_RES, IFMT), (OP_RES, IFMT), (OP_RES, IFMT), (OP_RES, IFMT),
    (OP_UNIMP, IFMT), (OP_UNIMP, IFMT), (OP_UNIMP, IFMT), (OP_UNIMP, IFMT),
    (OP_RES, IFMT), (OP_RES, IFMT), (OP_RES, IFMT), (OP_RES, IFMT)]"

definition specialTable :: "opcode list" where
  "specialTable = [
    OP_SLL, OP_RES, OP_SRL, OP_SRA, OP_SLLV, OP_RES, OP_SRLV, OP_SRAV,
    OP_JR, OP_JALR, OP_RES, OP_RES, OP_SYSCALL, OP_UNIMP, OP_RES, OP_RES,
    OP_MFHI, OP_MTHI, OP_MFLO, OP_MTLO, OP_RES, OP_RES, OP_RES, OP_RES,
    OP_MULT, OP_MULTU, OP_DIV, OP_DIVU, OP_RES, OP_RES, OP_RES, OP_RES,
    OP_ADD, OP_ADDU, OP_SUB, OP_SUBU, OP_AND, OP_OR, OP_XOR, OP_NOR,
    OP_RES, OP_RES, OP_SLT, OP_SLTU, OP_RES, OP_RES, OP_RES, OP_RES,
    OP_RES, OP_RES, OP_RES, OP_RES, OP_RES, OP_RES, OP_RES, OP_RES,
    OP_RES, OP_RES, OP_RES, OP_RES, OP_RES, OP_RES, OP_RES, OP_RES]"

definition Decode :: "32 word \<Rightarrow> Instruction" where
  "Decode v =
     (let (op, fmt) = opTable ! unat (drop_bit 26 v AND 0x3f);
          ex = (case fmt of
                  IFMT \<Rightarrow> let e = v AND 0xffff in if e AND 0x8000 \<noteq> 0 then e OR 0xffff0000 else e
                | RFMT \<Rightarrow> drop_bit 6 v AND 0x1f
                | JFMT \<Rightarrow> v AND 0x3ffffff);
          op' = (if op = SPECIAL then specialTable ! unat (v AND 0x3f)
                 else if op = BCOND then
                   (let i = v AND 0x1f0000 in
                    if i = 0 then OP_BLTZ else if i = 0x10000 then OP_BGEZ
                    else if i = 0x100000 then OP_BLTZAL else if i = 0x110000 then OP_BGEZAL
                    else OP_UNIMP)
                 else op)
      in \<lparr>ivalue = v, opCode = op', rs = unat (drop_bit 21 v AND 0x1f), rt = unat (drop_bit 16 v AND 0x1f),
          rd = unat (drop_bit 11 v AND 0x1f), extra = ex\<rparr>)"

definition IndexToAddr :: "32 word \<Rightarrow> 32 word" where
  "IndexToAddr x = push_bit 2 x"

definition SIGN_BIT :: "32 word" where
  "SIGN_BIT = 0x80000000"

section \<open>Multiplication\<close>

text \<open>The loop of \<open>Mult\<close>, with the number of rounds left; \<open>a\<close> is a signed \<open>int\<close>, so it shifts
  arithmetically.\<close>

fun mult_loop :: "nat \<Rightarrow> 32 word \<Rightarrow> 32 word \<Rightarrow> 32 word \<Rightarrow> 32 word \<Rightarrow> 32 word \<Rightarrow> 32 word \<times> 32 word" where
  "mult_loop 0 a bLo bHi lo hi = (hi, lo)"
| "mult_loop (Suc n) a bLo bHi lo hi =
     (let lo' = (if a AND 1 \<noteq> 0 then lo + bLo else lo);
          hi' = (if a AND 1 \<noteq> 0 then (if lo' < bLo then hi + 1 else hi) + bHi else hi)
      in if a AND 1 \<noteq> 0 \<and> a AND 0xfffffffe = 0 then (hi', lo')
         else mult_loop n (signed_drop_bit 1 a) (push_bit 1 bLo)
                (if bLo AND 0x80000000 \<noteq> 0 then push_bit 1 bHi OR 1 else push_bit 1 bHi) lo' hi')"

definition Mult :: "32 word \<Rightarrow> 32 word \<Rightarrow> bool \<Rightarrow> 32 word \<times> 32 word" where
  "Mult a b signedArith =
     (if a = 0 \<or> b = 0 then (0, 0)
      else
        let negA = signedArith \<and> sint a < 0; negB = signedArith \<and> sint b < 0;
            negative = (negA \<noteq> negB);
            (hi, lo) = mult_loop 32 (if negA then - a else a) (if negB then - b else b) 0 0 0
        in if negative
           then let lo' = NOT lo + 1 in (if lo' = 0 then NOT hi + 1 else NOT hi, lo')
           else (hi, lo))"

section \<open>One instruction\<close>

text \<open>The locals of \<open>OneInstruction\<close> at the end of the switch: \<open>nextLoadReg\<close>, \<open>nextLoadValue\<close>, \<open>pcAfter\<close>.\<close>

type_synonym exec_res = "((32 word \<times> 32 word \<times> 32 word) trapped \<times> Machine) res"

definition mem_then :: "('a trapped \<times> Machine) res \<Rightarrow> ('a \<Rightarrow> Machine \<Rightarrow> ('b trapped \<times> Machine) res) \<Rightarrow>
    ('b trapped \<times> Machine) res" where
  "mem_then acc k = res_bind acc (\<lambda>(r, m). case r of Done x \<Rightarrow> k x m | Trap ex \<Rightarrow> Inr (Trap ex, m))"

definition go_on :: "32 word \<Rightarrow> Machine \<Rightarrow> exec_res" where
  "go_on pcAfter m = Inr (Done (0, 0, pcAfter), m)"

definition op_add :: "Instruction \<Rightarrow> 32 word \<Rightarrow> Machine \<Rightarrow> exec_res" where
  "op_add i pcAfter m =
     (let a = registers m (rs i); b = registers m (rt i); sum = a + b in
      if (a XOR b) AND SIGN_BIT = 0 \<and> (a XOR sum) AND SIGN_BIT \<noteq> 0
      then RaiseException OverflowException 0 m
      else go_on pcAfter (set_reg (rd i) sum m))"

definition op_addi :: "Instruction \<Rightarrow> 32 word \<Rightarrow> Machine \<Rightarrow> exec_res" where
  "op_addi i pcAfter m =
     (let a = registers m (rs i); sum = a + extra i in
      if (a XOR extra i) AND SIGN_BIT = 0 \<and> (extra i XOR sum) AND SIGN_BIT \<noteq> 0
      then RaiseException OverflowException 0 m
      else go_on pcAfter (set_reg (rt i) sum m))"

definition op_sub :: "Instruction \<Rightarrow> 32 word \<Rightarrow> Machine \<Rightarrow> exec_res" where
  "op_sub i pcAfter m =
     (let a = registers m (rs i); b = registers m (rt i); diff = a - b in
      if (a XOR b) AND SIGN_BIT \<noteq> 0 \<and> (a XOR diff) AND SIGN_BIT \<noteq> 0
      then RaiseException OverflowException 0 m
      else go_on pcAfter (set_reg (rd i) diff m))"

definition op_div :: "Instruction \<Rightarrow> 32 word \<Rightarrow> Machine \<Rightarrow> exec_res" where
  "op_div i pcAfter m =
     (let a = registers m (rs i); b = registers m (rt i) in
      if b = 0 then go_on pcAfter (set_reg HiReg 0 (set_reg LoReg 0 m))
      else if a = 0x80000000 \<and> b = -1 then Inl DivTrap
      else let m' = set_reg LoReg (word_of_int (sint a sdiv sint b)) m in
           go_on pcAfter (set_reg HiReg (word_of_int (sint (registers m' (rs i)) smod sint (registers m' (rt i)))) m'))"

definition op_divu :: "Instruction \<Rightarrow> 32 word \<Rightarrow> Machine \<Rightarrow> exec_res" where
  "op_divu i pcAfter m =
     (let a = registers m (rs i); b = registers m (rt i) in
      if b = 0 then go_on pcAfter (set_reg HiReg 0 (set_reg LoReg 0 m))
      else go_on pcAfter (set_reg HiReg (a mod b) (set_reg LoReg (a div b) m)))"

definition op_lb :: "bool \<Rightarrow> Instruction \<Rightarrow> 32 word \<Rightarrow> Machine \<Rightarrow> exec_res" where
  "op_lb big i pcAfter m =
     mem_then (ReadMem big (registers m (rs i) + extra i) 1 m) (\<lambda>v m'.
       Inr (Done (word_of_nat (rt i),
                  if v AND 0x80 \<noteq> 0 \<and> opCode i = OP_LB then v OR 0xffffff00 else v AND 0xff, pcAfter), m'))"

definition op_lh :: "bool \<Rightarrow> Instruction \<Rightarrow> 32 word \<Rightarrow> Machine \<Rightarrow> exec_res" where
  "op_lh big i pcAfter m =
     (let tmp = registers m (rs i) + extra i in
      if tmp AND 0x1 \<noteq> 0 then RaiseException AddressErrorException tmp m
      else mem_then (ReadMem big tmp 2 m) (\<lambda>v m'.
        Inr (Done (word_of_nat (rt i),
                   if v AND 0x8000 \<noteq> 0 \<and> opCode i = OP_LH then v OR 0xffff0000 else v AND 0xffff, pcAfter), m')))"

definition op_lw :: "bool \<Rightarrow> Instruction \<Rightarrow> 32 word \<Rightarrow> Machine \<Rightarrow> exec_res" where
  "op_lw big i pcAfter m =
     (let tmp = registers m (rs i) + extra i in
      if tmp AND 0x3 \<noteq> 0 then RaiseException AddressErrorException tmp m
      else mem_then (ReadMem big tmp 4 m) (\<lambda>v m'. Inr (Done (word_of_nat (rt i), v, pcAfter), m')))"

text \<open>The value that \<open>LWL\<close> and \<open>LWR\<close> merge into: a load still in its delay slot counts.\<close>

definition pending_value :: "Instruction \<Rightarrow> Machine \<Rightarrow> 32 word" where
  "pending_value i m = (if registers m LoadReg = word_of_nat (rt i) then registers m LoadValueReg
                        else registers m (rt i))"

definition op_lwl :: "bool \<Rightarrow> Instruction \<Rightarrow> 32 word \<Rightarrow> Machine \<Rightarrow> exec_res" where
  "op_lwl big i pcAfter m =
     (let tmp = registers m (rs i) + extra i in
      ASSERT (tmp AND 0x3 = 0) (mem_then (ReadMem big tmp 4 m) (\<lambda>v m'.
        let old = pending_value i m' in
        Inr (Done (word_of_nat (rt i),
          (if tmp AND 0x3 = 0 then v
           else if tmp AND 0x3 = 1 then (old AND 0xff) OR push_bit 8 v
           else if tmp AND 0x3 = 2 then (old AND 0xffff) OR push_bit 16 v
           else (old AND 0xffffff) OR push_bit 24 v), pcAfter), m'))))"

definition op_lwr :: "bool \<Rightarrow> Instruction \<Rightarrow> 32 word \<Rightarrow> Machine \<Rightarrow> exec_res" where
  "op_lwr big i pcAfter m =
     (let tmp = registers m (rs i) + extra i in
      ASSERT (tmp AND 0x3 = 0) (mem_then (ReadMem big tmp 4 m) (\<lambda>v m'.
        let old = pending_value i m' in
        Inr (Done (word_of_nat (rt i),
          (if tmp AND 0x3 = 0 then (old AND 0xffffff00) OR (signed_drop_bit 24 v AND 0xff)
           else if tmp AND 0x3 = 1 then (old AND 0xffff0000) OR (signed_drop_bit 16 v AND 0xffff)
           else if tmp AND 0x3 = 2 then (old AND 0xff000000) OR (signed_drop_bit 8 v AND 0xffffff)
           else v), pcAfter), m'))))"

definition op_store :: "bool \<Rightarrow> int \<Rightarrow> Instruction \<Rightarrow> 32 word \<Rightarrow> Machine \<Rightarrow> exec_res" where
  "op_store big sz i pcAfter m =
     mem_then (WriteMem big (registers m (rs i) + extra i) sz (registers m (rt i)) m) (\<lambda>_. go_on pcAfter)"

definition op_swl :: "bool \<Rightarrow> Instruction \<Rightarrow> 32 word \<Rightarrow> Machine \<Rightarrow> exec_res" where
  "op_swl big i pcAfter m =
     (let tmp = registers m (rs i) + extra i in
      ASSERT (tmp AND 0x3 = 0) (mem_then (ReadMem big (tmp AND NOT 0x3) 4 m) (\<lambda>v m'.
        let r = registers m' (rt i);
            v' = (if tmp AND 0x3 = 0 then r
                  else if tmp AND 0x3 = 1 then (v AND 0xff000000) OR (signed_drop_bit 8 r AND 0xffffff)
                  else if tmp AND 0x3 = 2 then (v AND 0xffff0000) OR (signed_drop_bit 16 r AND 0xffff)
                  else (v AND 0xffffff00) OR (signed_drop_bit 24 r AND 0xff))
        in mem_then (WriteMem big (tmp AND NOT 0x3) 4 v' m') (\<lambda>_. go_on pcAfter))))"

definition op_swr :: "bool \<Rightarrow> Instruction \<Rightarrow> 32 word \<Rightarrow> Machine \<Rightarrow> exec_res" where
  "op_swr big i pcAfter m =
     (let tmp = registers m (rs i) + extra i in
      ASSERT (tmp AND 0x3 = 0) (mem_then (ReadMem big (tmp AND NOT 0x3) 4 m) (\<lambda>v m'.
        let r = registers m' (rt i);
            v' = (if tmp AND 0x3 = 0 then (v AND 0xffffff) OR push_bit 24 r
                  else if tmp AND 0x3 = 1 then (v AND 0xffff) OR push_bit 16 r
                  else if tmp AND 0x3 = 2 then (v AND 0xff) OR push_bit 8 r
                  else r)
        in mem_then (WriteMem big (tmp AND NOT 0x3) 4 v' m') (\<lambda>_. go_on pcAfter))))"

definition branch_if :: "bool \<Rightarrow> Instruction \<Rightarrow> 32 word \<Rightarrow> Machine \<Rightarrow> exec_res" where
  "branch_if c i pcAfter m =
     go_on (if c then registers m NextPCReg + IndexToAddr (extra i) else pcAfter) m"

definition link :: "nat \<Rightarrow> Machine \<Rightarrow> Machine" where
  "link r m = set_reg r (registers m NextPCReg + 4) m"

definition op_mult :: "bool \<Rightarrow> Instruction \<Rightarrow> 32 word \<Rightarrow> Machine \<Rightarrow> exec_res" where
  "op_mult signedArith i pcAfter m =
     (let (hi, lo) = Mult (registers m (rs i)) (registers m (rt i)) signedArith in
      go_on pcAfter (set_reg LoReg lo (set_reg HiReg hi m)))"

text \<open>The switch, in three parts that follow one another in the source. A jump is written
  \<open>pcAfter\<close> of the instruction in the delay slot.\<close>

definition exec_c :: "bool \<Rightarrow> Instruction \<Rightarrow> 32 word \<Rightarrow> Machine \<Rightarrow> exec_res" where
  "exec_c big i pcAfter m = (let r = registers m in case opCode i of
      OP_SRA \<Rightarrow> go_on pcAfter (set_reg (rd i) (signed_drop_bit (unat (extra i)) (r (rt i))) m)
    | OP_SRAV \<Rightarrow> go_on pcAfter (set_reg (rd i) (signed_drop_bit (unat (r (rs i) AND 0x1f)) (r (rt i))) m)
    | OP_SRL \<Rightarrow> go_on pcAfter (set_reg (rd i) (signed_drop_bit (unat (extra i)) (r (rt i))) m)
    | OP_SRLV \<Rightarrow> go_on pcAfter (set_reg (rd i) (signed_drop_bit (unat (r (rs i) AND 0x1f)) (r (rt i))) m)
    | OP_SUB \<Rightarrow> op_sub i pcAfter m
    | OP_SUBU \<Rightarrow> go_on pcAfter (set_reg (rd i) (r (rs i) - r (rt i)) m)
    | OP_SW \<Rightarrow> op_store big 4 i pcAfter m
    | OP_SWL \<Rightarrow> op_swl big i pcAfter m
    | OP_SWR \<Rightarrow> op_swr big i pcAfter m
    | OP_SYSCALL \<Rightarrow> RaiseException SyscallException 0 m
    | OP_XOR \<Rightarrow> go_on pcAfter (set_reg (rd i) (r (rs i) XOR r (rt i)) m)
    | OP_XORI \<Rightarrow> go_on pcAfter (set_reg (rt i) (r (rs i) XOR (extra i AND 0xffff)) m)
    | OP_RES \<Rightarrow> RaiseException IllegalInstrException 0 m
    | OP_UNIMP \<Rightarrow> RaiseException IllegalInstrException 0 m
    | _ \<Rightarrow> Inl AssertFail)"

definition exec_b :: "bool \<Rightarrow> Instruction \<Rightarrow> 32 word \<Rightarrow> Machine \<Rightarrow> exec_res" where
  "exec_b big i pcAfter m = (let r = registers m in case opCode i of
      OP_LWR \<Rightarrow> op_lwr big i pcAfter m
    | OP_MFHI \<Rightarrow> go_on pcAfter (set_reg (rd i) (r HiReg) m)
    | OP_MFLO \<Rightarrow> go_on pcAfter (set_reg (rd i) (r LoReg) m)
    | OP_MTHI \<Rightarrow> go_on pcAfter (set_reg HiReg (r (rs i)) m)
    | OP_MTLO \<Rightarrow> go_on pcAfter (set_reg LoReg (r (rs i)) m)
    | OP_MULT \<Rightarrow> op_mult True i pcAfter m
    | OP_MULTU \<Rightarrow> op_mult False i pcAfter m
    | OP_NOR \<Rightarrow> go_on pcAfter (set_reg (rd i) (NOT (r (rs i) OR r (rt i))) m)
    | OP_OR \<Rightarrow> go_on pcAfter (set_reg (rd i) (r (rs i) OR r (rs i)) m)
    | OP_ORI \<Rightarrow> go_on pcAfter (set_reg (rt i) (r (rs i) OR (extra i AND 0xffff)) m)
    | OP_SB \<Rightarrow> op_store big 1 i pcAfter m
    | OP_SH \<Rightarrow> op_store big 2 i pcAfter m
    | OP_SLL \<Rightarrow> go_on pcAfter (set_reg (rd i) (push_bit (unat (extra i)) (r (rt i))) m)
    | OP_SLLV \<Rightarrow> go_on pcAfter (set_reg (rd i) (push_bit (unat (r (rs i) AND 0x1f)) (r (rt i))) m)
    | OP_SLT \<Rightarrow> go_on pcAfter (set_reg (rd i) (if sint (r (rs i)) < sint (r (rt i)) then 1 else 0) m)
    | OP_SLTI \<Rightarrow> go_on pcAfter (set_reg (rt i) (if sint (r (rs i)) < sint (extra i) then 1 else 0) m)
    | OP_SLTIU \<Rightarrow> go_on pcAfter (set_reg (rt i) (if r (rs i) < extra i then 1 else 0) m)
    | OP_SLTU \<Rightarrow> go_on pcAfter (set_reg (rd i) (if r (rs i) < r (rt i) then 1 else 0) m)
    | _ \<Rightarrow> exec_c big i pcAfter m)"

definition exec_a :: "bool \<Rightarrow> Instruction \<Rightarrow> 32 word \<Rightarrow> Machine \<Rightarrow> exec_res" where
  "exec_a big i pcAfter m = (let r = registers m in case opCode i of
      OP_ADD \<Rightarrow> op_add i pcAfter m
    | OP_ADDI \<Rightarrow> op_addi i pcAfter m
    | OP_ADDIU \<Rightarrow> go_on pcAfter (set_reg (rt i) (r (rs i) + extra i) m)
    | OP_ADDU \<Rightarrow> go_on pcAfter (set_reg (rd i) (r (rs i) + r (rt i)) m)
    | OP_AND \<Rightarrow> go_on pcAfter (set_reg (rd i) (r (rs i) AND r (rt i)) m)
    | OP_ANDI \<Rightarrow> go_on pcAfter (set_reg (rt i) (r (rs i) AND (extra i AND 0xffff)) m)
    | OP_BEQ \<Rightarrow> branch_if (r (rs i) = r (rt i)) i pcAfter m
    | OP_BGEZAL \<Rightarrow> let m' = link RetAddrReg m in branch_if (registers m' (rs i) AND SIGN_BIT = 0) i pcAfter m'
    | OP_BGEZ \<Rightarrow> branch_if (r (rs i) AND SIGN_BIT = 0) i pcAfter m
    | OP_BGTZ \<Rightarrow> branch_if (sint (r (rs i)) > 0) i pcAfter m
    | OP_BLEZ \<Rightarrow> branch_if (sint (r (rs i)) \<le> 0) i pcAfter m
    | OP_BLTZAL \<Rightarrow> let m' = link RetAddrReg m in branch_if (registers m' (rs i) AND SIGN_BIT \<noteq> 0) i pcAfter m'
    | OP_BLTZ \<Rightarrow> branch_if (r (rs i) AND SIGN_BIT \<noteq> 0) i pcAfter m
    | OP_BNE \<Rightarrow> branch_if (r (rs i) \<noteq> r (rt i)) i pcAfter m
    | OP_DIV \<Rightarrow> op_div i pcAfter m
    | OP_DIVU \<Rightarrow> op_divu i pcAfter m
    | OP_JAL \<Rightarrow> go_on ((pcAfter AND 0xf0000000) OR IndexToAddr (extra i)) (link RetAddrReg m)
    | OP_J \<Rightarrow> go_on ((pcAfter AND 0xf0000000) OR IndexToAddr (extra i)) m
    | OP_JALR \<Rightarrow> let m' = link (rd i) m in go_on (registers m' (rs i)) m'
    | OP_JR \<Rightarrow> go_on (r (rs i)) m
    | OP_LB \<Rightarrow> op_lb big i pcAfter m
    | OP_LBU \<Rightarrow> op_lb big i pcAfter m
    | OP_LH \<Rightarrow> op_lh big i pcAfter m
    | OP_LHU \<Rightarrow> op_lh big i pcAfter m
    | OP_LUI \<Rightarrow> go_on pcAfter (set_reg (rt i) (push_bit 16 (extra i)) m)
    | OP_LW \<Rightarrow> op_lw big i pcAfter m
    | OP_LWL \<Rightarrow> op_lwl big i pcAfter m
    | _ \<Rightarrow> exec_b big i pcAfter m)"

text \<open>The end of \<open>OneInstruction\<close>: the delayed load, then the program counters.\<close>

definition finish_instr :: "32 word \<Rightarrow> 32 word \<Rightarrow> 32 word \<Rightarrow> Machine \<Rightarrow> (unit trapped \<times> Machine) res" where
  "finish_instr nextLoadReg nextLoadValue pcAfter m =
     res_bind (DelayedLoad nextLoadReg nextLoadValue m) (\<lambda>m'.
       let m1 = set_reg PrevPCReg (registers m' PCReg) m';
           m2 = set_reg PCReg (registers m1 NextPCReg) m1;
           m3 = set_reg NextPCReg pcAfter m2
       in Inr (Done (), m3))"

definition OneInstruction :: "bool \<Rightarrow> Machine \<Rightarrow> (unit trapped \<times> Machine) res" where
  "OneInstruction big m =
     mem_then (ReadMem big (registers m PCReg) 4 m) (\<lambda>raw m1.
       let pcAfter = registers m1 NextPCReg + 4 in
       mem_then (exec_a big (Decode raw) pcAfter m1) (\<lambda>(nextLoadReg, nextLoadValue, pcAfter') m2.
         finish_instr nextLoadReg nextLoadValue pcAfter' m2))"

end
