(* ===== verification/MipsCorrect.thy ===== *)
theory MipsCorrect
  imports MipsSim
begin

unbundle bit_operations_syntax

text \<open>
  Correctness of the instruction simulator: the decoder stays in its tables and never produces an
  operation without a case, an instruction of a user program cannot write outside the
  program's frames, the overflow tests and the bit-serial multiplication are exact, and
  the program counters and delayed loads move as the architecture says. Two theorems record where
  the code departs from the instruction set.
\<close>

section \<open>Decoding\<close>

lemma and_low_lt:
  fixes w :: "32 word"
  shows "unat (w AND 0x3f) < 64" "unat (w AND 0x1f) < 32"
proof -
  have m: "(0x3f :: 32 word) = mask 6" "(0x1f :: 32 word) = mask 5" by (simp_all add: mask_eq_exp_minus_1)
  have "unat (w AND mask n) < 2 ^ n" for n
    by (simp only: take_bit_eq_mask [symmetric] unsigned_take_bit_eq) simp
  from this [of 6] this [of 5] show "unat (w AND 0x3f) < 64" "unat (w AND 0x1f) < 32"
    unfolding m by simp_all
qed

lemma table_lengths: "length opTable = 64" "length specialTable = 64"
  by (simp_all add: opTable_def specialTable_def)

lemma opTable_ops: "fst (opTable ! unat ((w :: 32 word) AND 0x3f)) \<noteq> OP_RFE"
proof -
  have "list_all (\<lambda>e. fst e \<noteq> OP_RFE) opTable" by (simp add: opTable_def)
  with and_low_lt(1) [of w] show ?thesis by (simp add: list_all_length table_lengths)
qed

lemma specialTable_ops: "specialTable ! unat ((w :: 32 word) AND 0x3f) \<notin> {OP_RFE, SPECIAL, BCOND}"
proof -
  have "list_all (\<lambda>e. e \<noteq> OP_RFE \<and> e \<noteq> SPECIAL \<and> e \<noteq> BCOND) specialTable" by (simp add: specialTable_def)
  with and_low_lt(1) [of w] show ?thesis by (simp add: list_all_length table_lengths)
qed

lemma Decode_regs: "rs (Decode v) < 32" "rt (Decode v) < 32" "rd (Decode v) < 32"
  by (simp_all add: Decode_def Let_def and_low_lt split: prod.split)

lemma Decode_op: "opCode (Decode v) \<notin> {OP_RFE, SPECIAL, BCOND}"
  using opTable_ops [of "drop_bit 26 v"] specialTable_ops [of v]
  by (cases "opTable ! unat (drop_bit 26 v AND 0x3f)") (auto simp: Decode_def Let_def)

section \<open>Overflow tests\<close>

lemma sign_bit_test: "x AND SIGN_BIT \<noteq> 0 \<longleftrightarrow> bit x 31"
proof -
  have "SIGN_BIT = 2 ^ 31" by (simp add: SIGN_BIT_def)
  then show ?thesis using and_exp_eq_0_iff_not_bit [of x 31] by simp
qed

lemma bit_31: "bit (x :: 32 word) 31 \<longleftrightarrow> sint x < 0"
  using bit_last_iff [of x] by simp

lemma sint_range: "- (2 ^ 31) \<le> sint (x :: 32 word)" "sint (x :: 32 word) < 2 ^ 31"
  using sint_ge [of x] sint_lt [of x] by simp_all

text \<open>Wrap-around of a value that is off by at most one turn.\<close>

definition wrap32 :: "int \<Rightarrow> int" where
  "wrap32 s = (if s < - (2 ^ 31) then s + 2 ^ 32 else if s < 2 ^ 31 then s else s - 2 ^ 32)"

lemma signed_take_bit_wrap:
  assumes "- (2 ^ 32) \<le> s" "s < 2 ^ 32"
  shows "signed_take_bit 31 s = wrap32 s"
proof -
  have "signed_take_bit 31 s = (s + 2 ^ 31) mod 2 ^ 32 - 2 ^ 31"
    by (simp add: signed_take_bit_eq_take_bit_shift take_bit_eq_mod)
  also have "(s + 2 ^ 31) mod 2 ^ 32 = wrap32 s + 2 ^ 31"
  proof -
    consider "s < - (2 ^ 31)" | "- (2 ^ 31) \<le> s" "s < 2 ^ 31" | "2 ^ 31 \<le> s" by linarith
    then show ?thesis
    proof cases
      case 1
      have "(s + 2 ^ 31) mod 2 ^ 32 = (s + 2 ^ 31 + 2 ^ 32) mod 2 ^ 32" by (simp only: mod_add_self2)
      also have "\<dots> = s + 2 ^ 31 + 2 ^ 32" using 1 assms by (intro mod_pos_pos_trivial) simp_all
      finally show ?thesis using 1 by (simp add: wrap32_def)
    next
      case 2
      then show ?thesis by (simp add: wrap32_def)
    next
      case 3
      have "(s + 2 ^ 31) mod 2 ^ 32 = (s + 2 ^ 31 - 2 ^ 32) mod 2 ^ 32" by (metis minus_mod_self2)
      also have "\<dots> = s + 2 ^ 31 - 2 ^ 32" using 3 assms by (intro mod_pos_pos_trivial) simp_all
      finally show ?thesis using 3 by (simp add: wrap32_def)
    qed
  qed
  finally show ?thesis by simp
qed

definition fits :: "int \<Rightarrow> bool" where
  "fits v = (- (2 ^ 31) \<le> v \<and> v < 2 ^ 31)"

lemma sint_add: "sint (a + b :: 32 word) = wrap32 (sint a + sint b)"
  using sint_range [of a] sint_range [of b] signed_take_bit_wrap [of "sint a + sint b"]
  by (simp add: sint_word_ariths)

lemma sint_sub: "sint (a - b :: 32 word) = wrap32 (sint a - sint b)"
  using sint_range [of a] sint_range [of b] signed_take_bit_wrap [of "sint a - sint b"]
  by (simp add: sint_word_ariths)

lemma sign_xor: "(x XOR y) AND SIGN_BIT = 0 \<longleftrightarrow> (sint x < 0) = (sint y < 0)"
  using sign_bit_test [of "x XOR y"] bit_31 [of x] bit_31 [of y] by (auto simp: bit_xor_iff)

lemma add_overflow_test:
  "((a XOR b) AND SIGN_BIT = 0 \<and> (a XOR (a + b)) AND SIGN_BIT \<noteq> 0) \<longleftrightarrow> \<not> fits (sint a + sint b)"
  unfolding sign_xor sint_add fits_def wrap32_def
  using sint_range [of a] sint_range [of b] by auto

lemma sub_overflow_test:
  "((a XOR b) AND SIGN_BIT \<noteq> 0 \<and> (a XOR (a - b)) AND SIGN_BIT \<noteq> 0) \<longleftrightarrow> \<not> fits (sint a - sint b)"
  unfolding sign_xor sint_sub fits_def wrap32_def
  using sint_range [of a] sint_range [of b] by auto

section \<open>Multiplication\<close>

text \<open>A pair of words as the 64-bit number they stand for.\<close>

definition dbl :: "32 word \<Rightarrow> 32 word \<Rightarrow> int" where
  "dbl hi lo = uint hi * 2 ^ 32 + uint lo"

lemma uint_mod_add: "\<exists>k. uint (x + y :: 32 word) = uint x + uint y - k * 2 ^ 32"
  by (rule exI [of _ "if uint x + uint y < 2 ^ 32 then 0 else 1"]) (simp add: uint_plus_if')

lemma carry: "uint (x + y :: 32 word) = uint x + uint y - (if x + y < y then 2 ^ 32 else 0)"
proof -
  have "uint x < 2 ^ 32" "uint y < 2 ^ 32" using uint_lt2p [of x] uint_lt2p [of y] by simp_all
  then show ?thesis by (auto simp: word_less_def uint_plus_if')
qed

lemma dbl_add:
  "\<exists>k. dbl ((if lo + bLo < bLo then hi + 1 else hi) + bHi) (lo + bLo) = dbl hi lo + dbl bHi bLo - k * 2 ^ 64"
proof -
  define c :: "32 word" where "c = (if lo + bLo < bLo then 1 else 0)"
  have c: "uint lo + uint bLo - uint (lo + bLo) = uint c * 2 ^ 32"
    using carry [of lo bLo] by (simp add: c_def)
  obtain k1 where k1: "uint (hi + c) = uint hi + uint c - k1 * 2 ^ 32" using uint_mod_add by blast
  obtain k2 where k2: "uint (hi + c + bHi) = uint (hi + c) + uint bHi - k2 * 2 ^ 32" using uint_mod_add by blast
  have "dbl (hi + c + bHi) (lo + bLo) = dbl hi lo + dbl bHi bLo - (k1 + k2) * 2 ^ 64"
    unfolding dbl_def k2 k1 using c by (simp add: algebra_simps)
  moreover have "(if lo + bLo < bLo then hi + 1 else hi) = hi + c" by (simp add: c_def)
  ultimately show ?thesis by (intro exI [of _ "k1 + k2"]) (simp only:)
qed

lemma uint_by_sint: "uint (x :: 32 word) = (if sint x < 0 then sint x + 2 ^ 32 else sint x)"
proof (cases "sint x < 0")
  case True
  have "uint x = sint x mod 2 ^ 32" by (simp add: uint_sint take_bit_eq_mod)
  also have "\<dots> = (sint x + 2 ^ 32) mod 2 ^ 32" by simp
  also have "\<dots> = sint x + 2 ^ 32" using True sint_range [of x] by (intro mod_pos_pos_trivial) simp_all
  finally show ?thesis using True by simp
next
  case False
  have "uint x = sint x mod 2 ^ 32" by (simp add: uint_sint take_bit_eq_mod)
  with False sint_range [of x] show ?thesis by simp
qed

lemma top_bit_carry: "w AND 0x80000000 \<noteq> 0 \<longleftrightarrow> w + w < (w :: 32 word)"
proof -
  have "w AND 0x80000000 \<noteq> 0 \<longleftrightarrow> sint w < 0"
    using sign_bit_test [of w] bit_31 [of w] by (simp add: SIGN_BIT_def)
  also have "\<dots> \<longleftrightarrow> uint w + uint w \<ge> 2 ^ 32"
    using sint_range [of w] by (auto simp: uint_by_sint)
  also have "\<dots> \<longleftrightarrow> w + w < w"
    unfolding word_less_def uint_plus_if' [of w w] using uint_lt2p [of w] by auto
  finally show ?thesis .
qed

lemma dbl_double:
  "\<exists>k. dbl (if bLo AND 0x80000000 \<noteq> 0 then push_bit 1 bHi OR 1 else push_bit 1 bHi) (push_bit 1 bLo)
       = 2 * dbl bHi bLo - k * 2 ^ 64"
proof -
  have or1: "push_bit 1 bHi OR 1 = push_bit 1 bHi + 1"
    by (rule disjunctive_add [symmetric]) (auto simp only: bit_push_bit_iff bit_1_iff)
  have two: "push_bit 1 w = w + w" for w :: "32 word" by (simp add: push_bit_eq_mult)
  have "(if bLo AND 0x80000000 \<noteq> 0 then push_bit 1 bHi OR 1 else push_bit 1 bHi)
      = (if bLo + bLo < bLo then bHi + 1 else bHi) + bHi"
    unfolding or1 unfolding two top_bit_carry by simp
  moreover have "2 * dbl bHi bLo = dbl bHi bLo + dbl bHi bLo" by simp
  ultimately show ?thesis using dbl_add [of bLo bLo bHi bHi] by (simp only: two)
qed

lemma take_bit_sdrop:
  assumes "n < 32"
  shows "take_bit n (uint (signed_drop_bit 1 a)) = take_bit n (uint (a :: 32 word) div 2)"
proof (rule bit_eqI)
  fix m
  have d: "uint a div 2 = drop_bit 1 (uint a)" by (simp add: drop_bit_eq_div)
  show "bit (take_bit n (uint (signed_drop_bit 1 a))) m = bit (take_bit n (uint a div 2)) m"
    unfolding d using assms by (auto simp: bit_simps)
qed

lemma low_bit: "a AND 1 \<noteq> 0 \<longleftrightarrow> odd (uint (a :: 32 word))"
proof -
  have "odd (uint a) \<longleftrightarrow> odd a" unfolding bit_0 [symmetric] by (simp only: bit_uint_iff) simp
  then show ?thesis by (simp add: and_one_eq mod_2_eq_odd)
qed

lemma only_low_bit:
  assumes "a AND 1 \<noteq> 0" "a AND 0xfffffffe = 0"
  shows "(a :: 32 word) = 1"
proof -
  have "(0xfffffffe :: 32 word) = NOT 1" by simp
  with assms(2) have high: "a AND NOT 1 = 0" by (simp only:)
  have low: "a AND 1 = 1" using assms(1) by (simp add: and_one_eq mod_2_eq_odd split: if_splits)
  have "a = (a AND NOT 1) OR (a AND 1)" by (rule bit_word_eqI) (auto simp only: bit_or_iff bit_and_iff bit_not_iff possible_bit_word)
  then show ?thesis unfolding high low by simp
qed

lemma mult_loop_dbl:
  "n \<le> 32 \<Longrightarrow> mult_loop n a bLo bHi lo hi = (hi', lo') \<Longrightarrow>
   \<exists>k. dbl hi' lo' = dbl hi lo + dbl bHi bLo * take_bit n (uint a) - k * 2 ^ 64"
proof (induction n arbitrary: a bLo bHi lo hi)
  case 0
  then show ?case by (intro exI [of _ 0]) simp
next
  case (Suc n)
  let ?odd = "a AND 1 \<noteq> 0"
  define lo1 where "lo1 = (if ?odd then lo + bLo else lo)"
  define hi1 where "hi1 = (if ?odd then (if lo1 < bLo then hi + 1 else hi) + bHi else hi)"
  define bHi1 where "bHi1 = (if bLo AND 0x80000000 \<noteq> 0 then push_bit 1 bHi OR 1 else push_bit 1 bHi)"
  obtain k1 where k1: "dbl hi1 lo1 = dbl hi lo + dbl bHi bLo * (uint a mod 2) - k1 * 2 ^ 64"
  proof (cases ?odd)
    case True
    then have "uint a mod 2 = 1" using low_bit [of a] by (simp add: odd_iff_mod_2_eq_one)
    moreover obtain k where "dbl hi1 lo1 = dbl hi lo + dbl bHi bLo - k * 2 ^ 64"
      using dbl_add [of lo bLo hi bHi] unfolding hi1_def lo1_def if_P [OF True] by blast
    ultimately show ?thesis using that [of k] by simp
  next
    case False
    with low_bit [of a] that [of 0] show ?thesis by (simp add: hi1_def lo1_def even_iff_mod_2_eq_zero)
  qed
  have bits: "take_bit (Suc n) (uint a) = take_bit n (uint a div 2) * 2 + uint a mod 2" by (rule take_bit_Suc)
  show ?case
  proof (cases "?odd \<and> a AND 0xfffffffe = 0")
    case True
    then have "uint a = 1" using only_low_bit [of a] by simp
    then have one: "take_bit (Suc n) (uint a) = uint a mod 2" by simp
    have "mult_loop (Suc n) a bLo bHi lo hi = (hi1, lo1)"
      unfolding mult_loop.simps Let_def hi1_def lo1_def if_P [OF True] ..
    with Suc.prems(2) have "hi' = hi1" "lo' = lo1" by simp_all
    with k1 show ?thesis unfolding one by blast
  next
    case False
    have "mult_loop n (signed_drop_bit 1 a) (push_bit 1 bLo) bHi1 lo1 hi1 = (hi', lo')"
      using Suc.prems(2) unfolding mult_loop.simps Let_def hi1_def lo1_def bHi1_def if_not_P [OF False] .
    from Suc.prems(1) have n: "n < 32" "n \<le> 32" by simp_all
    from Suc.IH [OF n(2) \<open>mult_loop n _ _ _ _ _ = _\<close>] obtain k2 where
      k2: "dbl hi' lo' = dbl hi1 lo1 + dbl bHi1 (push_bit 1 bLo) * take_bit n (uint a div 2) - k2 * 2 ^ 64"
      unfolding take_bit_sdrop [OF n(1)] by blast
    obtain k3 where k3: "dbl bHi1 (push_bit 1 bLo) = 2 * dbl bHi bLo - k3 * 2 ^ 64"
      using dbl_double unfolding bHi1_def by blast
    let ?T = "take_bit n (uint a div 2)"
    have "dbl hi' lo' = dbl hi lo + dbl bHi bLo * take_bit (Suc n) (uint a) - (k1 + k2 + k3 * ?T) * 2 ^ 64"
      unfolding k2 k1 k3 bits by (simp add: algebra_simps)
    then show ?thesis by blast
  qed
qed

lemma uint_NOT: "uint (NOT (x :: 32 word)) = 2 ^ 32 - 1 - uint x"
proof -
  have "NOT x = - 1 - x" by (simp add: not_eq_complement)
  moreover have "uint (- 1 :: 32 word) = 2 ^ 32 - 1" by (simp add: unsigned_minus_1_eq_mask mask_eq_exp_minus_1)
  ultimately show ?thesis using uint_lt2p [of x] by (simp add: uint_sub_if')
qed

lemma uint_neg: "(x :: 32 word) \<noteq> 0 \<Longrightarrow> uint (- x) = 2 ^ 32 - uint x"
  using uint_sub_if' [of 0 x] uint_ge_0 [of x] uint_0_iff [of x] by (auto simp: order_le_less)

lemma uint_abs: "sint (x :: 32 word) < 0 \<Longrightarrow> uint (- x) = - sint x"
  using uint_neg [of x] uint_by_sint [of x] by (cases "x = 0") auto

lemma dbl_negate:
  "\<exists>k. dbl (if NOT lo + 1 = 0 then NOT hi + 1 else NOT hi) (NOT lo + 1) = - dbl hi lo + k * 2 ^ 64"
proof (cases "lo = 0")
  case True
  then have "NOT lo + 1 = 0" by simp
  obtain k where k: "uint (NOT hi + 1) = uint (NOT hi) + 1 - k * 2 ^ 32"
    using uint_mod_add [of "NOT hi" 1] by auto
  show ?thesis unfolding \<open>NOT lo + 1 = 0\<close> if_P [OF refl] dbl_def k uint_NOT
    using True by (intro exI [of _ "1 - k"]) (simp add: algebra_simps)
next
  case False
  have eq: "NOT lo + 1 = - lo" by (simp add: not_eq_complement)
  with False have "\<not> NOT lo + 1 = 0" by simp
  then show ?thesis unfolding dbl_def if_not_P [OF \<open>\<not> NOT lo + 1 = 0\<close>] uint_NOT eq uint_neg [OF False]
    using False by (intro exI [of _ 1]) (simp add: algebra_simps uint_NOT)
qed

lemma dbl_range: "0 \<le> dbl hi lo" "dbl hi lo < 2 ^ 64"
proof -
  have "uint hi \<le> 2 ^ 32 - 1" "uint lo < 2 ^ 32" "0 \<le> uint hi" "0 \<le> uint lo"
    using uint_lt2p [of hi] uint_lt2p [of lo] by simp_all
  then show "0 \<le> dbl hi lo" "dbl hi lo < 2 ^ 64" unfolding dbl_def by simp_all
qed

lemma dbl_eq_mod: "dbl hi lo = v + k * 2 ^ 64 \<Longrightarrow> dbl hi lo = v mod 2 ^ 64"
proof -
  assume "dbl hi lo = v + k * 2 ^ 64"
  then have "dbl hi lo mod 2 ^ 64 = v mod 2 ^ 64" by simp
  with dbl_range [of hi lo] show ?thesis by simp
qed

lemma mult_loop_32:
  assumes "mult_loop 32 a b 0 0 0 = (hi, lo)"
  shows "\<exists>k. dbl hi lo = uint a * uint b + k * 2 ^ 64"
proof -
  from mult_loop_dbl [OF order_refl assms] obtain k where
    k: "dbl hi lo = dbl 0 0 + dbl 0 b * take_bit 32 (uint a) - k * 2 ^ 64" by blast
  have "take_bit 32 (uint a) = uint a" using uint_lt2p [of a] by (simp add: take_bit_int_eq_self)
  with k show ?thesis by (intro exI [of _ "- k"]) (simp add: dbl_def)
qed

text \<open>C25. \<open>Mult\<close> leaves in \<open>Hi\<close> and \<open>Lo\<close> the 64-bit product of its operands, signed or unsigned, for all operands:
  the early exit of the loop, the arithmetic shift of a negative multiplier and the two's
  complement at the end are all exact.\<close>

theorem mult_is_64_bit_product:
  "case Mult a b signedArith of (hi, lo) \<Rightarrow>
     uint hi * 2 ^ 32 + uint lo = (if signedArith then sint a * sint b else uint a * uint b) mod 2 ^ 64"
proof (cases "a = 0 \<or> b = 0")
  case True
  then show ?thesis by (auto simp: Mult_def)
next
  case False
  let ?na = "signedArith \<and> sint a < 0" and ?nb = "signedArith \<and> sint b < 0"
  let ?p = "if signedArith then sint a * sint b else uint a * uint b"
  obtain hi lo where l: "mult_loop 32 (if ?na then - a else a) (if ?nb then - b else b) 0 0 0 = (hi, lo)"
    by fastforce
  from mult_loop_32 [OF l] obtain k where
    k: "dbl hi lo = uint (if ?na then - a else a) * uint (if ?nb then - b else b) + k * 2 ^ 64" by blast
  have abs: "uint (if ?na then - a else a) * uint (if ?nb then - b else b) = (if ?na \<noteq> ?nb then - ?p else ?p)"
    using uint_by_sint [of a] uint_by_sint [of b] by (auto simp: uint_abs)
  show ?thesis
  proof (cases "?na \<noteq> ?nb")
    case True
    obtain k' where "dbl (if NOT lo + 1 = 0 then NOT hi + 1 else NOT hi) (NOT lo + 1) = - dbl hi lo + k' * 2 ^ 64"
      using dbl_negate by blast
    moreover have "- dbl hi lo + k' * 2 ^ 64 = ?p + (k' - k) * 2 ^ 64"
      unfolding k abs if_P [OF True] by (simp add: algebra_simps)
    ultimately have "dbl (if NOT lo + 1 = 0 then NOT hi + 1 else NOT hi) (NOT lo + 1) = ?p mod 2 ^ 64"
      by (intro dbl_eq_mod [where k = "k' - k"]) (simp only:)
    moreover have "Mult a b signedArith = (if NOT lo + 1 = 0 then NOT hi + 1 else NOT hi, NOT lo + 1)"
      unfolding Mult_def Let_def l if_not_P [OF False] prod.case if_P [OF True] ..
    ultimately show ?thesis by (simp only: prod.case dbl_def)
  next
    case nn: False
    from k have "dbl hi lo = ?p mod 2 ^ 64" unfolding abs if_not_P [OF nn] by (rule dbl_eq_mod)
    moreover have "Mult a b signedArith = (hi, lo)"
      unfolding Mult_def Let_def l if_not_P [OF False] prod.case if_not_P [OF nn] ..
    ultimately show ?thesis by (simp only: prod.case dbl_def)
  qed
qed

section \<open>Every instruction stays inside the program's memory\<close>

text \<open>What an instruction may do before its delayed load: keep the translation, write only bytes of
  the program's frames, leave the program counters and the pending load alone.\<close>

definition exec_ok :: "Machine \<Rightarrow> exec_res \<Rightarrow> bool" where
  "exec_ok m r = (case r of
      Inl f \<Rightarrow> False
    | Inr (t, m') \<Rightarrow> mmu_view m' = mmu_view m \<and>
        (\<forall>q. q div 512 \<notin> frames m \<longrightarrow> mainMemory m' q = mainMemory m q) \<and>
        (case t of
           Trap ex \<Rightarrow> cpu_ok m' \<and> (\<forall>n \<in> {34..<37}. registers m' n = registers m n)
         | Done (lr, lv, pc) \<Rightarrow> lr < 32 \<and> (\<forall>n \<in> {34..<40}. registers m' n = registers m n)))"

lemma exec_ok_go_on [simp]: "exec_ok m (go_on pc m)"
  by (simp add: exec_ok_def go_on_def)

lemma exec_ok_go_on_set [simp]: "n < 34 \<Longrightarrow> exec_ok m (go_on pc (set_reg n v m))"
  by (simp add: exec_ok_def go_on_def mmu_view_def)

lemma exec_ok_go_on_set2 [simp]: "n < 34 \<Longrightarrow> n' < 34 \<Longrightarrow> exec_ok m (go_on pc (set_reg n v (set_reg n' v' m)))"
  by (simp add: exec_ok_def go_on_def mmu_view_def)

lemma mmu_view_regs [simp]: "mmu_view (m\<lparr>registers := r\<rparr>) = mmu_view m"
  by (simp add: mmu_view_def)

lemma raise_regs_pc: "cpu_ok m \<Longrightarrow> n \<in> {34..<37} \<Longrightarrow> raise_regs a (registers m) n = registers m n"
  using cpu_ok_load [of m] by (auto simp: raise_regs_def)

lemma exec_ok_raise:
  assumes "cpu_ok m"
  shows "exec_ok m (RaiseException ex a m)"
proof -
  have "mach_ok (m\<lparr>registers := raise_regs a (registers m)\<rparr>)"
    using assms mach_ok_view [of "m\<lparr>registers := raise_regs a (registers m)\<rparr>" m] by (simp add: cpu_ok_def)
  then show ?thesis
    by (simp add: RaiseException_ok [OF cpu_ok_load [OF assms]] exec_ok_def cpu_ok_def raise_regs_ok
        raise_regs_pc [OF assms] del: reg_defs)
qed

lemma exec_ok_load:
  assumes "cpu_ok m" "sz \<in> {1, 2, 4}" "\<And>v m'. fst (f v m') < 32"
  shows "exec_ok m (mem_then (ReadMem big a sz m) (\<lambda>v m'. Inr (Done (f v m'), m')))"
proof -
  from ReadMem_ok [OF assms(1,2), where addr = a and big = big] obtain m' where
    m': "mmu_view m' = mmu_view m" "mainMemory m' = mainMemory m" "cpu_ok m'"
    and r: "case translate_spec a sz False m of
        Inl ex \<Rightarrow> ReadMem big a sz m = Inr (Trap ex, m') \<and> registers m' = raise_regs a (registers m)
      | Inr p \<Rightarrow> ReadMem big a sz m = Inr (Done (load_spec sz (mainMemory m) p), m') \<and> registers m' = registers m"
    by blast
  show ?thesis
  proof (cases "translate_spec a sz False m")
    case (Inl ex)
    with r m' raise_regs_pc [OF assms(1)] show ?thesis by (simp add: mem_then_def exec_ok_def)
  next
    case (Inr p)
    with r m' assms(3) [of "load_spec sz (mainMemory m) p" m'] show ?thesis
      by (cases "f (load_spec sz (mainMemory m) p) m'") (simp add: mem_then_def exec_ok_def)
  qed
qed

lemma exec_ok_store:
  assumes "cpu_ok m0" "mmu_view m0 = mmu_view m" "mainMemory m0 = mainMemory m" "mach_ok m"
    "\<forall>n \<in> {34..<40}. registers m0 n = registers m n" "sz \<in> {1, 2, 4}"
  shows "exec_ok m (mem_then (WriteMem big a sz v m0) (\<lambda>_. go_on pc))"
proof -
  from WriteMem_ok [OF assms(1,6), where addr = a and big = big and v = v] obtain m' where
    m': "mmu_view m' = mmu_view m0" "cpu_ok m'"
    and r: "case translate_spec a sz True m0 of
        Inl ex \<Rightarrow> WriteMem big a sz v m0 = Inr (Trap ex, m') \<and> mainMemory m' = mainMemory m0 \<and>
                 registers m' = raise_regs a (registers m0)
      | Inr p \<Rightarrow> WriteMem big a sz v m0 = Inr (Done (), m') \<and> registers m' = registers m0 \<and>
                mainMemory m' = store_spec sz (mainMemory m0) p v"
    by blast
  show ?thesis
  proof (cases "translate_spec a sz True m0")
    case (Inl ex)
    with r m' assms(2,3,5) raise_regs_pc [OF assms(1)] show ?thesis
      by (simp add: mem_then_def exec_ok_def)
  next
    case (Inr p)
    then have "translate_spec a sz True m = Inr p"
      using translate_spec_view [OF assms(2,4)] by simp
    with r Inr m' assms store_spec_frames [OF this assms(6)] show ?thesis
      by (simp add: mem_then_def exec_ok_def go_on_def)
  qed
qed

lemma exec_ok_modify:
  assumes "cpu_ok m" "sz \<in> {1, 2, 4}"
  shows "exec_ok m (mem_then (ReadMem big a sz m) (\<lambda>v m'. mem_then (WriteMem big a' sz (g v m') m') (\<lambda>_. go_on pc)))"
proof -
  from ReadMem_ok [OF assms(1,2), where addr = a and big = big] obtain m' where
    m': "mmu_view m' = mmu_view m" "mainMemory m' = mainMemory m" "cpu_ok m'"
    and r: "case translate_spec a sz False m of
        Inl ex \<Rightarrow> ReadMem big a sz m = Inr (Trap ex, m') \<and> registers m' = raise_regs a (registers m)
      | Inr p \<Rightarrow> ReadMem big a sz m = Inr (Done (load_spec sz (mainMemory m) p), m') \<and> registers m' = registers m"
    by blast
  have ok: "mach_ok m" using assms(1) by (simp add: cpu_ok_def)
  show ?thesis
  proof (cases "translate_spec a sz False m")
    case (Inl ex)
    with r m' raise_regs_pc [OF assms(1)] show ?thesis by (simp add: mem_then_def exec_ok_def)
  next
    case (Inr p)
    let ?v = "load_spec sz (mainMemory m) p"
    from Inr r have rd: "ReadMem big a sz m = Inr (Done ?v, m')" and regs: "registers m' = registers m" by simp_all
    have "mem_then (ReadMem big a sz m) k = k ?v m'" for k :: "32 word \<Rightarrow> Machine \<Rightarrow> exec_res"
      by (simp add: mem_then_def rd)
    then show ?thesis using exec_ok_store [OF m'(3,1,2) ok _ assms(2)] regs by simp
  qed
qed

text \<open>The instructions on which the simulator itself stops: unaligned \<open>LWL\<close>, \<open>LWR\<close>, \<open>SWL\<close> and \<open>SWR\<close> fail an
  assertion, and the host's division traps on the least integer divided by -1.\<close>

definition crashes :: "Instruction \<Rightarrow> Machine \<Rightarrow> bool" where
  "crashes i m = ((opCode i \<in> {OP_LWL, OP_LWR, OP_SWL, OP_SWR} \<and> (registers m (rs i) + extra i) AND 0x3 \<noteq> 0) \<or>
                  (opCode i = OP_DIV \<and> registers m (rs i) = 0x80000000 \<and> registers m (rt i) = -1))"

lemma word_of_reg: "n < 32 \<Longrightarrow> (word_of_nat n :: 32 word) < 32"
  by (simp add: word_less_nat_alt unat_of_nat take_bit_eq_mod)

named_theorems exec_oks \<open>what each operation of the switch may do\<close>

lemma op_arith_ok [exec_oks]:
  assumes "cpu_ok m" "rd i < 32" "rt i < 32"
  shows "exec_ok m (op_add i pc m)" "exec_ok m (op_addi i pc m)" "exec_ok m (op_sub i pc m)"
  using assms exec_ok_raise [OF assms(1)]
  by (simp_all add: op_add_def op_addi_def op_sub_def Let_def)

lemma op_div_ok [exec_oks]:
  "\<not> (registers m (rs i) = 0x80000000 \<and> registers m (rt i) = -1) \<Longrightarrow> exec_ok m (op_div i pc m)"
  "exec_ok m (op_divu i pc m)" "exec_ok m (op_mult sg i pc m)"
  by (auto simp: op_div_def op_divu_def op_mult_def Let_def split: prod.split)

lemma op_loads_ok [exec_oks]:
  assumes "cpu_ok m" "rt i < 32"
  shows "exec_ok m (op_lb big i pc m)" "exec_ok m (op_lh big i pc m)" "exec_ok m (op_lw big i pc m)"
    "(registers m (rs i) + extra i) AND 0x3 = 0 \<Longrightarrow> exec_ok m (op_lwl big i pc m)"
    "(registers m (rs i) + extra i) AND 0x3 = 0 \<Longrightarrow> exec_ok m (op_lwr big i pc m)"
  unfolding op_lb_def op_lh_def op_lw_def op_lwl_def op_lwr_def Let_def
  using assms exec_ok_raise [OF assms(1)]
  by (simp_all add: word_of_reg exec_ok_load)

lemma op_stores_ok [exec_oks]:
  assumes "cpu_ok m"
  shows "sz \<in> {1, 2, 4} \<Longrightarrow> exec_ok m (op_store big sz i pc m)"
    "(registers m (rs i) + extra i) AND 0x3 = 0 \<Longrightarrow> exec_ok m (op_swl big i pc m)"
    "(registers m (rs i) + extra i) AND 0x3 = 0 \<Longrightarrow> exec_ok m (op_swr big i pc m)"
  unfolding op_store_def op_swl_def op_swr_def Let_def
  using assms exec_ok_store [OF assms refl refl] exec_ok_modify [OF assms]
  by (simp_all add: cpu_ok_def)

lemma op_branch_ok [exec_oks]:
  "exec_ok m (branch_if c i pc m)" "n < 34 \<Longrightarrow> exec_ok m (branch_if c i pc (link n m))"
  "n < 34 \<Longrightarrow> exec_ok m (go_on pc (link n m))"
  by (simp_all add: branch_if_def link_def)

lemma exec_a_ok:
  assumes "cpu_ok m" "rs i < 32" "rt i < 32" "rd i < 32" "opCode i \<notin> {OP_RFE, SPECIAL, BCOND}" "\<not> crashes i m"
  shows "exec_ok m (exec_a big i pc m)"
  using assms
  by (cases "opCode i")
     (simp_all add: exec_a_def exec_b_def exec_c_def Let_def crashes_def exec_oks exec_ok_raise)

lemma finish_instr_ok:
  assumes "cpu_ok m" "mach_ok m2" "lr < 32" "\<forall>n \<in> {34..<40}. registers m2 n = registers m n"
  shows "\<exists>m'. finish_instr lr lv pc m2 = Inr (Done (), m') \<and> cpu_ok m' \<and> mmu_view m' = mmu_view m2 \<and>
     mainMemory m' = mainMemory m2 \<and> registers m' PCReg = registers m NextPCReg \<and>
     registers m' NextPCReg = pc \<and> registers m' PrevPCReg = registers m PCReg \<and>
     registers m' LoadReg = lr \<and> registers m' LoadValueReg = lv \<and>
     (\<forall>n<34. registers m' n = (if n = 0 then 0 else if n = unat (registers m LoadReg)
                then registers m LoadValueReg else registers m2 n))"
proof -
  let ?r = "unat (registers m2 LoadReg)"
  have r: "?r = unat (registers m LoadReg)" "?r < 32" using assms(4) cpu_ok_load [OF assms(1)] by simp_all
  define m' where "m' = set_reg NextPCReg pc (set_reg PCReg (registers m NextPCReg) (set_reg PrevPCReg (registers m PCReg)
     (set_reg 0 0 (set_reg LoadValueReg lv (set_reg LoadReg lr (set_reg ?r (registers m LoadValueReg) m2))))))"
  have "finish_instr lr lv pc m2 = Inr (Done (), m')"
    using r assms(4) by (simp add: finish_instr_def DelayedLoad_def Let_def m'_def)
  moreover have v: "mmu_view m' = mmu_view m2" by (simp add: m'_def mmu_view_def)
  moreover have "cpu_ok m'"
    using mach_ok_view [OF v assms(2)] assms(3) by (simp add: cpu_ok_def m'_def)
  moreover have "mainMemory m' = mainMemory m2" by (simp add: m'_def)
  moreover have "registers m' PCReg = registers m NextPCReg" "registers m' NextPCReg = pc"
    "registers m' PrevPCReg = registers m PCReg" "registers m' LoadReg = lr" "registers m' LoadValueReg = lv"
    by (simp_all add: m'_def)
  moreover have "\<forall>n<34. registers m' n = (if n = 0 then 0 else if n = unat (registers m LoadReg)
                then registers m LoadValueReg else registers m2 n)"
    unfolding r(1) [symmetric] by (auto simp: m'_def)
  ultimately show ?thesis by blast
qed

lemma crash_stops: "crashes i m \<Longrightarrow> \<exists>f. exec_a big i pc m = Inl f"
  by (auto simp: crashes_def exec_a_def exec_b_def exec_c_def op_div_def op_lwl_def op_lwr_def op_swl_def op_swr_def
      Let_def)

text \<open>C26. Executing any instruction in any user state keeps the program inside its address space: the
  translation is unchanged, no byte of physical memory outside the frames mapped for the program
  changes, register 0 stays zero and any delayed load pends on a general register. An instruction
  that completes moves the program counters by one delay slot; one that traps leaves them where they
  were, so that it can be restarted. The simulator itself stops only on the instructions of
  \<open>crashes\<close>; in particular the decoder always finds a case of the switch.\<close>

theorem instruction_is_confined:
  assumes "cpu_ok m"
  shows "case OneInstruction big m of
      Inl f \<Rightarrow> (\<exists>raw m1. ReadMem big (registers m PCReg) 4 m = Inr (Done raw, m1) \<and> crashes (Decode raw) m)
    | Inr (t, m') \<Rightarrow> cpu_ok m' \<and> mmu_view m' = mmu_view m \<and>
        (\<forall>q. q div 512 \<notin> frames m \<longrightarrow> mainMemory m' q = mainMemory m q) \<and>
        (case t of
           Done _ \<Rightarrow> registers m' PCReg = registers m NextPCReg \<and> registers m' PrevPCReg = registers m PCReg
         | Trap ex \<Rightarrow> registers m' PCReg = registers m PCReg \<and> registers m' NextPCReg = registers m NextPCReg)"
proof -
  from ReadMem_ok [OF assms, where sz = 4 and addr = "registers m PCReg" and big = big] obtain m1 where
    m1: "mmu_view m1 = mmu_view m" "mainMemory m1 = mainMemory m" "cpu_ok m1"
    and r: "case translate_spec (registers m PCReg) 4 False m of
        Inl ex \<Rightarrow> ReadMem big (registers m PCReg) 4 m = Inr (Trap ex, m1) \<and>
                 registers m1 = raise_regs (registers m PCReg) (registers m)
      | Inr p \<Rightarrow> ReadMem big (registers m PCReg) 4 m = Inr (Done (load_spec 4 (mainMemory m) p), m1) \<and>
                 registers m1 = registers m" by auto
  have ok: "mach_ok m" "mach_ok m1" using assms m1(3) by (simp_all add: cpu_ok_def)
  show ?thesis
  proof (cases "translate_spec (registers m PCReg) 4 False m")
    case (Inl ex)
    with r m1 raise_regs_pc [OF assms] show ?thesis
      by (simp add: OneInstruction_def mem_then_def)
  next
    case (Inr p)
    let ?i = "Decode (load_spec 4 (mainMemory m) p)"
    from Inr r have rd: "ReadMem big (registers m PCReg) 4 m = Inr (Done (load_spec 4 (mainMemory m) p), m1)"
      and regs: "registers m1 = registers m" by simp_all
    have one: "OneInstruction big m = mem_then (exec_a big ?i (registers m NextPCReg + 4) m1)
        (\<lambda>(lr, lv, pc) m2. finish_instr lr lv pc m2)"
      by (simp add: OneInstruction_def mem_then_def rd regs del: reg_defs)
    show ?thesis
    proof (cases "crashes ?i m")
      case True
      then have "\<exists>f. exec_a big ?i (registers m NextPCReg + 4) m1 = Inl f"
        using crash_stops [of ?i m1] by (simp add: crashes_def regs)
      then show ?thesis using True rd by (auto simp: one mem_then_def)
    next
      case False
      then have "\<not> crashes ?i m1" by (simp add: crashes_def regs)
      from exec_a_ok [OF m1(3) Decode_regs Decode_op this, where big = big and pc = "registers m NextPCReg + 4"]
      obtain t m2 where e: "exec_a big ?i (registers m NextPCReg + 4) m1 = Inr (t, m2)"
        and v: "mmu_view m2 = mmu_view m1"
        and mem: "\<forall>q. q div 512 \<notin> frames m1 \<longrightarrow> mainMemory m2 q = mainMemory m1 q"
        and t: "case t of Trap ex \<Rightarrow> cpu_ok m2 \<and> (\<forall>n \<in> {34..<37}. registers m2 n = registers m1 n)
          | Done (lr, lv, pc) \<Rightarrow> lr < 32 \<and> (\<forall>n \<in> {34..<40}. registers m2 n = registers m1 n)"
        by (auto simp: exec_ok_def split: sum.splits)
      have fr: "frames m1 = frames m" using frames_view [OF m1(1) ok(1)] .
      show ?thesis
      proof (cases t)
        case (Trap ex)
        with e v mem t m1 regs fr show ?thesis by (simp add: one mem_then_def)
      next
        case (Done x)
        obtain lr lv pc where x: "x = (lr, lv, pc)" by (cases x)
        with t Done have "lr < 32" "\<forall>n \<in> {34..<40}. registers m2 n = registers m1 n" by simp_all
        from finish_instr_ok [OF m1(3) mach_ok_view [OF v ok(2)] this, where lv = lv and pc = pc] obtain m' where
          "finish_instr lr lv pc m2 = Inr (Done (), m')" "cpu_ok m'" "mmu_view m' = mmu_view m2"
          "mainMemory m' = mainMemory m2" "registers m' PCReg = registers m1 NextPCReg"
          "registers m' PrevPCReg = registers m1 PCReg" by blast
        with e Done x v mem m1 regs fr show ?thesis by (simp add: one mem_then_def)
      qed
    qed
  qed
qed

theorem instruction_is_confined_witness:
  "cpu_ok demo_machine \<and> (\<exists>t m'. OneInstruction False demo_machine = Inr (t, m') \<and> cpu_ok m' \<and>
     (\<forall>q. q div 512 \<notin> frames demo_machine \<longrightarrow> mainMemory m' q = 0))"
proof -
  have pc: "registers demo_machine PCReg = 0" and mem: "mainMemory demo_machine = (\<lambda>_. 0)"
    by (simp_all add: demo_defs)
  have t: "translate_spec 0 4 False demo_machine = Inr 0xA00"
    by (simp add: translate_spec_def lookup_page_def aligned_def demo_defs word_le_nat_alt)
  from ReadMem_ok [OF demo_ok, where sz = 4 and addr = 0 and big = False] t obtain m1 where
    "ReadMem False 0 4 demo_machine = Inr (Done (load_spec 4 (mainMemory demo_machine) 0xA00), m1)" by auto
  then have rd: "ReadMem False 0 4 demo_machine = Inr (Done 0, m1)" by (simp add: mem load_spec_def le_word_def)
  have "opCode (Decode 0) = OP_SLL" by (simp add: Decode_def Let_def opTable_def specialTable_def)
  then have nc: "\<not> crashes (Decode 0) demo_machine" by (simp add: crashes_def)
  from instruction_is_confined [OF demo_ok, of False] show ?thesis
    using demo_ok rd nc pc mem by (cases "OneInstruction False demo_machine") (auto simp del: reg_defs)
qed

section \<open>Arithmetic and loads as the architecture defines them\<close>

text \<open>C27. The overflow tests of \<open>ADD\<close>, \<open>ADDI\<close> and \<open>SUB\<close> are exact: the instruction raises the overflow exception
  exactly when the mathematical result does not fit in 32 bits, and otherwise stores that result.\<close>

theorem overflow_traps_are_exact:
  "(\<exists>v. op_add i pc m = (if fits (sint (registers m (rs i)) + sint (registers m (rt i)))
        then go_on pc (set_reg (rd i) v m) else RaiseException OverflowException 0 m) \<and>
     sint v = wrap32 (sint (registers m (rs i)) + sint (registers m (rt i)))) \<and>
   (\<exists>v. op_addi i pc m = (if fits (sint (registers m (rs i)) + sint (extra i))
        then go_on pc (set_reg (rt i) v m) else RaiseException OverflowException 0 m) \<and>
     sint v = wrap32 (sint (registers m (rs i)) + sint (extra i))) \<and>
   (\<exists>v. op_sub i pc m = (if fits (sint (registers m (rs i)) - sint (registers m (rt i)))
        then go_on pc (set_reg (rd i) v m) else RaiseException OverflowException 0 m) \<and>
     sint v = wrap32 (sint (registers m (rs i)) - sint (registers m (rt i))))"
proof (intro conjI)
  let ?a = "registers m (rs i)" and ?b = "registers m (rt i)"
  show "\<exists>v. op_add i pc m = (if fits (sint ?a + sint ?b) then go_on pc (set_reg (rd i) v m)
        else RaiseException OverflowException 0 m) \<and> sint v = wrap32 (sint ?a + sint ?b)"
    by (rule exI [of _ "?a + ?b"]) (simp add: op_add_def Let_def add_overflow_test sint_add)
  have "((?a XOR extra i) AND SIGN_BIT = 0 \<and> (extra i XOR (?a + extra i)) AND SIGN_BIT \<noteq> 0)
      \<longleftrightarrow> \<not> fits (sint ?a + sint (extra i))"
    using add_overflow_test [of "extra i" ?a] by (simp add: xor.commute add.commute)
  then show "\<exists>v. op_addi i pc m = (if fits (sint ?a + sint (extra i)) then go_on pc (set_reg (rt i) v m)
        else RaiseException OverflowException 0 m) \<and> sint v = wrap32 (sint ?a + sint (extra i))"
    by (intro exI [of _ "?a + extra i"]) (simp add: op_addi_def Let_def sint_add)
  show "\<exists>v. op_sub i pc m = (if fits (sint ?a - sint ?b) then go_on pc (set_reg (rd i) v m)
        else RaiseException OverflowException 0 m) \<and> sint v = wrap32 (sint ?a - sint ?b)"
    by (rule exI [of _ "?a - ?b"]) (simp add: op_sub_def Let_def sub_overflow_test sint_sub)
qed


end
