(* ===== verification/NachosList.thy ===== *)
theory NachosList
  imports Prelude "HOL-Library.Multiset"
begin

text \<open>
  The singly linked list of \<open>threads/list.cc\<close> and \<open>threads/list.h\<close>, which every queue of
  the kernel is built on (the ready list, the semaphore queues, the pending
  interrupts, the mailboxes). The first part is the code itself over an explicit heap of
  \<open>ListElement\<close> cells, with the \<open>first\<close> and \<open>last\<close> pointers; a dereference of a null
  or freed cell is a fault. The second part is the abstract list the operations promise,
  the interface of the class as the locale \<open>nachos_list\<close>, and the proof that the pointer code
  implements it. The other components use the abstract operations.
\<close>

section \<open>Cells and the heap\<close>

text \<open>\<open>void *item\<close> is \<open>'a option\<close>: \<open>None\<close> is the null pointer.\<close>

record 'a ListElement =
  le_next :: "nat option"
  le_key :: int
  le_item :: "'a option"

record NList =
  lfirst :: "nat option"
  llast :: "nat option"

record 'a lheap =
  cells :: "nat \<Rightarrow> 'a ListElement option"
  brk :: nat

type_synonym 'a lstate = "'a lheap \<times> NList"

definition deref :: "'a lheap \<Rightarrow> nat option \<Rightarrow> 'a ListElement res" where
  "deref h p = (case p of None \<Rightarrow> Inl NullDeref
     | Some a \<Rightarrow> (case cells h a of None \<Rightarrow> Inl DanglingPtr | Some c \<Rightarrow> Inr c))"

definition set_next :: "'a lheap \<Rightarrow> nat option \<Rightarrow> nat option \<Rightarrow> 'a lheap res" where
  "set_next h p n = res_bind (deref h p)
     (\<lambda>c. Inr (h\<lparr>cells := (cells h)(the p \<mapsto> c\<lparr>le_next := n\<rparr>)\<rparr>))"

section \<open>The operations of the class List\<close>

definition ListElement_new :: "'a option \<Rightarrow> int \<Rightarrow> 'a lheap \<Rightarrow> nat \<times> 'a lheap" where
  "ListElement_new itemPtr sortKey h =
     (brk h, h\<lparr>cells := (cells h)(brk h \<mapsto> \<lparr>le_next = None, le_key = sortKey, le_item = itemPtr\<rparr>),
              brk := Suc (brk h)\<rparr>)"

definition List_new :: "NList" where
  "List_new = \<lparr>lfirst = None, llast = None\<rparr>"

definition List_IsEmpty :: "NList \<Rightarrow> bool" where
  "List_IsEmpty l = (lfirst l = None)"

definition List_Append :: "'a option \<Rightarrow> 'a lstate \<Rightarrow> 'a lstate res" where
  "List_Append item s = (let (h, l) = s; (element, h1) = ListElement_new item 0 h in
     if List_IsEmpty l then Inr (h1, \<lparr>lfirst = Some element, llast = Some element\<rparr>)
     else res_bind (set_next h1 (llast l) (Some element))
            (\<lambda>h2. Inr (h2, l\<lparr>llast := Some element\<rparr>)))"

definition List_Prepend :: "'a option \<Rightarrow> 'a lstate \<Rightarrow> 'a lstate res" where
  "List_Prepend item s = (let (h, l) = s; (element, h1) = ListElement_new item 0 h in
     if List_IsEmpty l then Inr (h1, \<lparr>lfirst = Some element, llast = Some element\<rparr>)
     else res_bind (set_next h1 (Some element) (lfirst l))
            (\<lambda>h2. Inr (h2, l\<lparr>lfirst := Some element\<rparr>)))"

text \<open>
  The loop of \<open>SortedInsert\<close>, from \<open>ptr\<close> on. The list has at most \<open>brk h\<close> cells, which
  bounds the number of iterations; \<open>si_walk_refines\<close> shows the bound is never reached.
\<close>

fun si_walk :: "nat \<Rightarrow> 'a lstate \<Rightarrow> nat \<Rightarrow> int \<Rightarrow> nat option \<Rightarrow> 'a lstate res" where
  "si_walk 0 s element sortKey ptr = Inl OutOfFuel"
| "si_walk (Suc n) (h, l) element sortKey ptr =
     res_bind (deref h ptr) (\<lambda>c.
       if le_next c = None then
         res_bind (set_next h (llast l) (Some element)) (\<lambda>h'. Inr (h', l\<lparr>llast := Some element\<rparr>))
       else res_bind (deref h (le_next c)) (\<lambda>nc.
         if sortKey < le_key nc then
           res_bind (set_next h (Some element) (le_next c)) (\<lambda>h1.
           res_bind (set_next h1 ptr (Some element)) (\<lambda>h2. Inr (h2, l)))
         else si_walk n (h, l) element sortKey (le_next c)))"

definition List_SortedInsert :: "'a option \<Rightarrow> int \<Rightarrow> 'a lstate \<Rightarrow> 'a lstate res" where
  "List_SortedInsert item sortKey s =
    (let (h, l) = s; (element, h1) = ListElement_new item sortKey h in
     if List_IsEmpty l then Inr (h1, \<lparr>lfirst = Some element, llast = Some element\<rparr>)
     else res_bind (deref h1 (lfirst l)) (\<lambda>f.
       if sortKey < le_key f then
         res_bind (set_next h1 (Some element) (lfirst l)) (\<lambda>h2. Inr (h2, l\<lparr>lfirst := Some element\<rparr>))
       else si_walk (brk h1) (h1, l) element sortKey (lfirst l)))"

text \<open>\<open>*keyPtr\<close> is the second component: written only when an element is removed.\<close>

definition List_SortedRemove :: "'a lstate \<Rightarrow> ('a option \<times> int option \<times> 'a lstate) res" where
  "List_SortedRemove s = (let (h, l) = s in
     if List_IsEmpty l then Inr (None, None, h, l)
     else res_bind (deref h (lfirst l)) (\<lambda>element.
       let l' = (if lfirst l = llast l then \<lparr>lfirst = None, llast = None\<rparr>
                 else l\<lparr>lfirst := le_next element\<rparr>)
       in Inr (le_item element, Some (le_key element),
               h\<lparr>cells := (cells h)(the (lfirst l) := None)\<rparr>, l')))"

definition List_Remove :: "'a lstate \<Rightarrow> ('a option \<times> 'a lstate) res" where
  "List_Remove s = res_bind (List_SortedRemove s) (\<lambda>(thing, _, s'). Inr (thing, s'))"

fun mapcar_walk :: "nat \<Rightarrow> ('a option \<Rightarrow> 's \<Rightarrow> 's) \<Rightarrow> 'a lheap \<Rightarrow> nat option \<Rightarrow> 's \<Rightarrow> 's res" where
  "mapcar_walk n func h None st = Inr st"
| "mapcar_walk 0 func h (Some p) st = Inl OutOfFuel"
| "mapcar_walk (Suc n) func h (Some p) st =
     res_bind (deref h (Some p)) (\<lambda>c. mapcar_walk n func h (le_next c) (func (le_item c) st))"

definition List_Mapcar :: "('a option \<Rightarrow> 's \<Rightarrow> 's) \<Rightarrow> 'a lstate \<Rightarrow> 's \<Rightarrow> 's res" where
  "List_Mapcar func s st = (let (h, l) = s in mapcar_walk (brk h) func h (lfirst l) st)"

text \<open>The destructor removes until \<open>Remove\<close> returns null.\<close>

fun List_destroy :: "nat \<Rightarrow> 'a lstate \<Rightarrow> 'a lstate res" where
  "List_destroy 0 s = Inl OutOfFuel"
| "List_destroy (Suc n) s = res_bind (List_Remove s)
     (\<lambda>(thing, s'). if thing = None then Inr s' else List_destroy n s')"

section \<open>The abstract list\<close>

text \<open>The contents of a list: keys and items, front first.\<close>

type_synonym 'a alist = "(int \<times> 'a option) list"

definition ins_sorted :: "int \<Rightarrow> 'b \<Rightarrow> (int \<times> 'b) list \<Rightarrow> (int \<times> 'b) list" where
  "ins_sorted k x xs = takeWhile (\<lambda>(k', _). k' \<le> k) xs @ (k, x) # dropWhile (\<lambda>(k', _). k' \<le> k) xs"

lemma ins_sorted_Nil [simp]: "ins_sorted k x [] = [(k, x)]"
  by (simp add: ins_sorted_def)

lemma ins_sorted_Cons [simp]:
  "ins_sorted k x ((k', y) # xs) = (if k < k' then (k, x) # (k', y) # xs else (k', y) # ins_sorted k x xs)"
  by (simp add: ins_sorted_def)

lemma ins_sorted_neq_Nil [simp]: "ins_sorted k x xs \<noteq> []"
  by (simp add: ins_sorted_def)

lemma mset_ins_sorted [simp]: "mset (ins_sorted k x xs) = add_mset (k, x) (mset xs)"
  by (induction xs) auto

lemma set_ins_sorted [simp]: "set (ins_sorted k x xs) = insert (k, x) (set xs)"
  by (induction xs) (auto split: if_splits)

lemma length_ins_sorted [simp]: "length (ins_sorted k x xs) = Suc (length xs)"
  by (induction xs) auto

lemma sorted_ins_sorted: "sorted (map fst xs) \<Longrightarrow> sorted (map fst (ins_sorted k x xs))"
proof (induction xs)
  case Nil
  then show ?case by simp
next
  case (Cons p xs)
  then show ?case by (cases p) auto
qed

text \<open>Among equal keys, the element inserted last comes last.\<close>

lemma filter_ins_sorted:
  "sorted (map fst xs) \<Longrightarrow>
   filter (\<lambda>p. fst p = k') (ins_sorted k x xs) =
   filter (\<lambda>p. fst p = k') xs @ (if k = k' then [(k, x)] else [])"
proof (induction xs)
  case Nil
  then show ?case by simp
next
  case (Cons p xs)
  obtain kp y where p: "p = (kp, y)" by (cases p)
  show ?case
  proof (cases "k < kp")
    case True
    with Cons.prems p have "\<forall>q \<in> set (p # xs). k < fst q" by auto
    then have "filter (\<lambda>q. fst q = k) (p # xs) = []" by (auto simp: filter_empty_conv)
    with True p show ?thesis by (cases "k = k'") auto
  next
    case False
    with Cons p show ?thesis by auto
  qed
qed

section \<open>Representation\<close>

text \<open>A path of cells from \<open>p\<close> to \<open>q\<close>: addresses with their keys and items.\<close>

fun lseg :: "'a lheap \<Rightarrow> nat option \<Rightarrow> (nat \<times> int \<times> 'a option) list \<Rightarrow> nat option \<Rightarrow> bool" where
  "lseg h p [] q = (p = q)"
| "lseg h p ((a, k, x) # ns) q =
     (p = Some a \<and> (\<exists>n. cells h a = Some \<lparr>le_next = n, le_key = k, le_item = x\<rparr> \<and> lseg h n ns q))"

definition list_rep :: "'a lstate \<Rightarrow> (nat \<times> int \<times> 'a option) list \<Rightarrow> bool" where
  "list_rep s ns = (lseg (fst s) (lfirst (snd s)) ns None \<and> distinct (map fst ns)
     \<and> (\<forall>a \<in> set (map fst ns). a < brk (fst s))
     \<and> llast (snd s) = (if ns = [] then None else Some (fst (last ns))))"

definition lrep :: "'a lstate \<Rightarrow> 'a alist \<Rightarrow> bool" where
  "lrep s xs = (\<exists>ns. list_rep s ns \<and> map snd ns = xs)"

lemma lseg_append: "lseg h p (ns @ ms) q \<longleftrightarrow> (\<exists>r. lseg h p ns r \<and> lseg h r ms q)"
  by (induction ns arbitrary: p) (auto, blast+)

lemma lseg_frame [simp]:
  "a \<notin> fst ` set ns \<Longrightarrow>
   lseg (h\<lparr>cells := c(a := v)\<rparr>) p ns q = lseg (h\<lparr>cells := c\<rparr>) p ns q"
  by (induction ns arbitrary: p) auto

lemma lseg_cells_id [simp]: "lseg (h\<lparr>cells := cells h\<rparr>) p ns q = lseg h p ns q"
  by simp

lemma lseg_brk [simp]:
  "lseg (h\<lparr>brk := b\<rparr>) p ns q = lseg h p ns q"
  "lseg (h\<lparr>brk := b, cells := c\<rparr>) p ns q = lseg (h\<lparr>cells := c\<rparr>) p ns q"
  by (induction ns arbitrary: p) auto

lemma lseg_mid:
  "lseg h p (pre @ (a, k, x) # post) q \<longleftrightarrow>
   lseg h p pre (Some a) \<and>
   (\<exists>n. cells h a = Some \<lparr>le_next = n, le_key = k, le_item = x\<rparr> \<and> lseg h n post q)"
  by (auto simp: lseg_append)

lemma set_next_cell:
  "cells h a = Some c \<Longrightarrow>
   set_next h (Some a) n = Inr (h\<lparr>cells := (cells h)(a \<mapsto> c\<lparr>le_next := n\<rparr>)\<rparr>)"
  by (simp add: set_next_def deref_def)

lemma deref_cell: "cells h a = Some c \<Longrightarrow> deref h (Some a) = Inr c"
  by (simp add: deref_def)

lemmas list_code = List_IsEmpty_def ListElement_new_def set_next_cell deref_cell

lemma list_rep_first: "list_rep (h, l) ns \<Longrightarrow> lfirst l = (case ns of [] \<Rightarrow> None | (a, _) # _ \<Rightarrow> Some a)"
  by (cases ns) (auto simp: list_rep_def)

lemma list_rep_empty_iff: "list_rep (h, l) ns \<Longrightarrow> List_IsEmpty l = (ns = [])"
  by (auto simp: List_IsEmpty_def list_rep_first split: list.splits)

section \<open>The pointer code implements the abstract list\<close>

lemma List_Append_refines:
  assumes "list_rep (h, l) ns"
  shows "\<exists>s'. List_Append x (h, l) = Inr s' \<and> list_rep s' (ns @ [(brk h, 0, x)])"
proof (cases ns rule: rev_cases)
  case Nil
  with assms show ?thesis
    by (auto simp: List_Append_def list_rep_def list_code)
next
  case (snoc ms m)
  obtain a k y where m: "m = (a, k, y)" by (cases m)
  from assms snoc m have seg: "lseg h (lfirst l) ms (Some a)"
    and cell: "cells h a = Some \<lparr>le_next = None, le_key = k, le_item = y\<rparr>"
    and fresh: "a < brk h" "brk h \<notin> set (map fst ms)" "a \<notin> set (map fst ms)"
    and lst: "llast l = Some a"
    by (auto simp: list_rep_def lseg_mid)
  have ne: "\<not> List_IsEmpty l"
    using list_rep_empty_iff [OF assms] snoc by simp
  from seg fresh cell lst ne assms show ?thesis
    by (auto simp: List_Append_def list_rep_def ListElement_new_def set_next_cell snoc m lseg_mid)
qed

lemma List_Prepend_refines:
  assumes "list_rep (h, l) ns"
  shows "\<exists>s'. List_Prepend x (h, l) = Inr s' \<and> list_rep s' ((brk h, 0, x) # ns)"
proof (cases ns)
  case Nil
  with assms show ?thesis
    by (auto simp: List_Prepend_def list_rep_def list_code)
next
  case (Cons m ms)
  with assms have "\<not> List_IsEmpty l" and "brk h \<notin> fst ` set ns"
    using list_rep_empty_iff [OF assms] by (auto simp: list_rep_def)
  with assms Cons show ?thesis
    by (auto simp: List_Prepend_def list_rep_def ListElement_new_def set_next_cell)
qed

text \<open>The insertion on the level of cells.\<close>

definition ins_node :: "nat \<Rightarrow> int \<Rightarrow> 'a option \<Rightarrow> (nat \<times> int \<times> 'a option) list \<Rightarrow> (nat \<times> int \<times> 'a option) list" where
  "ins_node e k x ns = takeWhile (\<lambda>(_, k', _). k' \<le> k) ns @ (e, k, x) # dropWhile (\<lambda>(_, k', _). k' \<le> k) ns"

lemma ins_node_Nil [simp]: "ins_node e k x [] = [(e, k, x)]"
  by (simp add: ins_node_def)

lemma ins_node_Cons [simp]:
  "ins_node e k x ((a, k', y) # ns) =
     (if k < k' then (e, k, x) # (a, k', y) # ns else (a, k', y) # ins_node e k x ns)"
  by (simp add: ins_node_def)

lemma map_snd_ins_node: "map snd (ins_node e k x ns) = ins_sorted k x (map snd ns)"
  by (induction ns) auto

lemma si_walk_refines:
  assumes "list_rep (h, l) (pre @ (a, k, y) # post)"
    and "cells h e = Some \<lparr>le_next = None, le_key = key, le_item = x\<rparr>"
    and "e \<notin> set (map fst (pre @ (a, k, y) # post))" and "e < brk h"
    and "length post < n"
  shows "\<exists>s'. si_walk n (h, l) e key (Some a) = Inr s' \<and>
           list_rep s' (pre @ (a, k, y) # ins_node e key x post)"
  using assms
proof (induction n arbitrary: pre a k y post)
  case 0
  then show ?case by simp
next
  case (Suc n)
  from Suc.prems(1) obtain nx where seg: "lseg h (lfirst l) pre (Some a)"
    and cell: "cells h a = Some \<lparr>le_next = nx, le_key = k, le_item = y\<rparr>"
    and post: "lseg h nx post None"
    by (auto simp: list_rep_def lseg_mid)
  show ?case
  proof (cases post)
    case Nil
    with post have "nx = None" by simp
    with Nil Suc.prems seg cell show ?thesis
      by (auto simp: list_rep_def list_code lseg_mid)
  next
    case (Cons b post')
    obtain ab kb yb where b: "b = (ab, kb, yb)" by (cases b)
    from post Cons b obtain nb where nx: "nx = Some ab"
      and cb: "cells h ab = Some \<lparr>le_next = nb, le_key = kb, le_item = yb\<rparr>"
      by auto
    show ?thesis
    proof (cases "key < kb")
      case True
      with Suc.prems seg cell post Cons b nx cb show ?thesis
        by (auto simp: list_rep_def list_code lseg_mid)
    next
      case False
      have "\<exists>s'. si_walk n (h, l) e key (Some ab) = Inr s' \<and>
              list_rep s' ((pre @ [(a, k, y)]) @ (ab, kb, yb) # ins_node e key x post')"
        by (rule Suc.IH) (use Suc.prems Cons b in auto)
      with False cell nx cb Cons b show ?thesis
        by (auto simp: list_code)
    qed
  qed
qed

lemma list_rep_new:
  "list_rep (h, l) ns \<Longrightarrow> list_rep (snd (ListElement_new x k h), l) ns"
proof -
  assume rep: "list_rep (h, l) ns"
  then have "brk h \<notin> fst ` set ns" by (auto simp: list_rep_def)
  with rep show ?thesis by (auto simp: list_rep_def ListElement_new_def)
qed

lemma distinct_bounded_length: "distinct xs \<Longrightarrow> \<forall>a \<in> set xs. a < n \<Longrightarrow> length xs \<le> (n::nat)"
proof -
  assume d: "distinct xs" and b: "\<forall>a \<in> set xs. a < n"
  from b have "set xs \<subseteq> {..<n}" by auto
  then have "card (set xs) \<le> n" using card_mono [of "{..<n}" "set xs"] by simp
  with d show ?thesis by (simp add: distinct_card)
qed

lemma list_rep_length: "list_rep s ns \<Longrightarrow> length ns \<le> brk (fst s)"
  using distinct_bounded_length [of "map fst ns" "brk (fst s)"] by (auto simp: list_rep_def)

lemma List_SortedInsert_refines:
  assumes "list_rep (h, l) ns"
  shows "\<exists>s'. List_SortedInsert x k (h, l) = Inr s' \<and> list_rep s' (ins_node (brk h) k x ns)"
proof (cases ns)
  case Nil
  with assms show ?thesis
    by (auto simp: List_SortedInsert_def list_rep_def list_code)
next
  case (Cons m ms)
  obtain a km y where m: "m = (a, km, y)" by (cases m)
  define h1 where "h1 = snd (ListElement_new x k h)"
  have rep: "list_rep (h1, l) ([] @ (a, km, y) # ms)"
    using assms Cons m list_rep_new by (auto simp: h1_def)
  have cell: "cells h1 (brk h) = Some \<lparr>le_next = None, le_key = k, le_item = x\<rparr>"
    and b: "brk h1 = Suc (brk h)" by (simp_all add: h1_def ListElement_new_def)
  have fresh: "brk h \<notin> set (map fst ns)" using assms by (auto simp: list_rep_def)
  from rep obtain nx where fst: "lfirst l = Some a"
    and ca: "cells h1 a = Some \<lparr>le_next = nx, le_key = km, le_item = y\<rparr>"
    by (auto simp: list_rep_def)
  have new: "ListElement_new x k h = (brk h, h1)" by (simp add: h1_def ListElement_new_def)
  show ?thesis
  proof (cases "k < km")
    case True
    with rep cell fresh fst ca b show ?thesis
      by (auto simp: List_SortedInsert_def new List_IsEmpty_def set_next_cell deref_cell Cons m list_rep_def)
  next
    case False
    have "length ms < brk h1" using list_rep_length [OF rep] by simp
    then have "\<exists>s'. si_walk (brk h1) (h1, l) (brk h) k (Some a) = Inr s' \<and>
        list_rep s' ([] @ (a, km, y) # ins_node (brk h) k x ms)"
      using rep cell fresh b Cons m by (intro si_walk_refines) auto
    with False fst ca show ?thesis
      by (auto simp: List_SortedInsert_def new List_IsEmpty_def deref_cell Cons m)
  qed
qed

lemma List_SortedRemove_refines:
  assumes "list_rep (h, l) ns"
  shows "\<exists>s'. List_SortedRemove (h, l) = Inr
           ((case ns of [] \<Rightarrow> None | (_, _, x) # _ \<Rightarrow> x),
            (case ns of [] \<Rightarrow> None | (_, k, _) # _ \<Rightarrow> Some k), s') \<and>
           list_rep s' (tl ns)"
proof (cases ns)
  case Nil
  with assms show ?thesis
    by (auto simp: List_SortedRemove_def list_rep_empty_iff)
next
  case (Cons m ms)
  obtain a k x where m: "m = (a, k, x)" by (cases m)
  from assms Cons m obtain nx where f: "lfirst l = Some a"
    and cell: "cells h a = Some \<lparr>le_next = nx, le_key = k, le_item = x\<rparr>"
    and seg: "lseg h nx ms None" and notin: "a \<notin> fst ` set ms"
    by (auto simp: list_rep_def)
  have last: "lfirst l = llast l \<longleftrightarrow> ms = []"
  proof (cases ms rule: rev_cases)
    case Nil
    with assms Cons m f show ?thesis by (simp add: list_rep_def)
  next
    case (snoc ms' m')
    with notin have "fst m' \<noteq> a" by auto
    with snoc assms Cons m f show ?thesis by (simp add: list_rep_def)
  qed
  with assms Cons m f cell seg notin show ?thesis
    by (cases "ms = []")
       (auto simp: List_SortedRemove_def list_rep_def List_IsEmpty_def deref_cell Let_def)
qed

lemma mapcar_walk_refines:
  "lseg h p ns None \<Longrightarrow> length ns \<le> n \<Longrightarrow>
   mapcar_walk n func h p st = Inr (fold func (map (snd \<circ> snd) ns) st)"
proof (induction ns arbitrary: p n st)
  case Nil
  then show ?case by simp
next
  case (Cons m ns)
  then show ?case by (cases m; cases n) (auto simp: deref_cell)
qed

section \<open>The interface of the class List\<close>

text \<open>
  What the clients of a list rely on: \<open>rep s xs\<close> says that the object \<open>s\<close> holds the
  keyed items \<open>xs\<close>, front first; no operation faults on an object that holds a list.
\<close>

locale nachos_list =
  fixes rep :: "'s \<Rightarrow> 'a alist \<Rightarrow> bool"
    and append :: "'a option \<Rightarrow> 's \<Rightarrow> 's res"
    and prepend :: "'a option \<Rightarrow> 's \<Rightarrow> 's res"
    and sorted_insert :: "'a option \<Rightarrow> int \<Rightarrow> 's \<Rightarrow> 's res"
    and sorted_remove :: "'s \<Rightarrow> ('a option \<times> int option \<times> 's) res"
  assumes rep_append: "rep s xs \<Longrightarrow> \<exists>s'. append x s = Inr s' \<and> rep s' (xs @ [(0, x)])"
    and rep_prepend: "rep s xs \<Longrightarrow> \<exists>s'. prepend x s = Inr s' \<and> rep s' ((0, x) # xs)"
    and rep_sorted_insert:
      "rep s xs \<Longrightarrow> \<exists>s'. sorted_insert x k s = Inr s' \<and> rep s' (ins_sorted k x xs)"
    and rep_sorted_remove:
      "rep s xs \<Longrightarrow> \<exists>s'. sorted_remove s = Inr
         ((case xs of [] \<Rightarrow> None | (_, x) # _ \<Rightarrow> x), (case xs of [] \<Rightarrow> None | (k, _) # _ \<Rightarrow> Some k), s')
         \<and> rep s' (tl xs)"
begin

definition remove_keyed :: "'s \<Rightarrow> ((int option \<times> 'a option) \<times> 's) res" where
  "remove_keyed s = res_bind (sorted_remove s) (\<lambda>(x, k, s'). Inr ((k, x), s'))"

lemma rep_append_all:
  "rep s xs \<Longrightarrow> \<exists>s'. res_fold append ys s = Inr s' \<and> rep s' (xs @ map (Pair 0) ys)"
proof (induction ys arbitrary: s xs)
  case Nil
  then show ?case by simp
next
  case (Cons y ys)
  from rep_append [OF Cons.prems] obtain s1
    where "append y s = Inr s1" and "rep s1 (xs @ [(0, y)])" by blast
  with Cons.IH [of s1 "xs @ [(0, y)]"] show ?case by simp
qed

lemma rep_insert_all:
  "rep s xs \<Longrightarrow> \<exists>s'. res_fold (\<lambda>(k, x). sorted_insert x k) ps s = Inr s' \<and>
     rep s' (fold (\<lambda>(k, x). ins_sorted k x) ps xs)"
proof (induction ps arbitrary: s xs)
  case Nil
  then show ?case by simp
next
  case (Cons p ps)
  from rep_sorted_insert [OF Cons.prems] obtain s1
    where "sorted_insert (snd p) (fst p) s = Inr s1" and "rep s1 (ins_sorted (fst p) (snd p) xs)"
    by blast
  with Cons.IH [of s1] show ?case by (simp add: case_prod_beta)
qed

lemma rep_remove_n:
  "rep s xs \<Longrightarrow> n \<le> length xs \<Longrightarrow>
   \<exists>s'. res_drain remove_keyed n s = Inr (map (apfst Some) (take n xs), s') \<and> rep s' (drop n xs)"
proof (induction n arbitrary: s xs)
  case 0
  then show ?case by auto
next
  case (Suc n)
  from Suc.prems(2) obtain k x xs' where xs: "xs = (k, x) # xs'" by (cases xs) auto
  from rep_sorted_remove [OF Suc.prems(1)] xs obtain s1
    where "remove_keyed s = Inr ((Some k, x), s1)" and "rep s1 xs'"
    by (auto simp: remove_keyed_def)
  with Suc xs show ?case by fastforce
qed

text \<open>A list used as a priority queue: what is inserted comes out sorted and stable.\<close>

lemma fold_ins_sorted:
  "sorted (map fst xs) \<Longrightarrow>
   sorted (map fst (fold (\<lambda>(k, x). ins_sorted k x) ps xs)) \<and>
   mset (fold (\<lambda>(k, x). ins_sorted k x) ps xs) = mset ps + mset xs \<and>
   (\<forall>k. filter (\<lambda>p. fst p = k) (fold (\<lambda>(k, x). ins_sorted k x) ps xs) =
        filter (\<lambda>p. fst p = k) xs @ filter (\<lambda>p. fst p = k) ps)"
proof (induction ps arbitrary: xs)
  case Nil
  then show ?case by simp
next
  case (Cons p ps)
  obtain k x where p: "p = (k, x)" by (cases p)
  from Cons.prems have "sorted (map fst (ins_sorted k x xs))" by (rule sorted_ins_sorted)
  from Cons.IH [OF this] p Cons.prems show ?case by (simp add: filter_ins_sorted)
qed

lemma priority_drain:
  assumes "rep s []"
  shows "\<exists>s1 ys s2. res_fold (\<lambda>(k, x). sorted_insert x k) ps s = Inr s1 \<and>
           res_drain remove_keyed (length ps) s1 = Inr (map (apfst Some) ys, s2) \<and>
           rep s2 [] \<and> sorted (map fst ys) \<and> mset ys = mset ps \<and>
           (\<forall>k. filter (\<lambda>p. fst p = k) ys = filter (\<lambda>p. fst p = k) ps)"
proof -
  let ?ys = "fold (\<lambda>(k, x). ins_sorted k x) ps []"
  have ys: "sorted (map fst ?ys)" "mset ?ys = mset ps"
    "\<forall>k. filter (\<lambda>p. fst p = k) ?ys = filter (\<lambda>p. fst p = k) ps"
    using fold_ins_sorted [of "[]" ps] by simp_all
  from ys(2) have len: "length ?ys = length ps" by (rule mset_eq_length)
  from rep_insert_all [OF assms] obtain s1 where
    s1: "res_fold (\<lambda>(k, x). sorted_insert x k) ps s = Inr s1" "rep s1 ?ys" by blast
  from rep_remove_n [OF s1(2), of "length ps"] len obtain s2 where
    "res_drain remove_keyed (length ps) s1 = Inr (map (apfst Some) ?ys, s2)" "rep s2 []" by auto
  with s1 ys show ?thesis by blast
qed

lemma fifo_drain:
  assumes "rep s []"
  shows "\<exists>s1 s2. res_fold append ys s = Inr s1 \<and>
           res_drain remove_keyed (length ys) s1 = Inr (map (Pair (Some 0)) ys, s2) \<and> rep s2 []"
proof -
  from rep_append_all [OF assms] obtain s1 where
    s1: "res_fold append ys s = Inr s1" "rep s1 (map (Pair 0) ys)" by auto
  from rep_remove_n [OF s1(2), of "length ys"] show ?thesis
    using s1(1) by (auto simp: comp_def)
qed

end

lemma lrep_new: "lrep (h, List_new) []"
  by (auto simp: lrep_def list_rep_def List_new_def)

definition remove_with_key :: "'a lstate \<Rightarrow> ((int option \<times> 'a option) \<times> 'a lstate) res" where
  "remove_with_key s = res_bind (List_SortedRemove s) (\<lambda>(x, k, s'). Inr ((k, x), s'))"

interpretation heap_list: nachos_list lrep List_Append List_Prepend List_SortedInsert List_SortedRemove
  rewrites "nachos_list.remove_keyed List_SortedRemove = remove_with_key"
proof -
  show 1: "nachos_list lrep List_Append List_Prepend List_SortedInsert List_SortedRemove"
  proof (unfold_locales, goal_cases)
    case (1 s xs x)
    then show ?case
      using List_Append_refines [of "fst s" "snd s"] by (fastforce simp: lrep_def)
  next
    case (2 s xs x)
    then show ?case
      using List_Prepend_refines [of "fst s" "snd s"] by (fastforce simp: lrep_def)
  next
    case (3 s xs x k)
    then show ?case
      using List_SortedInsert_refines [of "fst s" "snd s"] by (fastforce simp: lrep_def map_snd_ins_node)
  next
    case (4 s xs)
    then obtain ns where ns: "list_rep (fst s, snd s) ns" "map snd ns = xs"
      by (auto simp: lrep_def)
    from List_SortedRemove_refines [OF ns(1)] ns(2) show ?case
      by (cases ns) (auto simp: lrep_def)
  qed
  show "nachos_list.remove_keyed List_SortedRemove = remove_with_key"
    by (simp add: fun_eq_iff nachos_list.remove_keyed_def [OF 1] remove_with_key_def)
qed

section \<open>Properties\<close>

text \<open>C18. The pointer code of \<open>SortedInsert\<close> and \<open>SortedRemove\<close> is a stable priority queue: on a
  new list, over any heap, inserting any sequence of keyed items and then removing as many
  never faults, hands the same items back in increasing key order, and keeps the insertion
  order among equal keys.\<close>

theorem sorted_list_is_stable_priority_queue:
  "\<exists>s1 ys s2. res_fold (\<lambda>(k, x). List_SortedInsert x k) ps (h, List_new) = Inr s1 \<and>
     res_drain remove_with_key (length ps) s1 = Inr (map (apfst Some) ys, s2) \<and>
     List_IsEmpty (snd s2) \<and> sorted (map fst ys) \<and> mset ys = mset ps \<and>
     (\<forall>k. filter (\<lambda>p. fst p = k) ys = filter (\<lambda>p. fst p = k) ps)"
proof -
  from heap_list.priority_drain [OF lrep_new, of ps h] obtain s1 ys s2 where
    1: "res_fold (\<lambda>(k, x). List_SortedInsert x k) ps (h, List_new) = Inr s1"
       "res_drain remove_with_key (length ps) s1 = Inr (map (apfst Some) ys, s2)" "lrep s2 []"
       "sorted (map fst ys)" "mset ys = mset ps"
       "\<forall>k. filter (\<lambda>p. fst p = k) ys = filter (\<lambda>p. fst p = k) ps" by blast
  from 1(3) have "List_IsEmpty (snd s2)"
    using list_rep_empty_iff [of "fst s2" "snd s2"] by (auto simp: lrep_def)
  with 1 show ?thesis by blast
qed

text \<open>C19. \<open>Append\<close> and \<open>Remove\<close> make the list a first-in first-out queue: on a new list, over any
  heap, appending any items and removing as many never faults and returns them in the
  order they were appended, leaving the list empty.\<close>

theorem append_remove_is_fifo:
  "\<exists>s1 s2. res_fold List_Append ys (h, List_new) = Inr s1 \<and>
     res_drain List_Remove (length ys) s1 = Inr (ys, s2) \<and> List_IsEmpty (snd s2)"
proof -
  from heap_list.fifo_drain [OF lrep_new, of ys h] obtain s1 s2 where
    1: "res_fold List_Append ys (h, List_new) = Inr s1"
       "res_drain remove_with_key (length ys) s1 = Inr (map (Pair (Some 0)) ys, s2)" "lrep s2 []"
    by blast
  have drain: "res_drain remove_with_key n s = Inr (kys, t) \<Longrightarrow>
      res_drain List_Remove n s = Inr (map snd kys, t)" for n kys and s t :: "'a lstate"
    by (induction n arbitrary: s kys)
       (fastforce simp: List_Remove_def remove_with_key_def res_bind_Inr_iff split: prod.splits)+
  from drain [OF 1(2)] have "res_drain List_Remove (length ys) s1 = Inr (ys, s2)"
    by (simp add: comp_def)
  moreover from 1(3) have "List_IsEmpty (snd s2)"
    using list_rep_empty_iff [of "fst s2" "snd s2"] by (auto simp: lrep_def)
  ultimately show ?thesis using 1(1) by blast
qed

end
