(* ===== verification/Interrupt.thy ===== *)
theory Interrupt
  imports NachosList Machine
begin

text \<open>
  The simulation of hardware interrupts (\<open>machine/interrupt.cc\<close>), of the timer device
  (\<open>machine/timer.cc\<close>) and of the clock (\<open>machine/stats.cc\<close>). Simulated time is an \<open>int\<close> without
  overflow. The list of pending interrupts is the contents of the \<open>List\<close> that the code keeps sorted
  by time; \<open>ins_sorted\<close> and removal at the front are what the list promises (theory
  \<open>NachosList\<close>). An interrupt's handler is a token of type \<open>'h\<close>, and \<open>call\<close> runs it on the kernel state; the
  state is an extensible record, so that the threads, semaphores and devices can be added to it. The
  locale \<open>interrupt_handlers\<close> says what the simulation relies on from the devices' handlers.

  \<open>OneTick\<close> ends by calling \<open>currentThread->Yield()\<close> when a handler asked for it. The model returns that
  request with the machine status to restore, and the thread model performs the switch.
\<close>

section \<open>Statistics\<close>

record Statistics =
  totalTicks :: int
  idleTicks :: int
  systemTicks :: int
  userTicks :: int
  numDiskReads :: int
  numDiskWrites :: int
  numConsoleCharsRead :: int
  numConsoleCharsWritten :: int
  numPageFaults :: int
  numPacketsSent :: int
  numPacketsRecvd :: int

definition Statistics_new :: Statistics where
  "Statistics_new = \<lparr>totalTicks = 0, idleTicks = 0, systemTicks = 0, userTicks = 0,
     numDiskReads = 0, numDiskWrites = 0, numConsoleCharsRead = 0, numConsoleCharsWritten = 0,
     numPageFaults = 0, numPacketsSent = 0, numPacketsRecvd = 0\<rparr>"

text \<open>The constants of \<open>stats.h\<close>.\<close>

definition UserTick :: int where "UserTick = 1"
definition SystemTick :: int where "SystemTick = 10"
definition RotationTime :: int where "RotationTime = 500"
definition SeekTime :: int where "SeekTime = 500"
definition ConsoleTime :: int where "ConsoleTime = 100"
definition NetworkTime :: int where "NetworkTime = 100"
definition TimerTicks :: int where "TimerTicks = 100"

section \<open>Interrupt state\<close>

datatype IntStatus = IntOff | IntOn
datatype MachineStatus = IdleMode | SystemMode | UserMode
datatype IntType = TimerInt | DiskInt | ConsoleWriteInt | ConsoleReadInt | NetworkSendInt | NetworkRecvInt

record 'h PendingInterrupt =
  handler :: 'h
  arg :: int
  when_time :: int
  itype :: IntType

record 'h IntSys =
  level :: IntStatus
  pending :: "(int \<times> 'h PendingInterrupt) list"
  inHandler :: bool
  yieldOnReturn :: bool
  status :: MachineStatus
  stats :: Statistics
  machine :: "Machine option"

type_synonym ('h, 'z) caller = "'h \<Rightarrow> int \<Rightarrow> ('h, 'z) IntSys_scheme \<Rightarrow> ('h, 'z) IntSys_scheme res"

definition Interrupt_init :: "('h, 'z) IntSys_scheme \<Rightarrow> ('h, 'z) IntSys_scheme" where
  "Interrupt_init k = k\<lparr>level := IntOff, pending := [], inHandler := False, yieldOnReturn := False,
     status := SystemMode\<rparr>"

definition ChangeLevel :: "IntStatus \<Rightarrow> IntStatus \<Rightarrow> ('h, 'z) IntSys_scheme \<Rightarrow> ('h, 'z) IntSys_scheme" where
  "ChangeLevel old now k = k\<lparr>level := now\<rparr>"

abbreviation now :: "('h, 'z) IntSys_scheme \<Rightarrow> int" where
  "now k \<equiv> totalTicks (stats k)"

definition PendingInterrupt_new :: "'h \<Rightarrow> int \<Rightarrow> int \<Rightarrow> IntType \<Rightarrow> 'h PendingInterrupt" where
  "PendingInterrupt_new func param time kind = \<lparr>handler = func, arg = param, when_time = time, itype = kind\<rparr>"

definition Schedule :: "'h \<Rightarrow> int \<Rightarrow> int \<Rightarrow> IntType \<Rightarrow> ('h, 'z) IntSys_scheme \<Rightarrow> ('h, 'z) IntSys_scheme res" where
  "Schedule h a fromNow type k =
     (let w = now k + fromNow in
      ASSERT (fromNow > 0) (Inr (k\<lparr>pending := ins_sorted w (PendingInterrupt_new h a w type) (pending k)\<rparr>)))"

definition YieldOnReturn :: "('h, 'z) IntSys_scheme \<Rightarrow> ('h, 'z) IntSys_scheme res" where
  "YieldOnReturn k = ASSERT (inHandler k) (Inr (k\<lparr>yieldOnReturn := True\<rparr>))"

section \<open>Firing interrupts\<close>

text \<open>The second half of \<open>CheckIfDue\<close>: invoke the handler of an interrupt already off the list.\<close>

definition run_handler :: "('h, 'z) caller \<Rightarrow> 'h PendingInterrupt \<Rightarrow>
    ('h, 'z) IntSys_scheme \<Rightarrow> ('h, 'z) IntSys_scheme res" where
  "run_handler call p k =
     res_bind (case machine k of None \<Rightarrow> Inr k
               | Some m \<Rightarrow> res_bind (DelayedLoad 0 0 m) (\<lambda>m'. Inr (k\<lparr>machine := Some m'\<rparr>))) (\<lambda>k1.
     res_bind (call (handler p) (arg p) (k1\<lparr>inHandler := True, status := SystemMode\<rparr>)) (\<lambda>k2.
     Inr (k2\<lparr>status := status k, inHandler := False\<rparr>)))"

definition CheckIfDue :: "('h, 'z) caller \<Rightarrow> bool \<Rightarrow> ('h, 'z) IntSys_scheme \<Rightarrow>
    (bool \<times> ('h, 'z) IntSys_scheme) res" where
  "CheckIfDue call advanceClock k = ASSERT (level k = IntOff)
     (case pending k of
        [] \<Rightarrow> Inr (False, k)
      | (w, toOccur) # rest \<Rightarrow>
          let k0 = k\<lparr>pending := rest\<rparr> in
          if w > now k \<and> \<not> advanceClock then Inr (False, k0\<lparr>pending := ins_sorted w toOccur rest\<rparr>)
          else
            let k1 = (if w > now k
                      then k0\<lparr>stats := (stats k)\<lparr>idleTicks := idleTicks (stats k) + (w - now k), totalTicks := w\<rparr>\<rparr>
                      else k0)
            in if status k1 = IdleMode \<and> itype toOccur = TimerInt \<and> pending k1 = []
               then Inr (False, k1\<lparr>pending := ins_sorted w toOccur (pending k1)\<rparr>)
               else res_bind (run_handler call toOccur k1) (\<lambda>k2. Inr (True, k2)))"

text \<open>\<open>while (CheckIfDue(FALSE));\<close> for at most \<open>n\<close> rounds.\<close>

fun fire_due :: "('h, 'z) caller \<Rightarrow> nat \<Rightarrow> ('h, 'z) IntSys_scheme \<Rightarrow> ('h, 'z) IntSys_scheme res" where
  "fire_due call 0 k = Inl OutOfFuel"
| "fire_due call (Suc n) k = res_bind (CheckIfDue call False k)
     (\<lambda>(fired, k'). if fired then fire_due call n k' else Inr k')"

declare fire_due.simps [simp del]

definition tick_stats :: "('h, 'z) IntSys_scheme \<Rightarrow> Statistics" where
  "tick_stats k =
     (if status k = SystemMode
      then (stats k)\<lparr>totalTicks := totalTicks (stats k) + SystemTick, systemTicks := systemTicks (stats k) + SystemTick\<rparr>
      else (stats k)\<lparr>totalTicks := totalTicks (stats k) + UserTick, userTicks := userTicks (stats k) + UserTick\<rparr>)"

definition OneTick :: "('h, 'z) caller \<Rightarrow> ('h, 'z) IntSys_scheme \<Rightarrow>
    (MachineStatus option \<times> ('h, 'z) IntSys_scheme) res" where
  "OneTick call k =
     (let old = status k;
          k1 = ChangeLevel IntOn IntOff (k\<lparr>stats := tick_stats k\<rparr>)
      in res_bind (fire_due call (Suc (length (pending k1))) k1) (\<lambda>k2.
           let k3 = ChangeLevel IntOff IntOn k2 in
           if yieldOnReturn k3 then Inr (Some old, k3\<lparr>yieldOnReturn := False, status := SystemMode\<rparr>)
           else Inr (None, k3)))"

text \<open>The old level, the request to yield, and the new state.\<close>

definition SetLevel :: "('h, 'z) caller \<Rightarrow> IntStatus \<Rightarrow> ('h, 'z) IntSys_scheme \<Rightarrow>
    (IntStatus \<times> MachineStatus option \<times> ('h, 'z) IntSys_scheme) res" where
  "SetLevel call to k =
     (let old = level k in
      ASSERT (to = IntOff \<or> \<not> inHandler k)
        (let k1 = ChangeLevel old to k in
         if to = IntOn \<and> old = IntOff
         then res_bind (OneTick call k1) (\<lambda>(y, k2). Inr (old, y, k2))
         else Inr (old, None, k1)))"

definition Enable :: "('h, 'z) caller \<Rightarrow> ('h, 'z) IntSys_scheme \<Rightarrow>
    (MachineStatus option \<times> ('h, 'z) IntSys_scheme) res" where
  "Enable call k = res_bind (SetLevel call IntOn k) (\<lambda>(_, y, k'). Inr (y, k'))"

text \<open>\<open>Idle\<close> returns, or it calls \<open>Halt\<close>, which never returns: \<open>False\<close> then.\<close>

definition Idle :: "('h, 'z) caller \<Rightarrow> ('h, 'z) IntSys_scheme \<Rightarrow> (bool \<times> ('h, 'z) IntSys_scheme) res" where
  "Idle call k =
     res_bind (CheckIfDue call True (k\<lparr>status := IdleMode\<rparr>)) (\<lambda>(fired, k1).
       if fired
       then res_bind (fire_due call (Suc (length (pending k1))) k1) (\<lambda>k2.
              Inr (True, k2\<lparr>yieldOnReturn := False, status := SystemMode\<rparr>))
       else Inr (False, k1))"

section \<open>The timer device\<close>

text \<open>\<open>rnd\<close> is the value of the host's \<open>Random()\<close>.\<close>

definition TimeOfNextInterrupt :: "bool \<Rightarrow> nat \<Rightarrow> int" where
  "TimeOfNextInterrupt randomize rnd =
     (if randomize then 1 + (int rnd smod (TimerTicks * 2)) else TimerTicks)"

definition TimerInterruptHandler :: "('h, 'z) IntSys_scheme \<Rightarrow> ('h, 'z) IntSys_scheme res" where
  "TimerInterruptHandler k = (if status k \<noteq> IdleMode then YieldOnReturn k else Inr k)"

definition Timer_start :: "'h \<Rightarrow> bool \<Rightarrow> nat \<Rightarrow> ('h, 'z) IntSys_scheme \<Rightarrow> ('h, 'z) IntSys_scheme res" where
  "Timer_start timerH doRandom rnd k = Schedule timerH 0 (TimeOfNextInterrupt doRandom rnd) TimerInt k"

definition TimerExpired :: "'h \<Rightarrow> bool \<Rightarrow> nat \<Rightarrow> ('h, 'z) IntSys_scheme \<Rightarrow> ('h, 'z) IntSys_scheme res" where
  "TimerExpired timerH randomize rnd k =
     res_bind (Schedule timerH 0 (TimeOfNextInterrupt randomize rnd) TimerInt k) TimerInterruptHandler"

lemma TimeOfNextInterrupt_pos: "TimeOfNextInterrupt r n > 0"
  by (simp add: TimeOfNextInterrupt_def TimerTicks_def smod_nonneg add_pos_nonneg)

section \<open>What the simulation promises, and what it needs from the handlers\<close>

definition due :: "int \<Rightarrow> (int \<times> 'h PendingInterrupt) list \<Rightarrow> (int \<times> 'h PendingInterrupt) list" where
  "due t xs = filter (\<lambda>p. fst p \<le> t) xs"

lemma due_sorted_Cons: "sorted (map fst ((w, p) # xs)) \<Longrightarrow> t < w \<Longrightarrow> due t ((w, p) # xs) = []"
  by (force simp: due_def filter_empty_conv)

lemma due_ins_sorted: "t < w \<Longrightarrow> due t (ins_sorted w p xs) = due t xs"
  by (induction xs) (auto simp: due_def)

text \<open>The clock is the sum of its parts.\<close>

definition clock_ok :: "('h, 'z) IntSys_scheme \<Rightarrow> bool" where
  "clock_ok k = (now k = idleTicks (stats k) + systemTicks (stats k) + userTicks (stats k))"

definition pending_ok :: "('h, 'z) IntSys_scheme \<Rightarrow> bool" where
  "pending_ok k = sorted (map fst (pending k))"

definition same_clock :: "('h, 'z) IntSys_scheme \<Rightarrow> ('h, 'z) IntSys_scheme \<Rightarrow> bool" where
  "same_clock k k' = (now k' = now k \<and> idleTicks (stats k') = idleTicks (stats k) \<and>
     systemTicks (stats k') = systemTicks (stats k) \<and> userTicks (stats k') = userTicks (stats k))"

lemma same_clock_ok: "same_clock k k' \<Longrightarrow> clock_ok k' = clock_ok k"
  by (simp add: same_clock_def clock_ok_def)

text \<open>The scan that fires nothing takes the first interrupt off the list and puts it back, behind
  the others that are scheduled for the same time.\<close>

definition put_back :: "('h, 'z) IntSys_scheme \<Rightarrow> ('h, 'z) IntSys_scheme" where
  "put_back k = (case pending k of [] \<Rightarrow> k | (w, p) # rest \<Rightarrow> k\<lparr>pending := ins_sorted w p rest\<rparr>)"

definition fire_next :: "('h, 'z) caller \<Rightarrow> int \<times> 'h PendingInterrupt \<Rightarrow>
    ('h, 'z) IntSys_scheme \<Rightarrow> ('h, 'z) IntSys_scheme res" where
  "fire_next call e k = run_handler call (snd e) (k\<lparr>pending := tl (pending k)\<rparr>)"

lemma put_back_ok:
  "pending_ok k \<Longrightarrow> pending_ok (put_back k)" "same_clock k (put_back k)" "level (put_back k) = level k"
  "status (put_back k) = status k"
  by (auto simp: put_back_def pending_ok_def same_clock_def sorted_ins_sorted split: list.splits)

locale interrupt_handlers =
  fixes call :: "('h, 'z) caller"
  assumes call_fuel: "call h a k \<noteq> Inl OutOfFuel"
    and call_level: "call h a k = Inr k' \<Longrightarrow> inHandler k \<Longrightarrow> level k' = level k"
    and call_clock: "call h a k = Inr k' \<Longrightarrow> same_clock k k'"
    and call_sorted: "call h a k = Inr k' \<Longrightarrow> pending_ok k \<Longrightarrow> pending_ok k'"
    and call_future: "call h a k = Inr k' \<Longrightarrow> pending_ok k \<Longrightarrow>
      due (now k) (pending k') = due (now k) (pending k)"
begin

lemma run_handler_ok:
  assumes "run_handler call p k = Inr k'"
  shows "level k' = level k" "same_clock k k'" "status k' = status k" "\<not> inHandler k'"
    "pending_ok k \<Longrightarrow> pending_ok k'" "pending_ok k \<Longrightarrow> due (now k) (pending k') = due (now k) (pending k)"
proof -
  from assms obtain k1 k2 where
    m: "(case machine k of None \<Rightarrow> Inr k
         | Some m \<Rightarrow> res_bind (DelayedLoad 0 0 m) (\<lambda>m'. Inr (k\<lparr>machine := Some m'\<rparr>))) = Inr k1" and
    k2: "call (handler p) (arg p) (k1\<lparr>inHandler := True, status := SystemMode\<rparr>) = Inr k2" and
    k': "k' = k2\<lparr>status := status k, inHandler := False\<rparr>"
    unfolding run_handler_def res_bind_Inr_iff by blast
  from m have k1: "level k1 = level k" "same_clock k k1" "pending k1 = pending k"
    by (auto simp: res_bind_Inr_iff same_clock_def split: option.splits)
  note c = call_level [OF k2] call_clock [OF k2] call_sorted [OF k2] call_future [OF k2]
  show "level k' = level k" "same_clock k k'" "status k' = status k" "\<not> inHandler k'"
    using c k1 k' by (simp_all add: same_clock_def)
  show "pending_ok k'" if "pending_ok k" using c(3) k1 k' that by (simp add: pending_ok_def)
  show "due (now k) (pending k') = due (now k) (pending k)" if "pending_ok k"
    using c(4) k1 k' that by (simp add: pending_ok_def same_clock_def)
qed

lemma run_handler_fuel: "run_handler call p k \<noteq> Inl OutOfFuel"
  using call_fuel
  by (auto simp: run_handler_def res_bind_def DelayedLoad_def Let_def split: option.splits sum.splits if_splits)

lemma fire_next_ok:
  assumes "fire_next call e k = Inr k'" "pending k = e # rest" "pending_ok k"
  shows "level k' = level k" "same_clock k k'" "status k' = status k" "pending_ok k'"
    "due (now k) (pending k') = due (now k) rest"
proof -
  have e: "run_handler call (snd e) (k\<lparr>pending := rest\<rparr>) = Inr k'" using assms by (simp add: fire_next_def)
  have s: "pending_ok (k\<lparr>pending := rest\<rparr>)" using assms(2,3) by (simp add: pending_ok_def)
  from run_handler_ok [OF e] s show "level k' = level k" "same_clock k k'" "status k' = status k" "pending_ok k'"
    "due (now k) (pending k') = due (now k) rest"
    by (simp_all add: same_clock_def)
qed

text \<open>The loop fires exactly the interrupts that are due when it starts, in the order of the list,
  and it ends: a handler can only schedule for the future.\<close>

lemma fire_due_eq:
  "pending_ok k \<Longrightarrow> level k = IntOff \<Longrightarrow> status k \<noteq> IdleMode \<Longrightarrow> length (due (now k) (pending k)) < n \<Longrightarrow>
   fire_due call n k =
     res_bind (res_fold (fire_next call) (due (now k) (pending k)) k) (\<lambda>k'. Inr (put_back k'))"
proof (induction n arbitrary: k)
  case 0
  then show ?case by (simp add: fire_due.simps)
next
  case (Suc n)
  show ?case
  proof (cases "pending k")
    case Nil
    with Suc.prems show ?thesis by (simp add: CheckIfDue_def due_def put_back_def fire_due.simps)
  next
    case (Cons e rest)
    obtain w p where e: "e = (w, p)" by (cases e)
    show ?thesis
    proof (cases "now k < w")
      case True
      with Suc.prems(1) Cons e have "due (now k) (pending k) = []"
        by (simp add: pending_ok_def due_sorted_Cons del: sorted_simps)
      with True Cons e Suc.prems show ?thesis by (simp add: CheckIfDue_def put_back_def Let_def fire_due.simps)
    next
      case False
      then have d: "due (now k) (pending k) = e # due (now k) rest" using Cons e by (simp add: due_def)
      have c: "CheckIfDue call False k = res_bind (fire_next call e k) (\<lambda>k2. Inr (True, k2))"
        using False Cons e Suc.prems by (simp add: CheckIfDue_def fire_next_def Let_def)
      show ?thesis
      proof (cases "fire_next call e k")
        case (Inl f)
        then show ?thesis by (simp add: c d fire_due.simps)
      next
        case (Inr k1)
        note o = fire_next_ok [OF Inr Cons Suc.prems(1)]
        have now: "now k1 = now k" using o(2) by (simp add: same_clock_def)
        from Suc.IH [OF o(4)] o Suc.prems d now
        have "fire_due call n k1 = res_bind (res_fold (fire_next call) (due (now k) rest) k1) (\<lambda>k'. Inr (put_back k'))"
          by simp
        then show ?thesis by (simp add: c d Inr fire_due.simps)
      qed
    qed
  qed
qed

lemma res_fold_fire_ok:
  "res_fold (fire_next call) es k = Inr k' \<Longrightarrow> es = due (now k) (pending k) \<Longrightarrow> pending_ok k \<Longrightarrow>
   level k' = level k \<and> same_clock k k' \<and> status k' = status k \<and> pending_ok k' \<and> due (now k) (pending k') = []"
proof (induction es arbitrary: k)
  case Nil
  then show ?case by (simp add: same_clock_def)
next
  case (Cons e es)
  from Cons.prems(2,3) obtain rest where rest: "pending k = e # rest"
  proof (cases "pending k")
    case (Cons e' rest)
    obtain w p where "e' = (w, p)" by (cases e')
    with Cons.prems Cons show ?thesis using that due_sorted_Cons [of w p rest "now k"]
      by (cases "w \<le> now k") (auto simp: due_def pending_ok_def)
  qed (simp add: due_def)
  from Cons.prems(1) obtain k1 where k1: "fire_next call e k = Inr k1" "res_fold (fire_next call) es k1 = Inr k'"
    by (auto simp: res_bind_Inr_iff)
  note o = fire_next_ok [OF k1(1) rest Cons.prems(3)]
  have "e \<in> set (due (now k) (pending k))" using Cons.prems(2) by (metis list.set_intros(1))
  then have "fst e \<le> now k" by (simp add: due_def)
  then have "es = due (now k) rest" using Cons.prems(2) rest by (simp add: due_def)
  with o Cons.IH [OF k1(2)] show ?case by (auto simp: same_clock_def)
qed

lemma fire_due_ok:
  assumes "fire_due call n k = Inr k'" "pending_ok k" "level k = IntOff" "status k \<noteq> IdleMode"
    "length (due (now k) (pending k)) < n"
  shows "level k' = IntOff" "same_clock k k'" "status k' = status k" "pending_ok k'" "due (now k) (pending k') = []"
proof -
  from assms(1) fire_due_eq [OF assms(2-5)] obtain k1 where
    k1: "res_fold (fire_next call) (due (now k) (pending k)) k = Inr k1" "k' = put_back k1"
    by (auto simp: res_bind_Inr_iff)
  from res_fold_fire_ok [OF k1(1) refl assms(2)] have
    o: "level k1 = level k" "same_clock k k1" "status k1 = status k" "pending_ok k1" "due (now k) (pending k1) = []"
    by auto
  show "level k' = IntOff" "same_clock k k'" "status k' = status k" "pending_ok k'"
    using o k1(2) assms(3) put_back_ok [of k1] by (simp_all add: same_clock_def)
  show "due (now k) (pending k') = []"
  proof (cases "pending k1")
    case (Cons e rest)
    obtain w p where e: "e = (w, p)" by (cases e)
    with o(5) Cons have "now k < w" "due (now k) rest = []" by (auto simp: due_def split: if_splits)
    with Cons e k1(2) show ?thesis by (simp add: put_back_def due_ins_sorted)
  qed (use o(5) k1(2) in \<open>simp add: put_back_def\<close>)
qed

lemma CheckIfDue_keeps:
  assumes "CheckIfDue call False k = Inr (b, k')" "pending_ok k"
  shows "level k' = level k \<and> same_clock k k' \<and> pending_ok k'"
proof (cases "pending k")
  case Nil
  with assms show ?thesis by (auto simp: CheckIfDue_def ASSERT_Inr_iff same_clock_def)
next
  case (Cons e rest)
  obtain w p where e: "e = (w, p)" by (cases e)
  have r: "pending_ok (k\<lparr>pending := rest\<rparr>)" "pending_ok (k\<lparr>pending := ins_sorted w p rest\<rparr>)"
    using assms(2) Cons e by (simp_all add: pending_ok_def sorted_ins_sorted)
  from assms(1) Cons e consider
      "k' = k\<lparr>pending := ins_sorted w p rest\<rparr>" | "run_handler call p (k\<lparr>pending := rest\<rparr>) = Inr k'"
    by (auto simp: CheckIfDue_def ASSERT_Inr_iff Let_def res_bind_Inr_iff split: if_splits)
  then show ?thesis
  proof cases
    case 2
    from run_handler_ok [OF this] r(1) show ?thesis by (simp add: same_clock_def)
  qed (use r(2) in \<open>simp add: same_clock_def\<close>)
qed

lemma fire_due_keeps:
  "fire_due call n k = Inr k' \<Longrightarrow> pending_ok k \<Longrightarrow> level k' = level k \<and> same_clock k k' \<and> pending_ok k'"
proof (induction n arbitrary: k)
  case (Suc n)
  from Suc.prems(1) obtain b k1 where c: "CheckIfDue call False k = Inr (b, k1)"
    and n: "(if b then fire_due call n k1 else Inr k1) = Inr k'"
    by (auto simp: res_bind_Inr_iff fire_due.simps)
  from CheckIfDue_keeps [OF c Suc.prems(2)] n Suc.IH [of k1] show ?case
    by (cases b) (auto simp: same_clock_def)
qed (simp add: fire_due.simps)

lemma fire_due_fuel:
  "pending_ok k \<Longrightarrow> level k = IntOff \<Longrightarrow> length (due (now k) (pending k)) < n \<Longrightarrow> fire_due call n k \<noteq> Inl OutOfFuel"
proof (induction n arbitrary: k)
  case 0
  then show ?case by (simp add: fire_due.simps)
next
  case (Suc n)
  show ?case
  proof (cases "pending k")
    case Nil
    with Suc.prems show ?thesis by (simp add: CheckIfDue_def fire_due.simps)
  next
    case (Cons e rest)
    obtain w p where e: "e = (w, p)" by (cases e)
    show ?thesis
    proof (cases "now k < w \<or> (status k = IdleMode \<and> itype p = TimerInt \<and> rest = [])")
      case True
      with Cons e Suc.prems show ?thesis by (auto simp: CheckIfDue_def Let_def fire_due.simps)
    next
      case False
      then have d: "due (now k) (pending k) = e # due (now k) rest" using Cons e by (simp add: due_def)
      have c: "CheckIfDue call False k = res_bind (fire_next call e k) (\<lambda>k2. Inr (True, k2))"
        using False Cons e Suc.prems by (auto simp: CheckIfDue_def fire_next_def Let_def)
      show ?thesis
      proof (cases "fire_next call e k")
        case (Inl f)
        with run_handler_fuel [of "snd e" "k\<lparr>pending := tl (pending k)\<rparr>"] show ?thesis
          by (auto simp: c fire_next_def fire_due.simps)
      next
        case (Inr k1)
        note o = fire_next_ok [OF Inr Cons Suc.prems(1)]
        have "now k1 = now k" using o(2) by (simp add: same_clock_def)
        with Suc.IH [OF o(4)] o Suc.prems d have "fire_due call n k1 \<noteq> Inl OutOfFuel" by simp
        then show ?thesis by (simp add: c Inr fire_due.simps)
      qed
    qed
  qed
qed

lemma due_length: "length (due t xs) < Suc (length xs)"
  by (simp add: due_def less_Suc_eq_le)

lemma OneTick_ok:
  assumes "OneTick call k = Inr (y, k')" "pending_ok k" "status k \<noteq> IdleMode"
  shows "level k' = IntOn" "pending_ok k'" "due (now k') (pending k') = []"
    "now k' = now k + (if status k = SystemMode then SystemTick else UserTick)"
    "clock_ok k \<Longrightarrow> clock_ok k'" "\<not> yieldOnReturn k'"
    "status k' = (if y = None then status k else SystemMode)" "y \<noteq> None \<Longrightarrow> y = Some (status k)"
proof -
  define k1 where "k1 = ChangeLevel IntOn IntOff (k\<lparr>stats := tick_stats k\<rparr>)"
  have k1: "pending_ok k1" "level k1 = IntOff" "status k1 = status k" "pending k1 = pending k"
    "now k1 = now k + (if status k = SystemMode then SystemTick else UserTick)"
    "clock_ok k \<Longrightarrow> clock_ok k1"
    using assms(2) by (auto simp: k1_def ChangeLevel_def pending_ok_def tick_stats_def clock_ok_def)
  from assms(1) obtain k2 where k2: "fire_due call (Suc (length (pending k1))) k1 = Inr k2"
    and y: "(y, k') = (if yieldOnReturn k2 then (Some (status k), k2\<lparr>level := IntOn, yieldOnReturn := False, status := SystemMode\<rparr>)
                        else (None, k2\<lparr>level := IntOn\<rparr>))"
    unfolding OneTick_def Let_def k1_def [symmetric] res_bind_Inr_iff
    by (auto simp: ChangeLevel_def split: if_splits)
  note o = fire_due_ok [OF k2 k1(1,2) _ due_length]
  have st: "status k1 \<noteq> IdleMode" using k1(3) assms(3) by simp
  show "level k' = IntOn" "pending_ok k'" "\<not> yieldOnReturn k'"
    "status k' = (if y = None then status k else SystemMode)" "y \<noteq> None \<Longrightarrow> y = Some (status k)"
    using y o(3,4) [OF st] k1(3) by (auto simp: pending_ok_def split: if_splits)
  show n: "now k' = now k + (if status k = SystemMode then SystemTick else UserTick)"
    using y o(2) [OF st] k1(5) by (auto simp: same_clock_def split: if_splits)
  show "due (now k') (pending k') = []" using y o(5) [OF st] n k1(5) by (auto split: if_splits)
  show "clock_ok k'" if "clock_ok k"
    using y same_clock_ok [OF o(2) [OF st]] k1(6) [OF that] by (auto simp: clock_ok_def split: if_splits)
qed

lemma OneTick_fuel: "pending_ok k \<Longrightarrow> OneTick call k \<noteq> Inl OutOfFuel"
proof -
  assume "pending_ok k"
  then have "fire_due call (Suc (length (pending k))) (ChangeLevel IntOn IntOff (k\<lparr>stats := tick_stats k\<rparr>)) \<noteq> Inl OutOfFuel"
    by (intro fire_due_fuel) (simp_all add: pending_ok_def ChangeLevel_def due_length)
  then show ?thesis by (auto simp: OneTick_def Let_def ChangeLevel_def res_bind_def split: sum.splits if_splits)
qed

text \<open>With nothing to run, the clock moves to the first pending interrupt and that one fires, unless
  there is none, or only the timer is left: then the machine halts.\<close>

lemma Idle_halts:
  assumes "level k = IntOff" "pending k = [] \<or> (\<exists>w p. pending k = [(w, p)] \<and> itype p = TimerInt)"
  shows "\<exists>k'. Idle call k = Inr (False, k') \<and> pending k' = pending k"
  using assms by (auto simp: Idle_def CheckIfDue_def Let_def)

lemma Idle_resumes:
  assumes "level k = IntOff" "pending_ok k" "pending k = (w, p) # rest" "itype p \<noteq> TimerInt \<or> rest \<noteq> []"
    "Idle call k = Inr (b, k')"
  shows "b" "now k' = max (now k) w" "level k' = IntOff" "status k' = SystemMode" "clock_ok k \<Longrightarrow> clock_ok k'"
    "\<not> yieldOnReturn k'"
proof -
  define k0 where "k0 = (if w > now k
      then k\<lparr>status := IdleMode, pending := rest, stats := (stats k)\<lparr>idleTicks := idleTicks (stats k) + (w - now k), totalTicks := w\<rparr>\<rparr>
      else k\<lparr>status := IdleMode, pending := rest\<rparr>)"
  have k0: "now k0 = max (now k) w" "level k0 = IntOff" "pending_ok k0" "status k0 = IdleMode" "pending k0 = rest"
    "clock_ok k \<Longrightarrow> clock_ok k0"
    using assms(1-3) by (auto simp: k0_def pending_ok_def clock_ok_def)
  have "CheckIfDue call True (k\<lparr>status := IdleMode\<rparr>) = res_bind (run_handler call p k0) (\<lambda>k2. Inr (True, k2))"
    using assms(1,3,4) by (auto simp: CheckIfDue_def Let_def k0_def)
  with assms(5) obtain k1 k2 where
    k1: "run_handler call p k0 = Inr k1" and k2: "fire_due call (Suc (length (pending k1))) k1 = Inr k2"
    and b: "b" "k' = k2\<lparr>yieldOnReturn := False, status := SystemMode\<rparr>"
    by (auto simp: Idle_def res_bind_Inr_iff)
  note o1 = run_handler_ok [OF k1]
  note o2 = fire_due_keeps [OF k2 o1(5) [OF k0(3)]]
  have c: "same_clock k0 k2" using o1(2) o2 o1(1) k0(2) by (simp add: same_clock_def)
  show "b" by (rule b(1))
  show "now k' = max (now k) w" using c b(2) k0(1) by (simp add: same_clock_def)
  show "level k' = IntOff" using o2 o1(1) k0(2) b(2) by simp
  show "status k' = SystemMode" "\<not> yieldOnReturn k'" using b(2) by simp_all
  show "clock_ok k'" if "clock_ok k" using same_clock_ok [OF c] k0(6) [OF that] b(2) by (simp add: clock_ok_def)
qed

lemma Idle_fuel: "pending_ok k \<Longrightarrow> Idle call k \<noteq> Inl OutOfFuel"
proof -
  assume ok: "pending_ok k"
  have f: "fire_due call (Suc (length (pending k1))) k1 \<noteq> Inl OutOfFuel" if "pending_ok k1" "level k1 = IntOff" for k1
    using fire_due_fuel [OF that due_length] .
  show ?thesis
  proof (cases "CheckIfDue call True (k\<lparr>status := IdleMode\<rparr>)")
    case (Inl e)
    then have "e \<noteq> OutOfFuel" using run_handler_fuel
      by (auto simp: CheckIfDue_def ASSERT_def Let_def res_bind_def split: if_splits list.splits sum.splits)
    then show ?thesis by (simp add: Idle_def Inl)
  next
    case (Inr r)
    obtain b k1 where r: "r = (b, k1)" by (cases r)
    have "pending_ok k1 \<and> level k1 = IntOff" if b
    proof -
      from Inr r that obtain p k0 where "run_handler call p k0 = Inr k1" "pending_ok k0" "level k0 = IntOff"
        using ok
        by (auto simp: CheckIfDue_def ASSERT_Inr_iff Let_def pending_ok_def res_bind_Inr_iff
            split: if_splits list.splits)
      from run_handler_ok [OF this(1)] this(2,3) show ?thesis by simp
    qed
    with f [of k1] show ?thesis
      by (auto simp: Idle_def Inr r res_bind_def split: sum.splits)
  qed
qed

end

end
