(* ===== verification/Bitmap.thy ===== *)
theory Bitmap
  imports Prelude
begin

unbundle bit_operations_syntax

text \<open>
  The bitmap of \<open>userprog/bitmap.cc\<close>: an array of 32-bit words, one bit per item. The kernel
  allocates physical pages, process slots, semaphore slots and disk sectors with it. The
  storage comes from \<open>new unsigned int[numWords]\<close> and is not initialised, so the constructor
  takes the words found there as an argument. The locale \<open>allocator\<close> is what the clients
  rely on; it is interpreted on the word-level code at the end.
\<close>

section \<open>The class BitMap\<close>

record BitMap =
  numBits :: int
  numWords :: int
  bits :: "32 word list"

definition BitsInWord :: int where
  "BitsInWord = 32"

text \<open>\<open>map[which / BitsInWord]\<close> read and written.\<close>

definition bm_word :: "int \<Rightarrow> BitMap \<Rightarrow> 32 word res" where
  "bm_word which b = (let i = nat (which sdiv BitsInWord) in
     if i < length (bits b) then Inr (bits b ! i) else Inl OutOfBounds)"

definition bm_set_word :: "int \<Rightarrow> 32 word \<Rightarrow> BitMap \<Rightarrow> BitMap" where
  "bm_set_word which w b = b\<lparr>bits := (bits b)[nat (which sdiv BitsInWord) := w]\<rparr>"

definition bm_mask :: "int \<Rightarrow> 32 word" where
  "bm_mask which = push_bit (nat (which smod BitsInWord)) 1"

definition BitMap_Mark :: "int \<Rightarrow> BitMap \<Rightarrow> BitMap res" where
  "BitMap_Mark which b = ASSERT (which \<ge> 0 \<and> which < numBits b)
     (res_bind (bm_word which b) (\<lambda>w. Inr (bm_set_word which (w OR bm_mask which) b)))"

definition BitMap_Clear :: "int \<Rightarrow> BitMap \<Rightarrow> BitMap res" where
  "BitMap_Clear which b = ASSERT (which \<ge> 0 \<and> which < numBits b)
     (res_bind (bm_word which b) (\<lambda>w. Inr (bm_set_word which (w AND NOT (bm_mask which)) b)))"

definition BitMap_Test :: "int \<Rightarrow> BitMap \<Rightarrow> bool res" where
  "BitMap_Test which b = ASSERT (which \<ge> 0 \<and> which < numBits b)
     (res_bind (bm_word which b) (\<lambda>w. Inr (w AND bm_mask which \<noteq> 0)))"

definition BitMap_new :: "int \<Rightarrow> (nat \<Rightarrow> 32 word) \<Rightarrow> BitMap res" where
  "BitMap_new nitems garbage =
     (let nw = divRoundUp nitems BitsInWord in
      res_fold BitMap_Clear (map int [0..<nat nitems])
        \<lparr>numBits = nitems, numWords = nw, bits = map garbage [0..<nat nw]\<rparr>)"

function bm_find_from :: "int \<Rightarrow> BitMap \<Rightarrow> (int \<times> BitMap) res" where
  "bm_find_from i b =
     (if i < numBits b then res_bind (BitMap_Test i b) (\<lambda>t.
        if \<not> t then res_bind (BitMap_Mark i b) (\<lambda>b'. Inr (i, b'))
        else bm_find_from (i + 1) b)
      else Inr (-1, b))"
  by pat_completeness auto
termination
  by (relation "measure (\<lambda>(i, b). nat (numBits b - i))") auto

declare bm_find_from.simps [simp del]

definition BitMap_Find :: "BitMap \<Rightarrow> (int \<times> BitMap) res" where
  "BitMap_Find b = bm_find_from 0 b"

definition BitMap_NumClear :: "BitMap \<Rightarrow> int res" where
  "BitMap_NumClear b =
     res_fold (\<lambda>i count. res_bind (BitMap_Test i b) (\<lambda>t. Inr (if \<not> t then count + 1 else count)))
       (map int [0..<nat (numBits b)]) 0"

text \<open>The numbers \<open>Print\<close> writes, in its order.\<close>

definition BitMap_Print :: "BitMap \<Rightarrow> int list res" where
  "BitMap_Print b =
     res_fold (\<lambda>i out. res_bind (BitMap_Test i b) (\<lambda>t. Inr (if t then out @ [i] else out)))
       (map int [0..<nat (numBits b)]) []"

section \<open>The set of marked bits\<close>

definition bm_ok :: "BitMap \<Rightarrow> bool" where
  "bm_ok b = (0 \<le> numBits b \<and> numWords b = divRoundUp (numBits b) BitsInWord
              \<and> length (bits b) = nat (numWords b))"

definition bm_cap :: "BitMap \<Rightarrow> nat" where
  "bm_cap b = nat (numBits b)"

definition bm_bit :: "BitMap \<Rightarrow> nat \<Rightarrow> bool" where
  "bm_bit b i = bit (bits b ! (i div 32)) (i mod 32)"

definition bm_used :: "BitMap \<Rightarrow> nat set" where
  "bm_used b = {i. i < bm_cap b \<and> bm_bit b i}"

lemma bm_ok_word: "bm_ok b \<Longrightarrow> i < bm_cap b \<Longrightarrow> i div 32 < length (bits b)"
proof -
  assume ok: "bm_ok b" and i: "i < bm_cap b"
  have "numBits b \<le> divRoundUp (numBits b) 32 * 32"
    using ok by (intro divRoundUp_bounds(1)) (auto simp: bm_ok_def)
  with ok i have "int i < int (length (bits b)) * 32"
    by (auto simp: bm_ok_def bm_cap_def BitsInWord_def)
  then show ?thesis by (simp add: less_mult_imp_div_less)
qed

lemma bm_index: "nat (int i sdiv BitsInWord) = i div 32" "nat (int i smod BitsInWord) = i mod 32"
  by (simp_all add: BitsInWord_def sdiv_nonneg smod_nonneg nat_div_distrib nat_mod_distrib)

lemma bm_word_int: "bm_ok b \<Longrightarrow> i < bm_cap b \<Longrightarrow> bm_word (int i) b = Inr (bits b ! (i div 32))"
  by (simp add: bm_word_def bm_index bm_ok_word)

lemma bm_mask_int: "bm_mask (int i) = push_bit (i mod 32) 1"
  by (simp add: bm_mask_def bm_index)

lemma in_range: "i < bm_cap b \<longleftrightarrow> int i < numBits b"
  by (auto simp: bm_cap_def)

lemma BitMap_Test_eq: "bm_ok b \<Longrightarrow> i < bm_cap b \<Longrightarrow> BitMap_Test (int i) b = Inr (bm_bit b i)"
  by (simp add: BitMap_Test_def bm_word_int bm_mask_int bm_bit_def in_range push_bit_eq_mult
      and_exp_eq_0_iff_not_bit)

definition bm_put :: "nat \<Rightarrow> 32 word \<Rightarrow> BitMap \<Rightarrow> BitMap" where
  "bm_put i w b = b\<lparr>bits := (bits b)[i div 32 := w]\<rparr>"

lemma bm_put_frame [simp]:
  "numBits (bm_put i w b) = numBits b" "numWords (bm_put i w b) = numWords b"
  "bm_cap (bm_put i w b) = bm_cap b" "bm_ok (bm_put i w b) = bm_ok b"
  by (simp_all add: bm_put_def bm_cap_def bm_ok_def)

lemma BitMap_Mark_eq:
  "bm_ok b \<Longrightarrow> i < bm_cap b \<Longrightarrow>
   BitMap_Mark (int i) b = Inr (bm_put i (bits b ! (i div 32) OR push_bit (i mod 32) 1) b)"
  by (simp add: BitMap_Mark_def bm_word_int bm_mask_int in_range bm_set_word_def bm_index bm_put_def)

lemma BitMap_Clear_eq:
  "bm_ok b \<Longrightarrow> i < bm_cap b \<Longrightarrow>
   BitMap_Clear (int i) b = Inr (bm_put i (bits b ! (i div 32) AND NOT (push_bit (i mod 32) 1)) b)"
  by (simp add: BitMap_Clear_def bm_word_int bm_mask_int in_range bm_set_word_def bm_index bm_put_def)

lemma bit_single: "n < 32 \<Longrightarrow> bit (2 ^ n :: 32 word) m \<longleftrightarrow> m = n"
  by (auto simp: bit_exp_iff)

lemma bm_bit_mark:
  assumes "bm_ok b" "i < bm_cap b" "j < bm_cap b"
  shows "bm_bit (bm_put i (bits b ! (i div 32) OR push_bit (i mod 32) 1) b) j \<longleftrightarrow> j = i \<or> bm_bit b j"
proof (cases "j div 32 = i div 32")
  case True
  then have "j = i \<longleftrightarrow> j mod 32 = i mod 32" by (metis div_mult_mod_eq)
  with True assms show ?thesis
    by (auto simp: bm_bit_def bm_put_def bm_ok_word bit_or_iff bit_single)
next
  case False
  with assms show ?thesis by (auto simp: bm_bit_def bm_put_def)
qed

lemma bm_bit_clear:
  assumes "bm_ok b" "i < bm_cap b" "j < bm_cap b"
  shows "bm_bit (bm_put i (bits b ! (i div 32) AND NOT (push_bit (i mod 32) 1)) b) j
         \<longleftrightarrow> j \<noteq> i \<and> bm_bit b j"
proof (cases "j div 32 = i div 32")
  case True
  then have "j = i \<longleftrightarrow> j mod 32 = i mod 32" by (metis div_mult_mod_eq)
  with True assms show ?thesis
    by (auto simp: bm_bit_def bm_put_def bm_ok_word bit_and_iff bit_not_iff bit_single)
next
  case False
  with assms show ?thesis by (auto simp: bm_bit_def bm_put_def)
qed

lemma BitMap_Mark_ok:
  assumes "bm_ok b" "i < bm_cap b"
  shows "\<exists>b'. BitMap_Mark (int i) b = Inr b' \<and> bm_ok b' \<and> numBits b' = numBits b \<and>
           bm_used b' = insert i (bm_used b)"
  using assms bm_bit_mark [OF assms]
  by (auto simp: BitMap_Mark_eq bm_used_def)

lemma BitMap_Clear_ok:
  assumes "bm_ok b" "i < bm_cap b"
  shows "\<exists>b'. BitMap_Clear (int i) b = Inr b' \<and> bm_ok b' \<and> numBits b' = numBits b \<and>
           bm_used b' = bm_used b - {i}"
  using assms bm_bit_clear [OF assms]
  by (auto simp: BitMap_Clear_eq bm_used_def)

text \<open>Clearing the first \<open>n\<close> bits, as the constructor does.\<close>

lemma clear_upto_ok:
  "bm_ok b \<Longrightarrow> n \<le> bm_cap b \<Longrightarrow>
   \<exists>b'. res_fold BitMap_Clear (map int [m..<n]) b = Inr b' \<and> bm_ok b' \<and> numBits b' = numBits b \<and>
        bm_used b' = bm_used b - {m..<n}"
proof (induction "n - m" arbitrary: m b)
  case 0
  then show ?case by auto
next
  case (Suc d)
  then have m: "m < n" and up: "[m..<n] = m # [Suc m..<n]" by (auto simp: upt_conv_Cons)
  from m Suc.prems BitMap_Clear_ok [of b m] obtain b1 where
    b1: "BitMap_Clear (int m) b = Inr b1" "bm_ok b1" "numBits b1 = numBits b"
        "bm_used b1 = bm_used b - {m}" by auto
  from b1 Suc.prems have "n \<le> bm_cap b1" by (simp add: bm_cap_def)
  moreover have "d = n - Suc m" using Suc.hyps(2) by simp
  ultimately obtain b' where
    "res_fold BitMap_Clear (map int [Suc m..<n]) b1 = Inr b'" "bm_ok b'" "numBits b' = numBits b"
    "bm_used b' = bm_used b - {m} - {Suc m..<n}"
    using Suc.hyps(1) [of "Suc m" b1] b1 by auto
  moreover have "bm_used b - {m} - {Suc m..<n} = bm_used b - {m..<n}" using m by auto
  ultimately show ?case using up b1(1) by simp
qed

lemma BitMap_new_ok:
  assumes "0 \<le> nitems"
  shows "\<exists>b. BitMap_new nitems garbage = Inr b \<and> bm_ok b \<and> numBits b = nitems \<and> bm_used b = {}"
proof -
  let ?b = "\<lparr>numBits = nitems, numWords = divRoundUp nitems BitsInWord,
     bits = map garbage [0..<nat (divRoundUp nitems BitsInWord)]\<rparr>"
  have "bm_ok ?b" using assms by (simp add: bm_ok_def)
  from clear_upto_ok [OF this, of "nat nitems" 0] obtain b' where
    "res_fold BitMap_Clear (map int [0..<nat nitems]) ?b = Inr b'" "bm_ok b'"
    "numBits b' = nitems" "bm_used b' = bm_used ?b - {0..<nat nitems}"
    by (auto simp: bm_cap_def)
  moreover have "bm_used ?b - {0..<nat nitems} = {}"
    by (auto simp: bm_used_def bm_cap_def)
  ultimately show ?thesis by (auto simp: BitMap_new_def)
qed

lemma bm_find_from_ok:
  "bm_ok b \<Longrightarrow> i \<le> bm_cap b \<Longrightarrow>
   (if {i..<bm_cap b} \<subseteq> bm_used b then bm_find_from (int i) b = Inr (-1, b)
    else \<exists>j b'. bm_find_from (int i) b = Inr (int j, b') \<and> i \<le> j \<and> j < bm_cap b \<and> j \<notin> bm_used b \<and>
           {i..<j} \<subseteq> bm_used b \<and> bm_ok b' \<and> numBits b' = numBits b \<and> bm_used b' = insert j (bm_used b))"
proof (induction "bm_cap b - i" arbitrary: i)
  case 0
  then have i: "i = bm_cap b" and "\<not> int i < numBits b" by (auto simp: bm_cap_def)
  then have "bm_find_from (int i) b = Inr (-1, b)" by (subst bm_find_from.simps) simp
  then show ?case by (simp add: i)
next
  case (Suc d)
  then have i: "i < bm_cap b" by auto
  show ?case
  proof (cases "bm_bit b i")
    case True
    with i have used: "i \<in> bm_used b" by (simp add: bm_used_def)
    have step: "bm_find_from (int i) b = bm_find_from (int (Suc i)) b"
      using True i Suc.prems
      by (subst bm_find_from.simps) (simp add: BitMap_Test_eq in_range [symmetric] add.commute)
    have IH: "if {Suc i..<bm_cap b} \<subseteq> bm_used b then bm_find_from (int (Suc i)) b = Inr (-1, b)
      else \<exists>j b'. bm_find_from (int (Suc i)) b = Inr (int j, b') \<and> Suc i \<le> j \<and> j < bm_cap b \<and> j \<notin> bm_used b \<and>
           {Suc i..<j} \<subseteq> bm_used b \<and> bm_ok b' \<and> numBits b' = numBits b \<and> bm_used b' = insert j (bm_used b)"
      using Suc.hyps(2) Suc.prems i by (intro Suc.hyps(1)) auto
    have sub: "{i..<n} \<subseteq> bm_used b \<longleftrightarrow> {Suc i..<n} \<subseteq> bm_used b" for n
      using used by (auto simp: subset_iff) (metis Suc_leI le_neq_implies_less)
    show ?thesis unfolding step sub using IH by (meson Suc_leD)
  next
    case False
    with i have free: "i \<notin> bm_used b" by (simp add: bm_used_def)
    then have "\<not> {i..<bm_cap b} \<subseteq> bm_used b" using i by auto
    moreover from BitMap_Mark_ok [OF Suc.prems(1) i] obtain b' where
      b': "BitMap_Mark (int i) b = Inr b'" "bm_ok b'" "numBits b' = numBits b"
      "bm_used b' = insert i (bm_used b)" by blast
    moreover have "bm_find_from (int i) b = Inr (int i, b')"
      using False i Suc.prems b'(1)
      by (subst bm_find_from.simps) (simp add: BitMap_Test_eq in_range [symmetric])
    ultimately show ?thesis using free i by auto
  qed
qed

lemma bm_used_bound: "bm_used b \<subseteq> {..<bm_cap b}"
  by (auto simp: bm_used_def)

lemma bm_used_finite [simp]: "finite (bm_used b)"
  using bm_used_bound by (rule finite_subset) simp

lemma BitMap_Find_full:
  "bm_ok b \<Longrightarrow> bm_used b = {..<bm_cap b} \<Longrightarrow> BitMap_Find b = Inr (-1, b)"
  using bm_find_from_ok [of b 0] by (simp add: BitMap_Find_def lessThan_atLeast0)

lemma BitMap_Find_free:
  assumes "bm_ok b" "bm_used b \<noteq> {..<bm_cap b}"
  shows "\<exists>j b'. BitMap_Find b = Inr (int j, b') \<and> j < bm_cap b \<and> j \<notin> bm_used b \<and>
           {..<j} \<subseteq> bm_used b \<and> bm_ok b' \<and> numBits b' = numBits b \<and> bm_used b' = insert j (bm_used b)"
proof -
  have "\<not> {0..<bm_cap b} \<subseteq> bm_used b"
    using assms(2) bm_used_bound [of b] by (auto simp: lessThan_atLeast0)
  with bm_find_from_ok [of b 0] assms(1) show ?thesis
    by (auto simp: BitMap_Find_def lessThan_atLeast0)
qed

lemma count_clear:
  assumes "bm_ok b"
  shows "n \<le> bm_cap b \<Longrightarrow>
   res_fold (\<lambda>i count. res_bind (BitMap_Test i b) (\<lambda>t. Inr (if \<not> t then count + 1 else count)))
     (map int [m..<n]) c = Inr (c + int (card ({m..<n} - bm_used b)))"
proof (induction "n - m" arbitrary: m c)
  case 0
  then show ?case by simp
next
  case (Suc d)
  then have m: "m < n" and up: "[m..<n] = m # [Suc m..<n]" by (auto simp: upt_conv_Cons)
  have "{m..<n} = insert m {Suc m..<n}" using m by auto
  then have eq: "{m..<n} - bm_used b = (if bm_bit b m then {} else {m}) \<union> ({Suc m..<n} - bm_used b)"
    using m Suc.prems by (auto simp: bm_used_def)
  with m up Suc.prems Suc.hyps(1) [of "Suc m"] Suc.hyps(2) show ?case
    by (auto simp: BitMap_Test_eq [OF assms])
qed

lemma BitMap_NumClear_ok: "bm_ok b \<Longrightarrow> BitMap_NumClear b = Inr (int (bm_cap b - card (bm_used b)))"
proof -
  assume ok: "bm_ok b"
  have "card ({0..<bm_cap b} - bm_used b) = bm_cap b - card (bm_used b)"
    using bm_used_bound [of b] by (subst card_Diff_subset) (auto simp: lessThan_atLeast0)
  with count_clear [OF ok, of "bm_cap b" 0 0] show ?thesis
    by (simp add: BitMap_NumClear_def bm_cap_def)
qed

section \<open>The interface: an allocator of numbered slots\<close>

text \<open>
  The address spaces, the process table, the semaphore table and the file headers all use a
  bitmap the same way: take a free number, give numbers back, count the free ones.
\<close>

locale allocator =
  fixes inv :: "'s \<Rightarrow> bool"
    and cap :: "'s \<Rightarrow> nat"
    and used :: "'s \<Rightarrow> nat set"
    and find :: "'s \<Rightarrow> (int \<times> 's) res"
    and clear :: "int \<Rightarrow> 's \<Rightarrow> 's res"
    and num_clear :: "'s \<Rightarrow> int res"
  assumes used_bound: "inv s \<Longrightarrow> used s \<subseteq> {..<cap s}"
    and find_full: "inv s \<Longrightarrow> used s = {..<cap s} \<Longrightarrow> find s = Inr (-1, s)"
    and find_free: "inv s \<Longrightarrow> used s \<noteq> {..<cap s} \<Longrightarrow>
      \<exists>j s'. find s = Inr (int j, s') \<and> j < cap s \<and> j \<notin> used s \<and> {..<j} \<subseteq> used s \<and>
             inv s' \<and> cap s' = cap s \<and> used s' = insert j (used s)"
    and clear_ok: "inv s \<Longrightarrow> i < cap s \<Longrightarrow>
      \<exists>s'. clear (int i) s = Inr s' \<and> inv s' \<and> cap s' = cap s \<and> used s' = used s - {i}"
    and num_clear_ok: "inv s \<Longrightarrow> num_clear s = Inr (int (cap s - card (used s)))"
begin

lemma used_finite: "inv s \<Longrightarrow> finite (used s)"
  using used_bound finite_subset by blast

lemma card_used_le: "inv s \<Longrightarrow> card (used s) \<le> cap s"
  using card_mono [OF _ used_bound, of s] by simp

text \<open>\<open>n\<close> allocations in a row, when the count of free slots says they fit.\<close>

lemma find_n:
  "inv s \<Longrightarrow> card (used s) + n \<le> cap s \<Longrightarrow>
   \<exists>js s'. res_drain find n s = Inr (map int js, s') \<and> length js = n \<and> distinct js \<and>
          set js \<subseteq> {..<cap s} \<and> set js \<inter> used s = {} \<and>
          inv s' \<and> cap s' = cap s \<and> used s' = used s \<union> set js"
proof (induction n arbitrary: s)
  case 0
  then show ?case by (intro exI [of _ "[]"]) auto
next
  case (Suc n)
  then have "used s \<noteq> {..<cap s}" by auto
  from find_free [OF Suc.prems(1) this] obtain j s1 where
    j: "find s = Inr (int j, s1)" "j < cap s" "j \<notin> used s" "inv s1" "cap s1 = cap s"
       "used s1 = insert j (used s)" by blast
  with Suc.prems have "card (used s1) + n \<le> cap s1"
    by (simp add: used_finite)
  from Suc.IH [OF j(4) this] obtain js s' where
    js: "res_drain find n s1 = Inr (map int js, s')" "length js = n" "distinct js"
        "set js \<subseteq> {..<cap s1}" "set js \<inter> used s1 = {}" "inv s'" "cap s' = cap s1"
        "used s' = used s1 \<union> set js" by blast
  have "res_drain find (Suc n) s = Inr (map int (j # js), s')" using j(1) js(1) by simp
  moreover have "length (j # js) = Suc n" "distinct (j # js)" "set (j # js) \<subseteq> {..<cap s}"
    "set (j # js) \<inter> used s = {}" "cap s' = cap s" "used s' = used s \<union> set (j # js)"
    using j js by auto
  ultimately show ?case using js(6) by (intro exI [of _ "j # js"] exI [of _ s'] conjI)
qed

text \<open>The least free number is taken, so numbers stay below any bound that still has room.\<close>

lemma find_n_below:
  "inv s \<Longrightarrow> used s \<subseteq> {..<N} \<Longrightarrow> card (used s) + n \<le> N \<Longrightarrow> N \<le> cap s \<Longrightarrow>
   res_drain find n s = Inr (map int js, s') \<Longrightarrow> set js \<subseteq> {..<N}"
proof (induction n arbitrary: s js)
  case (Suc n)
  have "card (used s) < card {..<cap s}" using Suc.prems(3,4) by simp
  then have "used s \<noteq> {..<cap s}" by (metis less_irrefl)
  from find_free [OF Suc.prems(1) this] obtain j s1 where
    j: "find s = Inr (int j, s1)" "j \<notin> used s" "{..<j} \<subseteq> used s" "inv s1" "cap s1 = cap s"
       "used s1 = insert j (used s)" by blast
  have "card {..<j} \<le> card (used s)" using j(3) used_finite [OF Suc.prems(1)] by (rule card_mono [rotated])
  then have "j < N" using Suc.prems(3) by simp
  from Suc.prems(5) j(1) obtain ys where ys: "res_drain find n s1 = Inr (ys, s')" "map int js = int j # ys"
    by (auto simp: res_bind_Inr_iff)
  from ys(2) obtain js' where js': "js = j # js'" "ys = map int js'" by (cases js) auto
  have "card (used s1) + n \<le> N" using j(2,6) Suc.prems(1,3) by (simp add: used_finite)
  with Suc.IH [OF j(4), of js'] j Suc.prems \<open>j < N\<close> ys js' show ?case by auto
qed simp

text \<open>Giving a list of numbers back.\<close>

lemma clear_all:
  "inv s \<Longrightarrow> set js \<subseteq> {..<cap s} \<Longrightarrow>
   \<exists>s'. res_fold clear (map int js) s = Inr s' \<and> inv s' \<and> cap s' = cap s \<and> used s' = used s - set js"
proof (induction js arbitrary: s)
  case Nil
  then show ?case by simp
next
  case (Cons j js)
  from Cons.prems clear_ok [of s j] obtain s1 where
    s1: "clear (int j) s = Inr s1" "inv s1" "cap s1 = cap s" "used s1 = used s - {j}" by auto
  from Cons.prems s1 have "set js \<subseteq> {..<cap s1}" by auto
  from Cons.IH [OF s1(2) this] obtain s' where
    "res_fold clear (map int js) s1 = Inr s'" "inv s'" "cap s' = cap s1" "used s' = used s1 - set js"
    by blast
  with s1 show ?case by auto
qed

text \<open>The test \<open>NumClear() < n\<close> that the clients make is exactly whether \<open>n\<close> allocations fit.\<close>

lemma num_clear_enough:
  "inv s \<Longrightarrow> num_clear s = Inr c \<Longrightarrow> int n \<le> c \<longleftrightarrow> card (used s) + n \<le> cap s"
  using num_clear_ok [of s] card_used_le [of s] by auto

end

interpretation bitmap_alloc: allocator bm_ok bm_cap bm_used BitMap_Find BitMap_Clear BitMap_NumClear
proof (unfold_locales, goal_cases)
  case (1 s)
  show ?case by (rule bm_used_bound)
next
  case (2 s)
  then show ?case by (rule BitMap_Find_full)
next
  case (3 s)
  from BitMap_Find_free [OF 3] show ?case unfolding bm_cap_def by metis
next
  case (4 s i)
  from BitMap_Clear_ok [OF 4] show ?case unfolding bm_cap_def by metis
next
  case (5 s)
  then show ?case by (rule BitMap_NumClear_ok)
qed

section \<open>Properties\<close>

text \<open>C20. \<open>BitMap::Find\<close> on a well-formed bitmap, at the level of the 32-bit words: it returns the
  least clear bit and the new bitmap has exactly that bit marked in addition, or it returns
  -1 and changes nothing exactly when every bit is marked. It never trips its assertions or
  leaves the word array.\<close>

theorem find_allocates_least_clear_bit:
  assumes "bm_ok b"
  shows "(bm_used b = {..<bm_cap b} \<and> BitMap_Find b = Inr (-1, b)) \<or>
    (\<exists>j b'. BitMap_Find b = Inr (int j, b') \<and> j < bm_cap b \<and> \<not> bm_bit b j \<and> (\<forall>i<j. bm_bit b i) \<and>
       bm_ok b' \<and> numBits b' = numBits b \<and> bm_used b' = insert j (bm_used b))"
proof (cases "bm_used b = {..<bm_cap b}")
  case True
  with assms BitMap_Find_full show ?thesis by blast
next
  case False
  from BitMap_Find_free [OF assms this] obtain j b' where
    j: "BitMap_Find b = Inr (int j, b')" "j < bm_cap b" "j \<notin> bm_used b" "{..<j} \<subseteq> bm_used b"
       "bm_ok b'" "numBits b' = numBits b" "bm_used b' = insert j (bm_used b)" by blast
  then have "\<not> bm_bit b j" "\<forall>i<j. bm_bit b i" by (auto simp: bm_used_def)
  with j show ?thesis by blast
qed

theorem find_allocates_least_clear_bit_witness:
  "bm_ok \<lparr>numBits = 40, numWords = 2, bits = [-1, 5]\<rparr> \<and>
   (\<exists>b'. BitMap_Find \<lparr>numBits = 40, numWords = 2, bits = [-1, 5]\<rparr> = Inr (33, b') \<and>
         bm_used b' = insert 33 (bm_used \<lparr>numBits = 40, numWords = 2, bits = [-1, 5]\<rparr>))"
proof -
  let ?b = "\<lparr>numBits = 40, numWords = 2, bits = [-1, 5 :: 32 word]\<rparr>"
  have ok: "bm_ok ?b" by (simp add: bm_ok_def divRoundUp_def BitsInWord_def sdiv_nonneg smod_nonneg)
  have set33: "bm_bit ?b i" if "i < 33" for i
  proof (cases "i < 32")
    case True
    then have "i div 32 = 0" by simp
    then show ?thesis unfolding bm_bit_def by simp
  next
    case False
    with that have "i = 32" by simp
    then show ?thesis by (simp add: bm_bit_def)
  qed
  have clear33: "\<not> bm_bit ?b 33" by (simp add: bm_bit_def)
  have cap: "33 < bm_cap ?b" by (simp add: bm_cap_def)
  have "33 \<notin> bm_used ?b" using clear33 unfolding bm_used_def by blast
  with cap have "bm_used ?b \<noteq> {..<bm_cap ?b}" by blast
  with find_allocates_least_clear_bit [OF ok] obtain j b' where
    j: "BitMap_Find ?b = Inr (int j, b')" "\<not> bm_bit ?b j" "\<forall>i<j. bm_bit ?b i"
       "bm_used b' = insert j (bm_used ?b)" by blast
  from j(2,3) set33 clear33 have "j = 33" by (meson linorder_neqE_nat)
  with j(1,4) have "BitMap_Find ?b = Inr (33, b') \<and> bm_used b' = insert 33 (bm_used ?b)" by simp
  with ok show ?thesis by blast
qed

text \<open>C21. The constructor gives a bitmap of the requested size with no bit marked, whatever the
  freshly allocated words held; allocating \<open>n\<close> numbers from any well-formed bitmap with room for
  them yields \<open>n\<close> different numbers that were free, and clearing them again restores the set of
  marked bits.\<close>

theorem bitmap_alloc_free_roundtrip:
  assumes "bm_ok b" and "card (bm_used b) + n \<le> bm_cap b"
  shows "\<exists>js b1 b2. res_drain BitMap_Find n b = Inr (map int js, b1) \<and> length js = n \<and> distinct js \<and>
     set js \<inter> bm_used b = {} \<and> bm_used b1 = bm_used b \<union> set js \<and>
     res_fold BitMap_Clear (map int js) b1 = Inr b2 \<and> bm_used b2 = bm_used b"
proof -
  from bitmap_alloc.find_n [OF assms] obtain js b1 where
    js: "res_drain BitMap_Find n b = Inr (map int js, b1)" "length js = n" "distinct js"
        "set js \<subseteq> {..<bm_cap b}" "set js \<inter> bm_used b = {}" "bm_ok b1" "bm_cap b1 = bm_cap b"
        "bm_used b1 = bm_used b \<union> set js" by blast
  with bitmap_alloc.clear_all [of b1 js] obtain b2 where
    b2: "res_fold BitMap_Clear (map int js) b1 = Inr b2" "bm_used b2 = bm_used b1 - set js" by auto
  with js have "bm_used b2 = bm_used b" by auto
  with js b2 show ?thesis by blast
qed

theorem bitmap_alloc_free_roundtrip_witness:
  "\<exists>b js b1 b2. BitMap_new 128 (\<lambda>_. 7) = Inr b \<and>
     res_drain BitMap_Find 128 b = Inr (map int js, b1) \<and> length js = 128 \<and> distinct js \<and>
     bm_used b1 = set js \<and> res_fold BitMap_Clear (map int js) b1 = Inr b2 \<and> bm_used b2 = {}"
proof -
  obtain b where b: "BitMap_new 128 (\<lambda>_. 7) = Inr b" "bm_ok b" "numBits b = 128" "bm_used b = {}"
    using BitMap_new_ok [of 128] by auto
  then have "card (bm_used b) + 128 \<le> bm_cap b" by (simp add: bm_cap_def)
  from bitmap_alloc_free_roundtrip [OF b(2) this] b show ?thesis by auto
qed

end
