(* ===== verification/AddrSpace.thy ===== *)
theory AddrSpace
  imports Bitmap Machine
begin

unbundle bit_operations_syntax

text \<open>
  Address spaces (\<open>userprog/addrspace.cc\<close>): loading a NOFF executable into physical frames taken from
  the global bitmap \<open>gPhysPageBitMap\<close>, the page table handed to the machine at a context switch, and the
  destructor. The memory state \<open>AMem\<close> holds the bitmap, the value of the semaphore \<open>addrLock\<close>, the
  machine, and the next free address for page tables. \<open>addrLock->P()\<close> puts the caller to sleep when the
  value is 0; an attempt that sleeps is \<open>None\<close> here and changes nothing, and is repeated after the wake-up.
  An open executable is given by its bytes, since \<open>ReadAt\<close> of the UNIX-backed \<open>OpenFile\<close> seeks and reads as many
  bytes as there are. Memory that C++ leaves uninitialised is an argument (\<open>junk\<close>, \<open>garbage\<close>).
\<close>

section \<open>The executable\<close>

record Segment =
  virtualAddr :: "32 word"
  inFileAddr :: "32 word"
  seg_size :: "32 word"

record NoffHeader =
  noffMagic :: "32 word"
  code :: Segment
  initData :: Segment
  uninitData :: Segment

definition NOFFMAGIC :: "32 word" where "NOFFMAGIC = 0xbadfad"
definition UserStackSize :: "32 word" where "UserStackSize = 1024"

type_synonym exefile = "8 word list"

definition OpenFile_ReadAt :: "exefile \<Rightarrow> nat \<Rightarrow> int \<Rightarrow> 8 word list res" where
  "OpenFile_ReadAt f numBytes position = ASSERT (position \<ge> 0) (Inr (take numBytes (drop (nat position) f)))"

text \<open>The header as the host reads it into memory that held \<open>garbage\<close>.\<close>

definition segment_at :: "bool \<Rightarrow> (nat \<Rightarrow> 8 word) \<Rightarrow> nat \<Rightarrow> Segment" where
  "segment_at big b p = \<lparr>virtualAddr = host_load4 big b p, inFileAddr = host_load4 big b (p + 4),
     seg_size = host_load4 big b (p + 8)\<rparr>"

definition read_header :: "bool \<Rightarrow> exefile \<Rightarrow> (nat \<Rightarrow> 8 word) \<Rightarrow> NoffHeader" where
  "read_header big f garbage =
     (let b = (\<lambda>i. if i < min 40 (length f) then f ! i else garbage i) in
      \<lparr>noffMagic = host_load4 big b 0, code = segment_at big b 4, initData = segment_at big b 16,
       uninitData = segment_at big b 28\<rparr>)"

definition swap_segment :: "bool \<Rightarrow> Segment \<Rightarrow> Segment" where
  "swap_segment big s = \<lparr>virtualAddr = WordToHost big (virtualAddr s), inFileAddr = WordToHost big (inFileAddr s),
     seg_size = WordToHost big (seg_size s)\<rparr>"

definition SwapHeader :: "bool \<Rightarrow> NoffHeader \<Rightarrow> NoffHeader" where
  "SwapHeader big h = \<lparr>noffMagic = WordToHost big (noffMagic h), code = swap_segment big (code h),
     initData = swap_segment big (initData h), uninitData = swap_segment big (uninitData h)\<rparr>"

definition get_header :: "bool \<Rightarrow> exefile \<Rightarrow> (nat \<Rightarrow> 8 word) \<Rightarrow> NoffHeader" where
  "get_header big f garbage =
     (let h = read_header big f garbage in
      if noffMagic h \<noteq> NOFFMAGIC \<and> WordToHost big (noffMagic h) = NOFFMAGIC then SwapHeader big h else h)"

section \<open>State\<close>

record AddrSpace =
  as_pageTable :: "nat option"
  as_numPages :: "32 word"

record AMem =
  gPhysPageBitMap :: BitMap
  addrLock :: int
  am_machine :: Machine
  te_next :: nat

definition set_mem :: "(nat \<Rightarrow> 8 word) \<Rightarrow> AMem \<Rightarrow> AMem" where
  "set_mem mem a = a\<lparr>am_machine := (am_machine a)\<lparr>mainMemory := mem\<rparr>\<rparr>"

section \<open>Construction\<close>

definition num_pages :: "NoffHeader \<Rightarrow> 32 word" where
  "num_pages h =
     (let size = seg_size (code h) + seg_size (initData h) + seg_size (uninitData h) + UserStackSize in
      word_of_int (divRoundUp (uint size) 512))"

definition page_entry :: "nat \<Rightarrow> int \<Rightarrow> TranslationEntry" where
  "page_entry i frame = \<lparr>virtualPage = word_of_nat i, physicalPage = word_of_int frame, valid = True,
     readOnly = False, te_use = False, dirty = False\<rparr>"

text \<open>\<open>new TranslationEntry[numPages]\<close> and the loop that fills it; the array gets the address \<open>te_next\<close>.\<close>

definition setup_table :: "32 word \<Rightarrow> AMem \<Rightarrow> (int list \<times> AMem) res" where
  "setup_table n a =
     res_bind (res_drain BitMap_Find (unat n) (gPhysPageBitMap a)) (\<lambda>(fs, b').
       let tbl = map2 page_entry [0..<unat n] fs in
       Inr (fs, a\<lparr>gPhysPageBitMap := b',
              am_machine := (am_machine a)\<lparr>te_heap := (te_heap (am_machine a))(te_next a \<mapsto> tbl)\<rparr>,
              te_next := te_next a + 1\<rparr>))"

text \<open>One \<open>ReadAt\<close> into physical memory: the bytes must fit in the array \<open>mainMemory\<close>.\<close>

definition copy_in :: "8 word list \<Rightarrow> int \<Rightarrow> (nat \<Rightarrow> 8 word) \<Rightarrow> (nat \<Rightarrow> 8 word) res" where
  "copy_in bs dst mem =
     (if bs = [] then Inr mem
      else if 0 \<le> dst \<and> dst + int (length bs) \<le> MemorySize
      then Inr (\<lambda>q. if nat dst \<le> q \<and> q < nat dst + length bs then bs ! (q - nat dst) else mem q)
      else Inl OutOfBounds)"

definition load_page :: "exefile \<Rightarrow> Segment \<Rightarrow> nat \<times> int \<Rightarrow> (nat \<Rightarrow> 8 word) \<Rightarrow> (nat \<Rightarrow> 8 word) res" where
  "load_page f seg ip mem = (case ip of (i, frame) \<Rightarrow>
     res_bind (OpenFile_ReadAt f 512 (sint (inFileAddr seg) + int i * 512)) (\<lambda>bs.
       copy_in bs (sint (virtualAddr seg) + frame * 512) mem))"

definition load_segment :: "exefile \<Rightarrow> Segment \<Rightarrow> int list \<Rightarrow> AMem \<Rightarrow> AMem res" where
  "load_segment f seg fs a =
     (if sint (seg_size seg) > 0
      then res_bind (res_fold (load_page f seg) (enumerate 0 fs) (mainMemory (am_machine a))) (\<lambda>mem.
             Inr (set_mem mem a))
      else Inr a)"

definition load_image :: "exefile \<Rightarrow> NoffHeader \<Rightarrow> int list \<Rightarrow> AMem \<Rightarrow> AMem res" where
  "load_image f h fs a =
     res_bind (load_segment f (code h) fs a) (load_segment f (initData h) fs)"

text \<open>\<open>addrLock\<close>: \<open>P\<close> when it does not sleep, and \<open>V\<close>.\<close>

definition lock_V :: "AMem \<Rightarrow> AMem" where
  "lock_V a = a\<lparr>addrLock := addrLock a + 1\<rparr>"

definition with_lock :: "AMem \<Rightarrow> (AMem \<Rightarrow> 'r option res) \<Rightarrow> 'r option res" where
  "with_lock a k = (if addrLock a = 0 then Inr None else k (a\<lparr>addrLock := addrLock a - 1\<rparr>))"

text \<open>The constructor from an open file, used for the first process. \<open>junk\<close> is the object before.\<close>

definition AddrSpace_new_file :: "bool \<Rightarrow> exefile option \<Rightarrow> (nat \<Rightarrow> 8 word) \<Rightarrow> AddrSpace \<Rightarrow> AMem \<Rightarrow>
    (AddrSpace \<times> AMem) option res" where
  "AddrSpace_new_file big exe garbage junk a =
     (case exe of
        None \<Rightarrow> Inr (Some (junk, a))
      | Some f \<Rightarrow>
          let h = get_header big f garbage in
          ASSERT (noffMagic h = NOFFMAGIC) (with_lock a (\<lambda>a1.
            let n = num_pages h in
            ASSERT (n \<le> NumPhysPages)
              (res_bind (BitMap_NumClear (gPhysPageBitMap a1)) (\<lambda>c.
                 if n > word_of_int c then Inr (Some (junk\<lparr>as_numPages := 0\<rparr>, lock_V a1))
                 else res_bind (setup_table n a1) (\<lambda>(fs, a2).
                        res_bind (load_image f h fs (lock_V a2)) (\<lambda>a3.
                          Inr (Some (\<lparr>as_pageTable = Some (te_next a1), as_numPages = n\<rparr>, a3)))))))))"

text \<open>The constructor from a file name, used by \<open>Exec\<close>. After the message that there is not enough memory it
  goes on with \<open>numPages = 0\<close>: the lock is released a second time, and the file object, already deleted, is
  deleted again at the end.\<close>

definition AddrSpace_new_name :: "bool \<Rightarrow> exefile option \<Rightarrow> (nat \<Rightarrow> 8 word) \<Rightarrow> AddrSpace \<Rightarrow> AMem \<Rightarrow>
    (AddrSpace \<times> AMem) option res" where
  "AddrSpace_new_name big exe garbage junk a =
     (case exe of
        None \<Rightarrow> Inr (Some (junk, a))
      | Some f \<Rightarrow>
          let h = get_header big f garbage in
          ASSERT (noffMagic h = NOFFMAGIC) (with_lock a (\<lambda>a1.
            let n = num_pages h in
            res_bind (BitMap_NumClear (gPhysPageBitMap a1)) (\<lambda>c.
              if n > word_of_int c
              then res_bind (setup_table 0 (lock_V a1)) (\<lambda>(fs, a2).
                     let a3 = lock_V a2 in Inl DanglingPtr)
              else res_bind (setup_table n a1) (\<lambda>(fs, a2).
                     res_bind (load_image f h fs (lock_V a2)) (\<lambda>a3.
                       Inr (Some (\<lparr>as_pageTable = Some (te_next a1), as_numPages = n\<rparr>, a3))))))))"

section \<open>The other operations\<close>

definition as_table :: "AddrSpace \<Rightarrow> Machine \<Rightarrow> TranslationEntry list res" where
  "as_table sp m = (case as_pageTable sp of None \<Rightarrow> Inl NullDeref
     | Some p \<Rightarrow> (case te_heap m p of None \<Rightarrow> Inl DanglingPtr | Some tbl \<Rightarrow> Inr tbl))"

definition AddrSpace_delete :: "AddrSpace \<Rightarrow> AMem \<Rightarrow> AMem res" where
  "AddrSpace_delete sp a =
     (if as_numPages sp = 0
      then Inr (a\<lparr>am_machine := (am_machine a)\<lparr>te_heap := (case as_pageTable sp of None \<Rightarrow> te_heap (am_machine a)
                  | Some p \<Rightarrow> (te_heap (am_machine a))(p := None))\<rparr>\<rparr>)
      else res_bind (as_table sp (am_machine a)) (\<lambda>tbl.
        if unat (as_numPages sp) \<le> length tbl
        then res_bind (res_fold BitMap_Clear (map (\<lambda>e. sint (physicalPage e)) (take (unat (as_numPages sp)) tbl))
                         (gPhysPageBitMap a)) (\<lambda>b'.
               Inr (a\<lparr>gPhysPageBitMap := b',
                      am_machine := (am_machine a)\<lparr>te_heap := (te_heap (am_machine a))(the (as_pageTable sp) := None)\<rparr>\<rparr>))
        else Inl OutOfBounds))"

definition InitRegisters :: "AddrSpace \<Rightarrow> Machine \<Rightarrow> Machine res" where
  "InitRegisters sp m =
     res_bind (res_fold (\<lambda>i. WriteRegister i 0) (map int [0..<NumTotalRegs]) m) (\<lambda>m1.
     res_bind (WriteRegister (int PCReg) 0 m1) (\<lambda>m2.
     res_bind (WriteRegister (int NextPCReg) 4 m2) (\<lambda>m3.
     WriteRegister (int StackReg) (as_numPages sp * PageSize - 16) m3)))"

definition SaveState :: "AddrSpace \<Rightarrow> Machine \<Rightarrow> Machine" where
  "SaveState sp m = m"

definition RestoreState :: "AddrSpace \<Rightarrow> Machine \<Rightarrow> Machine" where
  "RestoreState sp m = m\<lparr>pageTable := as_pageTable sp, pageTableSize := as_numPages sp\<rparr>"

section \<open>The invariant of the memory system\<close>

text \<open>The live address spaces own their page tables and their frames exclusively, and the
  bitmap marks exactly the frames they own.\<close>

definition space_table :: "AMem \<Rightarrow> AddrSpace \<Rightarrow> TranslationEntry list" where
  "space_table a sp = (case as_pageTable sp of None \<Rightarrow> []
     | Some p \<Rightarrow> (case te_heap (am_machine a) p of None \<Rightarrow> [] | Some tbl \<Rightarrow> tbl))"

definition space_frames :: "AMem \<Rightarrow> AddrSpace \<Rightarrow> nat list" where
  "space_frames a sp = map (\<lambda>e. unat (physicalPage e)) (space_table a sp)"

definition space_live :: "AMem \<Rightarrow> AddrSpace \<Rightarrow> bool" where
  "space_live a sp = (\<exists>p tbl. as_pageTable sp = Some p \<and> te_heap (am_machine a) p = Some tbl \<and> p < te_next a \<and>
     length tbl = unat (as_numPages sp) \<and> (\<forall>e \<in> set tbl. valid e \<and> \<not> readOnly e))"

definition mem_inv :: "AddrSpace list \<Rightarrow> AMem \<Rightarrow> bool" where
  "mem_inv sps a = (bm_ok (gPhysPageBitMap a) \<and> bm_cap (gPhysPageBitMap a) < 2 ^ 31 \<and>
     (\<forall>sp \<in> set sps. space_live a sp) \<and> distinct (map as_pageTable sps) \<and>
     distinct (concat (map (space_frames a) sps)) \<and>
     set (concat (map (space_frames a) sps)) = bm_used (gPhysPageBitMap a))"

lemma frame_word:
  assumes "j < 2 ^ 31"
  shows "unat (word_of_int (int j) :: 32 word) = j" "sint (word_of_int (int j) :: 32 word) = int j"
proof -
  show u: "unat (word_of_int (int j) :: 32 word) = j" using assms by (simp add: unat_of_nat take_bit_eq_mod)
  have "signed_take_bit 31 (int j) = int j" using assms by (intro signed_take_bit_int_eq_self) auto
  moreover have "uint (word_of_int (int j) :: 32 word) = int j" by (metis u uint_nat)
  ultimately show "sint (word_of_int (int j) :: 32 word) = int j" by (simp add: sint_uint del: of_int_of_nat_eq)
qed

lemma map2_page_entry:
  assumes "length js = n" "\<forall>j \<in> set js. j < 2 ^ 31"
  shows "map (\<lambda>e. unat (physicalPage e)) (map2 page_entry [0..<n] (map int js)) = js"
proof (rule nth_equalityI)
  fix i assume "i < length (map (\<lambda>e. unat (physicalPage e)) (map2 page_entry [0..<n] (map int js)))"
  then have "i < length js" using assms(1) by simp
  then show "map (\<lambda>e. unat (physicalPage e)) (map2 page_entry [0..<n] (map int js)) ! i = js ! i"
    using assms frame_word(1) [of "js ! i"] by (simp add: page_entry_def)
qed (use assms(1) in simp)

lemma page_entry_ok: "e \<in> set (map2 page_entry is fs) \<Longrightarrow> valid e \<and> \<not> readOnly e"
  by (auto simp: page_entry_def)

lemma space_frames_other:
  assumes "p \<noteq> te_next a" "as_pageTable sp = Some p"
  shows "space_frames (a\<lparr>gPhysPageBitMap := b, am_machine := (am_machine a)\<lparr>te_heap := (te_heap (am_machine a))(te_next a \<mapsto> tbl)\<rparr>,
     te_next := t\<rparr>) sp = space_frames a sp"
  using assms by (simp add: space_frames_def space_table_def)

text \<open>Setting up a page table when there are enough free frames: the new space joins the live ones.\<close>

lemma setup_table_ok:
  assumes inv: "mem_inv sps a" and room: "card (bm_used (gPhysPageBitMap a)) + unat n \<le> bm_cap (gPhysPageBitMap a)"
  shows "\<exists>js a'. setup_table n a = Inr (map int js, a') \<and> length js = unat n \<and>
     mem_inv (\<lparr>as_pageTable = Some (te_next a), as_numPages = n\<rparr> # sps) a' \<and>
     space_frames a' \<lparr>as_pageTable = Some (te_next a), as_numPages = n\<rparr> = js \<and>
     mainMemory (am_machine a') = mainMemory (am_machine a) \<and> addrLock a' = addrLock a \<and>
     (\<forall>sp \<in> set sps. space_frames a' sp = space_frames a sp)"
proof -
  let ?b = "gPhysPageBitMap a" and ?sp = "\<lparr>as_pageTable = Some (te_next a), as_numPages = n\<rparr>"
  have ok: "bm_ok ?b" and cap: "bm_cap ?b < 2 ^ 31" using inv by (simp_all add: mem_inv_def)
  from bitmap_alloc.find_n [OF ok room] obtain js b' where
    d: "res_drain BitMap_Find (unat n) ?b = Inr (map int js, b')" "length js = unat n" "distinct js"
       "set js \<subseteq> {..<bm_cap ?b}" "set js \<inter> bm_used ?b = {}" "bm_ok b'" "bm_cap b' = bm_cap ?b"
       "bm_used b' = bm_used ?b \<union> set js" by blast
  define tbl where "tbl = map2 page_entry [0..<unat n] (map int js)"
  define a' where "a' = a\<lparr>gPhysPageBitMap := b',
     am_machine := (am_machine a)\<lparr>te_heap := (te_heap (am_machine a))(te_next a \<mapsto> tbl)\<rparr>, te_next := te_next a + 1\<rparr>"
  have s: "setup_table n a = Inr (map int js, a')" by (simp add: setup_table_def d(1) Let_def tbl_def a'_def)
  have js: "\<forall>j \<in> set js. j < 2 ^ 31" using d(4) cap by auto
  have new: "space_frames a' ?sp = js"
    using map2_page_entry [OF d(2) js] by (simp add: space_frames_def space_table_def a'_def tbl_def)
  have live: "space_live a' ?sp"
    using page_entry_ok d(2) by (auto simp: space_live_def a'_def tbl_def)
  have old: "space_live a' sp \<and> space_frames a' sp = space_frames a sp \<and> as_pageTable sp \<noteq> Some (te_next a)"
    if "sp \<in> set sps" for sp
  proof -
    from inv that obtain p where p: "as_pageTable sp = Some p" "p < te_next a" "space_live a sp"
      by (auto simp: mem_inv_def space_live_def)
    then have "space_frames a' sp = space_frames a sp" unfolding a'_def by (intro space_frames_other) auto
    with p show ?thesis by (auto simp: space_live_def a'_def)
  qed
  have maps: "map (space_frames a') sps = map (space_frames a) sps" using old by simp
  have "mem_inv (?sp # sps) a'" unfolding mem_inv_def
  proof (intro conjI)
    show "bm_ok (gPhysPageBitMap a')" "bm_cap (gPhysPageBitMap a') < 2 ^ 31" using d(6,7) cap by (simp_all add: a'_def)
    show "\<forall>sp \<in> set (?sp # sps). space_live a' sp" using live old by simp
    have "Some (te_next a) \<notin> as_pageTable ` set sps" using old by (metis imageE)
    then show "distinct (map as_pageTable (?sp # sps))" using inv by (simp add: mem_inv_def)
    show "distinct (concat (map (space_frames a') (?sp # sps)))"
      using inv d(3,5) by (simp add: new maps mem_inv_def del: set_concat)
    have "gPhysPageBitMap a' = b'" by (simp add: a'_def)
    then show "set (concat (map (space_frames a') (?sp # sps))) = bm_used (gPhysPageBitMap a')"
      using inv d(8) by (simp add: new maps mem_inv_def Un_commute del: set_concat)
  qed
  with s d(2) new old show ?thesis by (intro exI [of _ js] exI [of _ a']) (simp add: a'_def)
qed

lemma setup_table_cap:
  assumes "mem_inv sps a" "card (bm_used (gPhysPageBitMap a)) + unat n \<le> bm_cap (gPhysPageBitMap a)"
    "setup_table n a = Inr (fs, a')"
  shows "bm_cap (gPhysPageBitMap a') = bm_cap (gPhysPageBitMap a)"
  using assms bitmap_alloc.find_n [of "gPhysPageBitMap a" "unat n"]
  by (auto simp: setup_table_def res_bind_Inr_iff Let_def mem_inv_def)

lemma setup_table_first:
  assumes "mem_inv sps a" "bm_used (gPhysPageBitMap a) \<noteq> {..<bm_cap (gPhysPageBitMap a)}"
    "setup_table n a = Inr (map int (j # js), a')"
  shows "{..<j} \<subseteq> bm_used (gPhysPageBitMap a)"
proof -
  from assms(3) have "unat n \<noteq> 0" by (cases "unat n") (auto simp: setup_table_def)
  then obtain k where k: "unat n = Suc k" by (cases "unat n") auto
  from assms(1) have ok: "bm_ok (gPhysPageBitMap a)" by (simp add: mem_inv_def)
  from bitmap_alloc.find_free [OF this assms(2)] assms(3) show ?thesis
    by (auto simp: setup_table_def res_bind_Inr_iff Let_def k)
qed

lemma setup_table_below:
  assumes "mem_inv sps a" "bm_used (gPhysPageBitMap a) \<subseteq> {..<N}" "N \<le> bm_cap (gPhysPageBitMap a)"
    "card (bm_used (gPhysPageBitMap a)) + unat n \<le> N" "setup_table n a = Inr (map int js, a')"
  shows "set js \<subseteq> {..<N}"
proof -
  from assms(5) obtain fs b' where d: "res_drain BitMap_Find (unat n) (gPhysPageBitMap a) = Inr (fs, b')" "fs = map int js"
    by (auto simp: setup_table_def res_bind_Inr_iff Let_def)
  with assms show ?thesis
    by (intro bitmap_alloc.find_n_below [of "gPhysPageBitMap a"]) (simp_all add: mem_inv_def)
qed

text \<open>Deleting a space gives its frames back and leaves the others alone.\<close>

lemma sint_unat: "unat (w :: 32 word) < 2 ^ 31 \<Longrightarrow> sint w = int (unat w)"
  using frame_word(2) [of "unat w"] by simp

lemma space_frames_cut:
  assumes "as_pageTable sp \<noteq> Some p"
  shows "space_frames (a\<lparr>gPhysPageBitMap := b, am_machine := (am_machine a)\<lparr>te_heap := (te_heap (am_machine a))(p := None)\<rparr>\<rparr>) sp
    = space_frames a sp"
  using assms by (simp add: space_frames_def space_table_def split: option.split)

lemma AddrSpace_delete_ok:
  assumes inv: "mem_inv (sp # sps) a"
  shows "\<exists>a'. AddrSpace_delete sp a = Inr a' \<and> mem_inv sps a' \<and>
     bm_used (gPhysPageBitMap a') = bm_used (gPhysPageBitMap a) - set (space_frames a sp) \<and>
     bm_cap (gPhysPageBitMap a') = bm_cap (gPhysPageBitMap a) \<and>
     mainMemory (am_machine a') = mainMemory (am_machine a)"
proof -
  let ?b = "gPhysPageBitMap a"
  from inv obtain p tbl where p: "as_pageTable sp = Some p" "te_heap (am_machine a) p = Some tbl" "p < te_next a"
    "length tbl = unat (as_numPages sp)" by (auto simp: mem_inv_def space_live_def)
  have ok: "bm_ok ?b" and cap: "bm_cap ?b < 2 ^ 31" using inv by (simp_all add: mem_inv_def)
  have fr: "space_frames a sp = map (\<lambda>e. unat (physicalPage e)) tbl" using p by (simp add: space_frames_def space_table_def)
  have sub: "set (space_frames a sp) \<subseteq> {..<bm_cap ?b}"
    using inv bm_used_bound [of ?b] by (auto simp: mem_inv_def)
  have "sint (physicalPage e) = int (unat (physicalPage e))" if "e \<in> set tbl" for e
  proof (rule sint_unat)
    from sub that have "unat (physicalPage e) < bm_cap ?b" by (auto simp: fr)
    with cap show "unat (physicalPage e) < 2 ^ 31" by simp
  qed
  then have ints: "map (\<lambda>e. sint (physicalPage e)) tbl = map int (space_frames a sp)" by (simp add: fr)
  from bitmap_alloc.clear_all [OF ok sub] obtain b' where
    b': "res_fold BitMap_Clear (map int (space_frames a sp)) ?b = Inr b'" "bm_ok b'" "bm_cap b' = bm_cap ?b"
        "bm_used b' = bm_used ?b - set (space_frames a sp)" by blast
  define a' where "a' = a\<lparr>gPhysPageBitMap := b', am_machine := (am_machine a)\<lparr>te_heap := (te_heap (am_machine a))(p := None)\<rparr>\<rparr>"
  have "AddrSpace_delete sp a = Inr a'"
  proof (cases "as_numPages sp = 0")
    case True
    with p(4) have "tbl = []" by simp
    then have "b' = ?b" using b'(1) by (simp add: fr)
    with True p show ?thesis by (simp add: AddrSpace_delete_def a'_def)
  next
    case False
    with p b'(1) show ?thesis by (simp add: AddrSpace_delete_def as_table_def ints a'_def)
  qed
  moreover have other: "as_pageTable sp' \<noteq> Some p" if "sp' \<in> set sps" for sp'
    using inv p(1) that by (auto simp: mem_inv_def) (metis imageI)
  have maps: "map (space_frames a') sps = map (space_frames a) sps"
    unfolding a'_def using other by (simp add: space_frames_cut)
  have "mem_inv sps a'" unfolding mem_inv_def maps
  proof (intro conjI)
    show "\<forall>sp \<in> set sps. space_live a' sp"
    proof
      fix sp' assume sp': "sp' \<in> set sps"
      with inv have "space_live a sp'" by (simp add: mem_inv_def)
      with other [OF sp'] show "space_live a' sp'" by (auto simp: space_live_def a'_def)
    qed
    show "bm_ok (gPhysPageBitMap a')" "bm_cap (gPhysPageBitMap a') < 2 ^ 31" using b' cap by (simp_all add: a'_def)
    show "distinct (map as_pageTable sps)" "distinct (concat (map (space_frames a) sps))"
      using inv by (simp_all add: mem_inv_def)
    have "gPhysPageBitMap a' = b'" by (simp add: a'_def)
    moreover have "set (space_frames a sp) \<inter> set (concat (map (space_frames a) sps)) = {}"
      "set (space_frames a sp) \<union> set (concat (map (space_frames a) sps)) = bm_used ?b"
      using inv by (simp_all add: mem_inv_def del: set_concat)
    ultimately show "set (concat (map (space_frames a) sps)) = bm_used (gPhysPageBitMap a')" using b'(4) by auto
  qed
  ultimately show ?thesis using b' by (auto simp: a'_def)
qed

text \<open>Running in a space: the frames that the machine can reach are exactly those of the space.\<close>

lemma RestoreState_ok:
  assumes "space_live a sp" "tlb (am_machine a) = None"
  shows "mach_ok (RestoreState sp (am_machine a))"
    "frames (RestoreState sp (am_machine a)) = set (space_frames a sp)"
proof -
  from assms(1) obtain p tbl where p: "as_pageTable sp = Some p" "te_heap (am_machine a) p = Some tbl"
    "length tbl = unat (as_numPages sp)" "\<forall>e \<in> set tbl. valid e \<and> \<not> readOnly e"
    by (auto simp: space_live_def)
  let ?m = "RestoreState sp (am_machine a)"
  show "mach_ok ?m" using assms(2) p by (simp add: mach_ok_def RestoreState_def)
  have l: "lookup_page vpn ?m = (if vpn < as_numPages sp then Inr (physicalPage (tbl ! unat vpn), False)
      else Inl AddressErrorException)" for vpn
    using assms(2) p nth_mem [of "unat vpn" tbl]
    by (auto simp: lookup_page_def RestoreState_def Let_def word_less_nat_alt word_le_nat_alt)
  show "frames ?m = set (space_frames a sp)"
  proof (rule set_eqI)
    fix f
    have "f \<in> frames ?m \<longleftrightarrow> (\<exists>vpn. vpn < as_numPages sp \<and> f = unat (physicalPage (tbl ! unat vpn)))"
      by (auto simp: frames_def l split: if_splits)
    also have "\<dots> \<longleftrightarrow> (\<exists>i < length tbl. f = unat (physicalPage (tbl ! i)))"
    proof
      assume "\<exists>i < length tbl. f = unat (physicalPage (tbl ! i))"
      then obtain i where i: "i < unat (as_numPages sp)" "f = unat (physicalPage (tbl ! i))" using p(3) by auto
      have lt: "i < 2 ^ 32" using i(1) unsigned_less [of "as_numPages sp", where 'a = nat] by simp
      then have "unat (word_of_nat i :: 32 word) = i" by (simp add: unat_of_nat take_bit_eq_mod)
      with i show "\<exists>vpn. vpn < as_numPages sp \<and> f = unat (physicalPage (tbl ! unat vpn))"
        by (intro exI [of _ "word_of_nat i"]) (simp add: word_less_nat_alt)
    qed (auto simp: word_less_nat_alt p(3))
    also have "\<dots> \<longleftrightarrow> f \<in> set (space_frames a sp)"
      using p by (auto simp: space_frames_def space_table_def in_set_conv_nth image_iff Bex_def)
    finally show "f \<in> frames ?m \<longleftrightarrow> f \<in> set (space_frames a sp)" .
  qed
qed

section \<open>Loading\<close>

lemma copy_in_ok:
  assumes "length bs \<le> 512" "fr < 128"
  shows "\<exists>mem'. copy_in bs (int fr * 512) mem = Inr mem' \<and>
    (\<forall>j < length bs. mem' (fr * 512 + j) = bs ! j) \<and>
    (\<forall>q. q div 512 \<noteq> fr \<longrightarrow> mem' q = mem q)"
proof (cases "bs = []")
  case False
  have fits: "fr * 512 + length bs \<le> 65536" using assms by linarith
  have n: "nat (int fr * 512) = fr * 512" by (simp add: nat_mult_distrib)
  let ?mem = "\<lambda>q. if fr * 512 \<le> q \<and> q < fr * 512 + length bs then bs ! (q - fr * 512) else mem q"
  have "copy_in bs (int fr * 512) mem = Inr ?mem"
    using False fits unfolding copy_in_def n MemorySize_def by simp
  moreover have "?mem q = mem q" if "q div 512 \<noteq> fr" for q
  proof -
    have "\<not> (fr * 512 \<le> q \<and> q < fr * 512 + length bs)"
    proof
      assume "fr * 512 \<le> q \<and> q < fr * 512 + length bs"
      with assms(1) have "fr * 512 \<le> q" "q < fr * 512 + 512" by auto
      then have "q div 512 = fr" by (simp add: div_nat_eqI)
      with that show False by simp
    qed
    then show ?thesis by auto
  qed
  ultimately show ?thesis by auto
qed (simp add: copy_in_def)

text \<open>What the file holds for page \<open>i\<close> of a segment.\<close>

definition page_bytes :: "exefile \<Rightarrow> Segment \<Rightarrow> nat \<Rightarrow> 8 word list" where
  "page_bytes f seg i = take 512 (drop (unat (inFileAddr seg) + i * 512) f)"

lemma load_page_ok:
  assumes "virtualAddr seg = 0" "unat (inFileAddr seg) < 2 ^ 31" "fr < 128"
  shows "\<exists>mem'. load_page f seg (i, int fr) mem = Inr mem' \<and>
    (\<forall>j < length (page_bytes f seg i). mem' (fr * 512 + j) = page_bytes f seg i ! j) \<and>
    (\<forall>q. q div 512 \<noteq> fr \<longrightarrow> mem' q = mem q)"
proof -
  have "nat (sint (inFileAddr seg) + int i * 512) = unat (inFileAddr seg) + i * 512"
    using sint_unat [OF assms(2)] by (simp add: nat_add_distrib nat_mult_distrib)
  moreover have "0 \<le> sint (inFileAddr seg) + int i * 512" using sint_unat [OF assms(2)] by simp
  ultimately have "OpenFile_ReadAt f 512 (sint (inFileAddr seg) + int i * 512) = Inr (page_bytes f seg i)"
    by (simp add: OpenFile_ReadAt_def page_bytes_def)
  then have "load_page f seg (i, int fr) mem = copy_in (page_bytes f seg i) (int fr * 512) mem"
    using assms(1) by (simp add: load_page_def)
  moreover have "length (page_bytes f seg i) \<le> 512" by (simp add: page_bytes_def)
  ultimately show ?thesis using copy_in_ok [OF _ assms(3)] by simp
qed

lemma load_pages_ok:
  assumes "virtualAddr seg = 0" "unat (inFileAddr seg) < 2 ^ 31"
  shows "distinct js \<Longrightarrow> \<forall>fr \<in> set js. fr < 128 \<Longrightarrow>
   \<exists>mem'. res_fold (load_page f seg) (enumerate k (map int js)) mem = Inr mem' \<and>
    (\<forall>i < length js. \<forall>j < length (page_bytes f seg (k + i)). mem' (js ! i * 512 + j) = page_bytes f seg (k + i) ! j) \<and>
    (\<forall>q. q div 512 \<notin> set js \<longrightarrow> mem' q = mem q)"
proof (induction js arbitrary: k mem)
  case (Cons fr js)
  from load_page_ok [OF assms, of fr f k mem] Cons.prems(2) obtain mem1 where
    m1: "load_page f seg (k, int fr) mem = Inr mem1"
        "\<forall>j < length (page_bytes f seg k). mem1 (fr * 512 + j) = page_bytes f seg k ! j"
        "\<forall>q. q div 512 \<noteq> fr \<longrightarrow> mem1 q = mem q" by auto
  from Cons.IH [of "Suc k" mem1] Cons.prems obtain mem' where
    m': "res_fold (load_page f seg) (enumerate (Suc k) (map int js)) mem1 = Inr mem'"
        "\<forall>i < length js. \<forall>j < length (page_bytes f seg (Suc k + i)). mem' (js ! i * 512 + j) = page_bytes f seg (Suc k + i) ! j"
        "\<forall>q. q div 512 \<notin> set js \<longrightarrow> mem' q = mem1 q" by auto
  have first: "mem' (fr * 512 + j) = page_bytes f seg k ! j" if "j < length (page_bytes f seg k)" for j
  proof -
    have "j < 512" using that by (simp add: page_bytes_def)
    then have "(fr * 512 + j) div 512 = fr" by simp
    with Cons.prems(1) m'(3) m1(2) that show ?thesis by simp
  qed
  have "mem' ((fr # js) ! i * 512 + j) = page_bytes f seg (k + i) ! j"
    if "i < Suc (length js)" "j < length (page_bytes f seg (k + i))" for i j
    using that first m'(2) by (cases i) auto
  moreover have "mem' q = mem q" if "q div 512 \<notin> set (fr # js)" for q
    using that m'(3) m1(3) by simp
  ultimately show ?case using m1(1) m'(1) by (intro exI [of _ mem']) simp
qed simp

lemma mem_inv_memory:
  "mem_inv sps (set_mem mem a) = mem_inv sps a" "space_frames (set_mem mem a) sp = space_frames a sp"
proof -
  have f: "space_frames (set_mem mem a) sp = space_frames a sp" for sp
    by (simp add: space_frames_def space_table_def set_mem_def split: option.split)
  then show "space_frames (set_mem mem a) sp = space_frames a sp" .
  have "space_live (set_mem mem a) sp = space_live a sp" for sp
    by (simp add: space_live_def set_mem_def)
  then show "mem_inv sps (set_mem mem a) = mem_inv sps a"
    unfolding mem_inv_def ext [of "space_frames _" "space_frames a", OF f] by (simp add: set_mem_def)
qed

lemma mem_inv_lock:
  "mem_inv sps (a\<lparr>addrLock := v\<rparr>) = mem_inv sps a" "space_frames (a\<lparr>addrLock := v\<rparr>) sp = space_frames a sp"
proof -
  have f: "space_frames (a\<lparr>addrLock := v\<rparr>) sp = space_frames a sp" for sp
    by (simp add: space_frames_def space_table_def split: option.split)
  then show "space_frames (a\<lparr>addrLock := v\<rparr>) sp = space_frames a sp" .
  have "space_live (a\<lparr>addrLock := v\<rparr>) sp = space_live a sp" for sp
    by (simp add: space_live_def)
  then show "mem_inv sps (a\<lparr>addrLock := v\<rparr>) = mem_inv sps a"
    unfolding mem_inv_def ext [of "space_frames _" "space_frames a", OF f] by simp
qed

lemma enough_frames:
  assumes "bm_ok b" "bm_cap b < 2 ^ 31"
  shows "(\<exists>c. BitMap_NumClear b = Inr c \<and> (n > (word_of_int c :: 32 word) \<longleftrightarrow> card (bm_used b) + unat n > bm_cap b))"
proof -
  have c: "BitMap_NumClear b = Inr (int (bm_cap b - card (bm_used b)))" by (rule BitMap_NumClear_ok [OF assms(1)])
  have le: "card (bm_used b) \<le> bm_cap b" by (rule bitmap_alloc.card_used_le [OF assms(1)])
  have "bm_cap b - card (bm_used b) < 2 ^ 31" using assms(2) by simp
  from frame_word(1) [OF this] le show ?thesis unfolding c by (auto simp: word_less_nat_alt)
qed

section \<open>Properties\<close>


text \<open>The state that \<open>Initialize\<close> sets up: a bitmap of 256 bits and the lock at 1.\<close>

definition AMem_init :: "BitMap \<Rightarrow> AMem" where
  "AMem_init b = \<lparr>gPhysPageBitMap = b, addrLock = 1, am_machine = Machine_new False, te_next = 0\<rparr>"

lemma AMem_init_ok:
  assumes "bm_ok b" "bm_cap b < 2 ^ 31" "bm_used b = {}"
  shows "mem_inv [] (AMem_init b)"
  using assms by (simp add: mem_inv_def AMem_init_def)

text \<open>An executable with 8 bytes of code.\<close>

definition demo_exe :: exefile where
  "demo_exe = [0xad, 0xdf, 0xba, 0,  0, 0, 0, 0,  40, 0, 0, 0,  8, 0, 0, 0,  0, 0, 0, 0,  0, 0, 0, 0,
     0, 0, 0, 0,  0, 0, 0, 0,  0, 0, 0, 0,  0, 0, 0, 0,  1, 2, 3, 4, 5, 6, 7, 8]"

lemma demo_exe_header:
  "noffMagic (get_header False demo_exe g) = NOFFMAGIC" "virtualAddr (code (get_header False demo_exe g)) = 0"
  "inFileAddr (code (get_header False demo_exe g)) = 40" "seg_size (code (get_header False demo_exe g)) = 8"
  "seg_size (initData (get_header False demo_exe g)) = 0" "seg_size (uninitData (get_header False demo_exe g)) = 0"
  by (simp_all add: get_header_def read_header_def demo_exe_def Let_def segment_at_def host_load4_def le_word_def
      NOFFMAGIC_def WordToHost_def)


text \<open>C30. Deleting an address space returns exactly its frames to the bitmap, keeps every other live space intact
  and never trips an assertion of the bitmap.\<close>

theorem delete_reclaims_frames:
  assumes "mem_inv (sp # sps) a"
  shows "\<exists>a'. AddrSpace_delete sp a = Inr a' \<and> mem_inv sps a' \<and>
     bm_used (gPhysPageBitMap a') = bm_used (gPhysPageBitMap a) - set (space_frames a sp) \<and>
     mainMemory (am_machine a') = mainMemory (am_machine a)"
  using AddrSpace_delete_ok [OF assms] by blast

theorem delete_reclaims_frames_witness:
  "\<exists>b js a a'. BitMap_new 256 (\<lambda>_. 0) = Inr b \<and> setup_table 5 (AMem_init b) = Inr (js, a) \<and>
     AddrSpace_delete \<lparr>as_pageTable = Some 0, as_numPages = 5\<rparr> a = Inr a' \<and> bm_used (gPhysPageBitMap a') = {}"
proof -
  obtain b where b: "BitMap_new 256 (\<lambda>_. 0) = Inr b" "bm_ok b" "numBits b = 256" "bm_used b = {}"
    using BitMap_new_ok [of 256] by auto
  have inv: "mem_inv [] (AMem_init b)" using b by (intro AMem_init_ok) (simp_all add: bm_cap_def)
  from setup_table_ok [OF this, of 5] b obtain js a where
    s: "setup_table 5 (AMem_init b) = Inr (map int js, a)" "mem_inv [\<lparr>as_pageTable = Some 0, as_numPages = 5\<rparr>] a"
    by (auto simp: AMem_init_def bm_cap_def)
  from delete_reclaims_frames [OF s(2)] obtain a' where
    "AddrSpace_delete \<lparr>as_pageTable = Some 0, as_numPages = 5\<rparr> a = Inr a'" "mem_inv [] a'" by blast
  then show ?thesis using b(1) s(1) by (auto simp: mem_inv_def)
qed



text \<open>C32. The bitmap has 256 bits but there are 128 frames of memory: once the first 128 are in use, \<open>Exec\<close> still finds
  free bits, and loading the first page of code writes past the end of \<open>mainMemory\<close>.\<close>

theorem exec_beyond_memory_overruns:
  assumes inv: "mem_inv sps a" and lock: "addrLock a > 0" and full: "{..<128} \<subseteq> bm_used (gPhysPageBitMap a)"
    and magic: "noffMagic (get_header big f garbage) = NOFFMAGIC"
    and room: "card (bm_used (gPhysPageBitMap a)) + unat (num_pages (get_header big f garbage)) \<le> bm_cap (gPhysPageBitMap a)"
    and n: "num_pages (get_header big f garbage) > 0"
    and code: "virtualAddr (code (get_header big f garbage)) = 0"
      "unat (inFileAddr (code (get_header big f garbage))) < length f"
      "length f < 2 ^ 31" "sint (seg_size (code (get_header big f garbage))) > 0"
  shows "AddrSpace_new_name big (Some f) garbage junk a = Inl OutOfBounds"
proof -
  define h where "h = get_header big f garbage"
  define a1 where "a1 = a\<lparr>addrLock := addrLock a - 1\<rparr>"
  have a1: "mem_inv sps a1" "gPhysPageBitMap a1 = gPhysPageBitMap a" "te_next a1 = te_next a"
    using inv by (simp_all add: a1_def mem_inv_lock)
  have ok: "bm_ok (gPhysPageBitMap a)" "bm_cap (gPhysPageBitMap a) < 2 ^ 31" using inv by (simp_all add: mem_inv_def)
  obtain c where c: "BitMap_NumClear (gPhysPageBitMap a1) = Inr c" "\<not> num_pages h > word_of_int c"
    using enough_frames [OF ok, of "num_pages h"] room by (auto simp: a1(2) h_def)
  from setup_table_ok [OF a1(1)] room obtain js a2 where
    s: "setup_table (num_pages h) a1 = Inr (map int js, a2)" "length js = unat (num_pages h)"
       "mem_inv (\<lparr>as_pageTable = Some (te_next a), as_numPages = num_pages h\<rparr> # sps) a2"
       "space_frames a2 \<lparr>as_pageTable = Some (te_next a), as_numPages = num_pages h\<rparr> = js"
       "\<forall>sp \<in> set sps. space_frames a2 sp = space_frames a1 sp" unfolding a1(2,3) h_def [symmetric] by blast
  from n s(2) obtain j js' where js: "js = j # js'" by (cases js) (auto simp: h_def [symmetric] word_less_nat_alt)
  have "set (concat (map (space_frames a2) sps)) = bm_used (gPhysPageBitMap a)"
    using a1(1,2) s(5) by (simp add: mem_inv_def)
  moreover have "set js \<inter> set (concat (map (space_frames a2) sps)) = {}"
    using s(3,4) by (simp add: mem_inv_def del: set_concat)
  ultimately have "j \<notin> bm_used (gPhysPageBitMap a)" using js by auto
  with full have j: "128 \<le> j" by (cases "j < 128") auto
  have start: "sint (inFileAddr (code h)) = int (unat (inFileAddr (code h)))"
    using code(2,3) by (intro sint_unat) (simp add: h_def)
  have "OpenFile_ReadAt f 512 (sint (inFileAddr (code h))) = Inr (page_bytes f (code h) 0)"
    by (simp add: OpenFile_ReadAt_def page_bytes_def start del: of_nat_unat)
  moreover have "page_bytes f (code h) 0 \<noteq> []" using code(2) by (simp add: page_bytes_def h_def)
  moreover from this have "\<not> int j * 512 + int (length (page_bytes f (code h) 0)) \<le> 65536"
    using j by (simp add: not_le length_greater_0_conv [symmetric] del: length_greater_0_conv)
  ultimately have "load_page f (code h) (0, int j) mem = Inl OutOfBounds" for mem
    using code(1) [folded h_def] by (simp add: load_page_def copy_in_def MemorySize_def)
  then have "load_image f h (map int js) (lock_V a2) = Inl OutOfBounds"
    using code(4) by (simp add: load_image_def load_segment_def js h_def [symmetric])
  then show ?thesis using magic lock c s(1)
    by (simp add: AddrSpace_new_name_def Let_def h_def [symmetric] with_lock_def a1_def [symmetric] a1(3))
qed

theorem exec_beyond_memory_overruns_witness:
  "\<exists>b js a. BitMap_new 256 (\<lambda>_. 0) = Inr b \<and> setup_table 128 (AMem_init b) = Inr (js, a) \<and>
     AddrSpace_new_name False (Some demo_exe) (\<lambda>_. 0) \<lparr>as_pageTable = None, as_numPages = 0\<rparr> a = Inl OutOfBounds"
proof -
  obtain b where b: "BitMap_new 256 (\<lambda>_. 0) = Inr b" "bm_ok b" "numBits b = 256" "bm_used b = {}"
    using BitMap_new_ok [of 256] by auto
  have inv: "mem_inv [] (AMem_init b)" using b by (intro AMem_init_ok) (simp_all add: bm_cap_def)
  from setup_table_ok [OF inv, of 128] b obtain js a where
    s: "setup_table 128 (AMem_init b) = Inr (map int js, a)" "length js = 128" "addrLock a = 1"
       "mem_inv [\<lparr>as_pageTable = Some 0, as_numPages = 128\<rparr>] a"
       "space_frames a \<lparr>as_pageTable = Some 0, as_numPages = 128\<rparr> = js"
    by (auto simp: AMem_init_def bm_cap_def)
  have "set js \<subseteq> {..<128}"
    using setup_table_below [OF inv _ _ _ s(1), of 128] b by (simp add: AMem_init_def bm_cap_def)
  moreover have d: "distinct js" "set js = bm_used (gPhysPageBitMap a)" using s(4,5) by (simp_all add: mem_inv_def)
  then have "card (set js) = 128" using s(2) distinct_card by metis
  ultimately have used: "bm_used (gPhysPageBitMap a) = {..<128}"
    using card_subset_eq [of "{..<128}" "set js"] d(2) by simp
  have cap: "bm_cap (gPhysPageBitMap a) = 256" using setup_table_cap [OF inv _ s(1)] b by (simp add: AMem_init_def bm_cap_def)
  have n: "num_pages (get_header False demo_exe (\<lambda>_. 0)) = 3"
    by (simp add: num_pages_def demo_exe_header UserStackSize_def Let_def divRoundUp_def sdiv_nonneg smod_nonneg)
  have "length demo_exe = 48" by (simp add: demo_exe_def)
  then have "AddrSpace_new_name False (Some demo_exe) (\<lambda>_. 0) \<lparr>as_pageTable = None, as_numPages = 0\<rparr> a = Inl OutOfBounds"
    using s(3) used cap n by (intro exec_beyond_memory_overruns [OF s(4)]) (simp_all add: demo_exe_header)
  then show ?thesis using b(1) s(1) by auto
qed

text \<open>An executable with 8 bytes of code at address 0 and 4 bytes of data at address 512.\<close>

definition clash_exe :: exefile where
  "clash_exe = [0xad, 0xdf, 0xba, 0,  0, 0, 0, 0,  40, 0, 0, 0,  8, 0, 0, 0,  0, 2, 0, 0,  48, 0, 0, 0,
     4, 0, 0, 0,  0, 0, 0, 0,  0, 0, 0, 0,  0, 0, 0, 0,  1, 2, 3, 4, 5, 6, 7, 8,  9, 9, 9, 9]"

lemma clash_exe_header:
  "noffMagic (get_header False clash_exe g) = NOFFMAGIC"
  "code (get_header False clash_exe g) = \<lparr>virtualAddr = 0, inFileAddr = 40, seg_size = 8\<rparr>"
  "initData (get_header False clash_exe g) = \<lparr>virtualAddr = 512, inFileAddr = 48, seg_size = 4\<rparr>"
  "seg_size (uninitData (get_header False clash_exe g)) = 0"
  by (simp_all add: get_header_def read_header_def clash_exe_def Let_def segment_at_def host_load4_def le_word_def
      NOFFMAGIC_def WordToHost_def)

lemma clash_exe_read:
  "OpenFile_ReadAt clash_exe 512 40 = Inr [1, 2, 3, 4, 5, 6, 7, 8, 9, 9, 9, 9]"
  "OpenFile_ReadAt clash_exe 512 48 = Inr [9, 9, 9, 9]"
  "52 \<le> p \<Longrightarrow> OpenFile_ReadAt clash_exe 512 p = Inr []"
proof -
  assume "52 \<le> p"
  then have "length clash_exe \<le> nat p" "0 \<le> p" by (simp_all add: clash_exe_def)
  then show "OpenFile_ReadAt clash_exe 512 p = Inr []" by (simp add: OpenFile_ReadAt_def)
qed (simp_all add: OpenFile_ReadAt_def clash_exe_def)

text \<open>The state after two programs were loaded and the first one has exited.\<close>

lemma clash_state:
  "\<exists>victim a. mem_inv [victim] a \<and> set (space_frames a victim) = {1, 2} \<and> addrLock a = 1 \<and>
     bm_cap (gPhysPageBitMap a) = 256 \<and> mainMemory (am_machine a) 512 = 0"
proof -
  let ?u = "\<lparr>as_pageTable = Some 0, as_numPages = 1\<rparr>" and ?v = "\<lparr>as_pageTable = Some 1, as_numPages = 2\<rparr>"
  obtain b where b: "BitMap_new 256 (\<lambda>_. 0) = Inr b" "bm_ok b" "numBits b = 256" "bm_used b = {}"
    using BitMap_new_ok [of 256] by auto
  have inv: "mem_inv [] (AMem_init b)" using b by (intro AMem_init_ok) (simp_all add: bm_cap_def)
  from setup_table_ok [OF inv, of 1] b obtain js1 a1 where
    s1: "setup_table 1 (AMem_init b) = Inr (map int js1, a1)" "length js1 = 1" "mem_inv [?u] a1"
       "space_frames a1 ?u = js1" "addrLock a1 = 1" "mainMemory (am_machine a1) 512 = 0"
    by (auto simp: AMem_init_def bm_cap_def Machine_new_def)
  have cap1: "bm_cap (gPhysPageBitMap a1) = 256" using setup_table_cap [OF inv _ s1(1)] b by (simp add: AMem_init_def bm_cap_def)
  have next1: "te_next a1 = 1" using s1(1) by (auto simp: setup_table_def res_bind_Inr_iff Let_def AMem_init_def)
  have "set js1 \<subseteq> {..<1}" using setup_table_below [OF inv _ _ _ s1(1), of 1] b by (simp add: AMem_init_def bm_cap_def)
  then have js1: "set js1 = {0}" using s1(2) by (auto simp: length_Suc_conv)
  have used1: "bm_used (gPhysPageBitMap a1) = {0}" using s1(3,4) js1 by (simp add: mem_inv_def)
  from setup_table_ok [OF s1(3), of 2] used1 cap1 next1 obtain js2 a2 where
    s2: "setup_table 2 a1 = Inr (map int js2, a2)" "length js2 = 2" "mem_inv [?v, ?u] a2"
       "space_frames a2 ?v = js2" "addrLock a2 = 1" "mainMemory (am_machine a2) 512 = 0" "space_frames a2 ?u = js1"
    using s1 by auto
  have cap2: "bm_cap (gPhysPageBitMap a2) = 256" using setup_table_cap [OF s1(3) _ s2(1)] used1 cap1 by simp
  have "set js2 \<subseteq> {..<3}" using setup_table_below [OF s1(3) _ _ _ s2(1), of 3] used1 cap1 by simp
  moreover have "distinct js2" "0 \<notin> set js2" using s2(3,4,7) js1 by (auto simp: mem_inv_def)
  moreover have "{..<3} - {0} = {1, 2 :: nat}" by auto
  ultimately have js2: "set js2 = {1, 2}" using s2(2) card_subset_eq [of "{1, 2}" "set js2"] distinct_card [of js2] by auto
  have "mem_inv [?u, ?v] a2" using s2(3) by (auto simp: mem_inv_def)
  from AddrSpace_delete_ok [OF this] obtain a where
    a: "AddrSpace_delete ?u a2 = Inr a" "mem_inv [?v] a" "mainMemory (am_machine a) = mainMemory (am_machine a2)"
       "bm_used (gPhysPageBitMap a) = bm_used (gPhysPageBitMap a2) - set js1" "bm_cap (gPhysPageBitMap a) = 256"
    using s2(7) cap2 by auto
  have "addrLock a = 1" using a(1) s2(5) by (auto simp: AddrSpace_delete_def res_bind_Inr_iff split: if_splits)
  moreover have "bm_used (gPhysPageBitMap a2) = {0, 1, 2}" using s2(3,4,7) js1 js2 by (auto simp: mem_inv_def)
  then have "set (space_frames a ?v) = {1, 2}" using a(2,4) js1 by (auto simp: mem_inv_def)
  ultimately show ?thesis using a s2(6) by (intro exI [of _ ?v] exI [of _ a]) simp
qed

text \<open>With frame 0 first, the data of \<open>clash_exe\<close> is written to frame 1, whichever frame backs its page 1.\<close>

lemma clash_exe_load:
  "\<exists>mem. load_image clash_exe (get_header False clash_exe g) [0, x, y] a = Inr (set_mem mem a) \<and> mem 512 = 9"
proof -
  let ?c = "[1, 2, 3, 4, 5, 6, 7, 8, 9, 9, 9, 9] :: 8 word list" and ?d = "[9, 9, 9, 9] :: 8 word list"
  let ?m1 = "\<lambda>q. if q < 12 then ?c ! q else mainMemory (am_machine a) q"
  let ?m2 = "\<lambda>q. if 512 \<le> q \<and> q < 516 then ?d ! (q - 512) else ?m1 q"
  have "copy_in ?c 0 (mainMemory (am_machine a)) = Inr ?m1" "copy_in ?d 512 ?m1 = Inr ?m2"
    by (auto simp: copy_in_def MemorySize_def fun_eq_iff)
  moreover have "load_page clash_exe \<lparr>virtualAddr = 0, inFileAddr = 40, seg_size = 8\<rparr> (0, 0) mem =
      copy_in [1, 2, 3, 4, 5, 6, 7, 8, 9, 9, 9, 9] 0 mem"
    "load_page clash_exe \<lparr>virtualAddr = 512, inFileAddr = 48, seg_size = 4\<rparr> (0, 0) mem =
      copy_in [9, 9, 9, 9] 512 mem" for mem
    by (simp_all add: load_page_def clash_exe_read)
  moreover have "load_page clash_exe \<lparr>virtualAddr = v, inFileAddr = 40, seg_size = l\<rparr> (Suc i, fr) mem = Inr mem"
    "load_page clash_exe \<lparr>virtualAddr = v, inFileAddr = 48, seg_size = l\<rparr> (Suc i, fr) mem = Inr mem" for v l i fr mem
    by (simp_all add: load_page_def clash_exe_read copy_in_def)
  ultimately have "load_image clash_exe (get_header False clash_exe g) [0, x, y] a = Inr (set_mem ?m2 a)"
    by (simp add: load_image_def load_segment_def clash_exe_header set_mem_def)
  moreover have "?m2 512 = 9" by simp
  ultimately show ?thesis by blast
qed

text \<open>C33. A data segment is not placed through the page table: its first page is written to the frame that lies
  \<open>virtualAddr\<close> bytes after the first frame of the space, whoever owns it. After one program has exited below a
  running one, an \<open>Exec\<close> that succeeds overwrites the memory of the running program.\<close>

theorem exec_overwrites_running_program:
  "\<exists>victim a sp a'. mem_inv [victim] a \<and> set (space_frames a victim) = {1, 2} \<and>
     AddrSpace_new_name False (Some clash_exe) (\<lambda>_. 0) \<lparr>as_pageTable = None, as_numPages = 0\<rparr> a = Inr (Some (sp, a')) \<and>
     mem_inv [sp, victim] a' \<and> space_frames a' victim = space_frames a victim \<and>
     mainMemory (am_machine a) 512 = 0 \<and> mainMemory (am_machine a') 512 = 9"
proof -
  let ?v = "\<lparr>as_pageTable = Some 0, as_numPages = 2\<rparr>"
  obtain victim a where a: "mem_inv [victim] a" "set (space_frames a victim) = {1, 2}" "addrLock a = 1"
    "bm_cap (gPhysPageBitMap a) = 256" "mainMemory (am_machine a) 512 = 0" using clash_state by blast
  have used: "bm_used (gPhysPageBitMap a) = {1, 2}" using a(1,2) by (simp add: mem_inv_def)
  define h where "h = get_header False clash_exe (\<lambda>_. 0)"
  have n: "num_pages h = 3"
    by (simp add: h_def num_pages_def clash_exe_header UserStackSize_def Let_def divRoundUp_def sdiv_nonneg smod_nonneg)
  define a1 where "a1 = a\<lparr>addrLock := 0\<rparr>"
  have a1: "mem_inv [victim] a1" "gPhysPageBitMap a1 = gPhysPageBitMap a" "te_next a1 = te_next a"
    "\<And>sp. space_frames a1 sp = space_frames a sp" using a(1) by (simp_all add: a1_def mem_inv_lock)
  have "card (bm_used (gPhysPageBitMap a1)) + unat (3 :: 32 word) \<le> bm_cap (gPhysPageBitMap a1)"
    by (simp add: a1(2) used a(4))
  from setup_table_ok [OF a1(1) this] obtain js a2 where
    s: "setup_table 3 a1 = Inr (map int js, a2)" "length js = unat (3 :: 32 word)"
       "mem_inv [\<lparr>as_pageTable = Some (te_next a), as_numPages = 3\<rparr>, victim] a2"
       "\<forall>sp \<in> set [victim]. space_frames a2 sp = space_frames a sp"
    unfolding a1(3,4) by blast
  from s(2) have "length js = Suc (Suc (Suc 0))" by simp
  then obtain j x y where js: "js = [j, x, y]" by (auto simp: length_Suc_conv)
  have "0 \<notin> {1, 2 :: nat}" "0 \<in> {..<256 :: nat}" by simp_all
  then have "{1, 2 :: nat} \<noteq> {..<256}" by metis
  then have "{..<j} \<subseteq> {1, 2}"
    using setup_table_first [OF a1(1) _ s(1) [unfolded js]] unfolding a1(2) used a(4) by blast
  then have j: "j = 0" by (cases j) auto
  from clash_exe_load [of "\<lambda>_. 0" "int x" "int y" "lock_V a2"] obtain mem where
    mem: "load_image clash_exe h (map int js) (lock_V a2) = Inr (set_mem mem (lock_V a2))" "mem 512 = 9"
    by (auto simp: js j h_def)
  obtain c where c: "BitMap_NumClear (gPhysPageBitMap a1) = Inr c" "\<not> 3 > (word_of_int c :: 32 word)"
    using enough_frames [of "gPhysPageBitMap a" 3] a(1,4) used by (auto simp: a1(2) mem_inv_def)
  have "AddrSpace_new_name False (Some clash_exe) (\<lambda>_. 0) \<lparr>as_pageTable = None, as_numPages = 0\<rparr> a =
      Inr (Some (\<lparr>as_pageTable = Some (te_next a), as_numPages = 3\<rparr>, set_mem mem (lock_V a2)))"
    using a(3) c s(1) mem(1) clash_exe_header(1) [of "\<lambda>_. 0"]
    by (simp add: AddrSpace_new_name_def Let_def h_def [symmetric] n with_lock_def a1_def [symmetric] a1(3))
  moreover have "mem_inv [\<lparr>as_pageTable = Some (te_next a), as_numPages = 3\<rparr>, victim] (set_mem mem (lock_V a2))"
    "space_frames (set_mem mem (lock_V a2)) victim = space_frames a victim"
    using s(3,4) by (simp_all add: mem_inv_memory lock_V_def mem_inv_lock)
  moreover have "mainMemory (am_machine (set_mem mem (lock_V a2))) 512 = 9" using mem(2) by (simp add: set_mem_def)
  ultimately show ?thesis using a(1,2,5) by (intro exI conjI)
qed

end
