(* ===== verification/Threads.thy ===== *)
theory Threads
  imports Interrupt AddrSpace
begin

text \<open>
  Threads, the scheduler and semaphores (\<open>threads/thread.cc\<close>, \<open>threads/scheduler.cc\<close>,
  \<open>threads/synch.cc\<close>) on top of the interrupt simulation.

  Kernel threads are coroutines: a call of \<open>SWITCH\<close> inside \<open>Scheduler::Run\<close> leaves the running thread in the middle
  of a function, and that function goes on when another thread switches back. What a thread still has to do is
  its stack, a list of \<open>frame\<close>s: the rest of \<open>Run\<close> after \<open>SWITCH\<close>, the head of the loop in \<open>P\<close> or in \<open>Sleep\<close>, the last
  \<open>SetLevel\<close> of \<open>P\<close>, \<open>V\<close>, \<open>Fork\<close> and \<open>Yield\<close>, or a whole call. \<open>kstep\<close> runs the top frame of the current thread, and
  every source function is a definition that ends where control can be lost. \<open>OneTick\<close> at the end of a \<open>SetLevel\<close> that
  enables interrupts can ask for a \<open>Yield\<close>, so a thread can be preempted wherever interrupts are enabled.

  \<open>call\<close> runs an interrupt handler and \<open>exec\<close> an action of a client of this component (a device
  request, say), which may leave further frames to run. Threads are named by numbers in the order of their
  creation, standing for the addresses of the \<open>Thread\<close> objects. Lists are the contents of the source's \<open>List\<close>s.
\<close>

section \<open>Data\<close>

datatype ThreadStatus = JUST_CREATED | RUNNING | READY | BLOCKED

datatype 'a frame =
    FSetLevel IntStatus        \<comment> \<open>\<open>interrupt->SetLevel(oldLevel)\<close>\<close>
  | FStatus MachineStatus      \<comment> \<open>\<open>status = old\<close> at the end of \<open>OneTick\<close>\<close>
  | FRunTail                   \<comment> \<open>\<open>Scheduler::Run\<close> after \<open>SWITCH\<close>\<close>
  | FSleepLoop                 \<comment> \<open>the loop of \<open>Thread::Sleep\<close>\<close>
  | FPLoop nat                 \<comment> \<open>the loop of \<open>Semaphore::P\<close>\<close>
  | FEnable                    \<comment> \<open>\<open>InterruptEnable\<close>, the first call of \<open>ThreadRoot\<close>\<close>
  | FFinish                    \<comment> \<open>\<open>ThreadFinish\<close>, the last call of \<open>ThreadRoot\<close>\<close>
  | FP nat                     \<comment> \<open>\<open>P()\<close> of a semaphore\<close>
  | FV nat                     \<comment> \<open>\<open>V()\<close> of a semaphore\<close>
  | FYield                     \<comment> \<open>\<open>currentThread->Yield()\<close>\<close>
  | FFork "'a frame list"      \<comment> \<open>\<open>(new Thread(name))->Fork(func, arg)\<close>, with what \<open>func(arg)\<close> does\<close>
  | FTick                      \<comment> \<open>\<open>interrupt->OneTick()\<close>\<close>
  | FAct 'a                    \<comment> \<open>a step of a client\<close>

record 'a Thread =
  stack :: "32 word option"
  frames_of :: "'a frame list"
  t_status :: ThreadStatus
  processID :: int
  exitStatus :: int
  userRegisters :: "nat \<Rightarrow> 32 word"
  space :: "AddrSpace option"

record Semaphore =
  sem_value :: int
  sem_queue :: "nat list"

record ('h, 'a) TSys = "'h IntSys" +
  threads :: "nat \<rightharpoonup> 'a Thread"
  currentThread :: nat
  readyList :: "nat list"
  threadToBeDestroyed :: "nat option"
  sems :: "nat \<Rightarrow> Semaphore"
  next_thread :: nat
  halted :: bool

type_synonym ('h, 'a, 'z) tcaller = "'h \<Rightarrow> int \<Rightarrow> ('h, 'a, 'z) TSys_scheme \<Rightarrow> ('h, 'a, 'z) TSys_scheme res"
type_synonym ('h, 'a, 'z) texec = "'a \<Rightarrow> ('h, 'a, 'z) TSys_scheme \<Rightarrow> ('a frame list \<times> ('h, 'a, 'z) TSys_scheme) res"

definition STACK_FENCEPOST :: "32 word" where "STACK_FENCEPOST = 0xdeadbeef"

definition Semaphore_new :: "int \<Rightarrow> Semaphore" where
  "Semaphore_new initialValue = \<lparr>sem_value = initialValue, sem_queue = []\<rparr>"

text \<open>\<open>regs\<close> is what the new object's memory held.\<close>

definition Thread_new :: "(nat \<Rightarrow> 32 word) \<Rightarrow> 'a Thread" where
  "Thread_new regs = \<lparr>stack = None, frames_of = [], t_status = JUST_CREATED, processID = 0, exitStatus = 0,
     userRegisters = regs, space = None\<rparr>"

text \<open>Following a pointer to a thread.\<close>

definition deref :: "nat \<Rightarrow> ('h, 'a, 'z) TSys_scheme \<Rightarrow> ('a Thread \<Rightarrow> 'r res) \<Rightarrow> 'r res" where
  "deref t k c = (case threads k t of None \<Rightarrow> Inl DanglingPtr | Some x \<Rightarrow> c x)"

definition set_thread :: "nat \<Rightarrow> 'a Thread \<Rightarrow> ('h, 'a, 'z) TSys_scheme \<Rightarrow> ('h, 'a, 'z) TSys_scheme" where
  "set_thread t x k = k\<lparr>threads := (threads k)(t \<mapsto> x)\<rparr>"

text \<open>Leaving frames for the current thread to run next.\<close>

definition push :: "'a frame list \<Rightarrow> ('h, 'a, 'z) TSys_scheme \<Rightarrow> ('h, 'a, 'z) TSys_scheme" where
  "push fs k = (case threads k (currentThread k) of None \<Rightarrow> k
     | Some x \<Rightarrow> set_thread (currentThread k) (x\<lparr>frames_of := fs @ frames_of x\<rparr>) k)"

section \<open>The scheduler\<close>

definition ReadyToRun :: "nat \<Rightarrow> ('h, 'a, 'z) TSys_scheme \<Rightarrow> ('h, 'a, 'z) TSys_scheme res" where
  "ReadyToRun t k = deref t k (\<lambda>x.
     Inr ((set_thread t (x\<lparr>t_status := READY\<rparr>) k)\<lparr>readyList := readyList k @ [t]\<rparr>))"

definition FindNextToRun :: "('h, 'a, 'z) TSys_scheme \<Rightarrow> nat option \<times> ('h, 'a, 'z) TSys_scheme" where
  "FindNextToRun k = (case readyList k of [] \<Rightarrow> (None, k) | t # ts \<Rightarrow> (Some t, k\<lparr>readyList := ts\<rparr>))"

definition CheckOverflow :: "'a Thread \<Rightarrow> unit res" where
  "CheckOverflow x = (case stack x of None \<Rightarrow> Inr () | Some w \<Rightarrow> ASSERT (w = STACK_FENCEPOST) (Inr ()))"

definition SaveUserState :: "Machine \<Rightarrow> 'a Thread \<Rightarrow> 'a Thread res" where
  "SaveUserState m x = res_bind
     (res_fold (\<lambda>i regs. res_bind (ReadRegister (int i) m) (\<lambda>v. Inr (regs(i := v)))) [0..<NumTotalRegs] (userRegisters x))
     (\<lambda>regs. Inr (x\<lparr>userRegisters := regs\<rparr>))"

definition RestoreUserState :: "'a Thread \<Rightarrow> Machine \<Rightarrow> Machine res" where
  "RestoreUserState x m = res_fold (\<lambda>i. WriteRegister (int i) (userRegisters x i)) [0..<NumTotalRegs] m"

definition save_user :: "('h, 'a, 'z) TSys_scheme \<Rightarrow> 'a Thread \<Rightarrow> ('a Thread \<times> ('h, 'a, 'z) TSys_scheme) res" where
  "save_user k x = (case space x of None \<Rightarrow> Inr (x, k)
     | Some sp \<Rightarrow> (case machine k of None \<Rightarrow> Inl NullDeref
         | Some m \<Rightarrow> res_bind (SaveUserState m x) (\<lambda>x'. Inr (x', k\<lparr>machine := Some (SaveState sp m)\<rparr>))))"

text \<open>\<open>Run\<close> up to \<open>SWITCH\<close>; the old thread will go on with \<open>FRunTail\<close>.\<close>

definition Run :: "nat \<Rightarrow> ('h, 'a, 'z) TSys_scheme \<Rightarrow> ('h, 'a, 'z) TSys_scheme res" where
  "Run nextThread k =
     deref (currentThread k) k (\<lambda>x.
     res_bind (save_user k x) (\<lambda>(x1, k1).
     res_bind (CheckOverflow x1) (\<lambda>_.
       let k2 = set_thread (currentThread k) (x1\<lparr>frames_of := FRunTail # frames_of x1\<rparr>) k1 in
       deref nextThread k2 (\<lambda>y.
         Inr ((set_thread nextThread (y\<lparr>t_status := RUNNING\<rparr>) k2)\<lparr>currentThread := nextThread\<rparr>)))))"

text \<open>\<open>delete threadToBeDestroyed\<close>.\<close>

definition Thread_delete :: "nat \<Rightarrow> ('h, 'a, 'z) TSys_scheme \<Rightarrow> ('h, 'a, 'z) TSys_scheme res" where
  "Thread_delete t k = deref t k (\<lambda>x. ASSERT (t \<noteq> currentThread k) (Inr (k\<lparr>threads := (threads k)(t := None)\<rparr>)))"

text \<open>\<open>Run\<close> after \<open>SWITCH\<close>.\<close>

definition Run_tail :: "('h, 'a, 'z) TSys_scheme \<Rightarrow> ('h, 'a, 'z) TSys_scheme res" where
  "Run_tail k =
     res_bind (case threadToBeDestroyed k of None \<Rightarrow> Inr k
               | Some t \<Rightarrow> res_bind (Thread_delete t k) (\<lambda>k1. Inr (k1\<lparr>threadToBeDestroyed := None\<rparr>))) (\<lambda>k1.
     deref (currentThread k1) k1 (\<lambda>x.
       case space x of None \<Rightarrow> Inr k1
       | Some sp \<Rightarrow> (case machine k1 of None \<Rightarrow> Inl NullDeref
           | Some m \<Rightarrow> res_bind (RestoreUserState x m) (\<lambda>m'. Inr (k1\<lparr>machine := Some (RestoreState sp m')\<rparr>)))))"

section \<open>Threads\<close>

text \<open>What is left to do when \<open>OneTick\<close> asked for a \<open>Yield\<close>.\<close>

definition yield_frames :: "MachineStatus option \<Rightarrow> 'a frame list" where
  "yield_frames y = (case y of None \<Rightarrow> [] | Some old \<Rightarrow> [FYield, FStatus old])"

definition set_level :: "('h, 'a, 'z) tcaller \<Rightarrow> IntStatus \<Rightarrow> ('h, 'a, 'z) TSys_scheme \<Rightarrow> ('h, 'a, 'z) TSys_scheme res" where
  "set_level call l k = res_bind (SetLevel call l k) (\<lambda>(_, y, k'). Inr (push (yield_frames y) k'))"

text \<open>\<open>SetLevel(IntOff)\<close> never ticks: the old level and the state.\<close>

definition disable :: "('h, 'a, 'z) TSys_scheme \<Rightarrow> IntStatus \<times> ('h, 'a, 'z) TSys_scheme" where
  "disable k = (level k, ChangeLevel (level k) IntOff k)"

lemma disable_SetLevel: "SetLevel call IntOff k = Inr (fst (disable k), None, snd (disable k))"
  by (simp add: SetLevel_def disable_def Let_def)

definition Thread_Yield :: "('h, 'a, 'z) TSys_scheme \<Rightarrow> ('h, 'a, 'z) TSys_scheme res" where
  "Thread_Yield k =
     (let (oldLevel, k1) = disable k; (nextThread, k2) = FindNextToRun k1; k3 = push [FSetLevel oldLevel] k2 in
      case nextThread of None \<Rightarrow> Inr k3
      | Some t \<Rightarrow> res_bind (ReadyToRun (currentThread k3) k3) (Run t))"

text \<open>\<open>Sleep\<close>: its assertions, the change of status, and then the loop.\<close>

definition Thread_Sleep :: "('h, 'a, 'z) TSys_scheme \<Rightarrow> ('h, 'a, 'z) TSys_scheme res" where
  "Thread_Sleep k = ASSERT (level k = IntOff)
     (deref (currentThread k) k (\<lambda>x. Inr (push [FSleepLoop] (set_thread (currentThread k) (x\<lparr>t_status := BLOCKED\<rparr>) k))))"

definition Sleep_loop :: "('h, 'a, 'z) tcaller \<Rightarrow> ('h, 'a, 'z) TSys_scheme \<Rightarrow> ('h, 'a, 'z) TSys_scheme res" where
  "Sleep_loop call k = (case FindNextToRun k of
       (None, k1) \<Rightarrow> res_bind (Idle call (push [FSleepLoop] k1)) (\<lambda>(running, k2). Inr (k2\<lparr>halted := \<not> running\<rparr>))
     | (Some t, k1) \<Rightarrow> Run t k1)"

definition Thread_Finish :: "('h, 'a, 'z) TSys_scheme \<Rightarrow> ('h, 'a, 'z) TSys_scheme res" where
  "Thread_Finish k = (let (_, k1) = disable k in
     Thread_Sleep (k1\<lparr>threadToBeDestroyed := Some (currentThread k1)\<rparr>))"

text \<open>\<open>StackAllocate\<close>: the fencepost, and what \<open>ThreadRoot\<close> will do.\<close>

definition StackAllocate :: "'a frame list \<Rightarrow> 'a Thread \<Rightarrow> 'a Thread" where
  "StackAllocate body x = x\<lparr>stack := Some STACK_FENCEPOST, frames_of := FEnable # body @ [FFinish]\<rparr>"

definition Thread_Fork :: "nat \<Rightarrow> 'a frame list \<Rightarrow> ('h, 'a, 'z) TSys_scheme \<Rightarrow> ('h, 'a, 'z) TSys_scheme res" where
  "Thread_Fork t body k = deref t k (\<lambda>x.
     let (oldLevel, k1) = disable (set_thread t (StackAllocate body x) k) in
     res_bind (ReadyToRun t k1) (\<lambda>k2. Inr (push [FSetLevel oldLevel] k2)))"

definition new_thread :: "(nat \<Rightarrow> 32 word) \<Rightarrow> ('h, 'a, 'z) TSys_scheme \<Rightarrow> nat \<times> ('h, 'a, 'z) TSys_scheme" where
  "new_thread regs k = (next_thread k,
     (set_thread (next_thread k) (Thread_new regs) k)\<lparr>next_thread := next_thread k + 1\<rparr>)"

definition fork_new :: "'a frame list \<Rightarrow> ('h, 'a, 'z) TSys_scheme \<Rightarrow> ('h, 'a, 'z) TSys_scheme res" where
  "fork_new body k = (let (t, k1) = new_thread (\<lambda>_. 0) k in Thread_Fork t body k1)"

section \<open>Semaphores\<close>

definition set_sem :: "nat \<Rightarrow> Semaphore \<Rightarrow> ('h, 'a, 'z) TSys_scheme \<Rightarrow> ('h, 'a, 'z) TSys_scheme" where
  "set_sem s v k = k\<lparr>sems := (sems k)(s := v)\<rparr>"

definition Semaphore_P :: "nat \<Rightarrow> ('h, 'a, 'z) TSys_scheme \<Rightarrow> ('h, 'a, 'z) TSys_scheme" where
  "Semaphore_P s k = (let (oldLevel, k1) = disable k in push [FPLoop s, FSetLevel oldLevel] k1)"

definition P_loop :: "nat \<Rightarrow> ('h, 'a, 'z) TSys_scheme \<Rightarrow> ('h, 'a, 'z) TSys_scheme res" where
  "P_loop s k =
     (if sem_value (sems k s) = 0
      then Thread_Sleep (push [FPLoop s]
             (set_sem s ((sems k s)\<lparr>sem_queue := sem_queue (sems k s) @ [currentThread k]\<rparr>) k))
      else Inr (set_sem s ((sems k s)\<lparr>sem_value := sem_value (sems k s) - 1\<rparr>) k))"

text \<open>\<open>V\<close> between its two \<open>SetLevel\<close>s. In an interrupt handler interrupts are off, and \<open>V\<close> is just that.\<close>

definition wake :: "nat \<Rightarrow> ('h, 'a, 'z) TSys_scheme \<Rightarrow> ('h, 'a, 'z) TSys_scheme res" where
  "wake s k = res_bind
     (case sem_queue (sems k s) of [] \<Rightarrow> Inr k
      | t # ts \<Rightarrow> ReadyToRun t (set_sem s ((sems k s)\<lparr>sem_queue := ts\<rparr>) k)) (\<lambda>k1.
     Inr (set_sem s ((sems k1 s)\<lparr>sem_value := sem_value (sems k1 s) + 1\<rparr>) k1))"

definition Semaphore_V :: "nat \<Rightarrow> ('h, 'a, 'z) TSys_scheme \<Rightarrow> ('h, 'a, 'z) TSys_scheme res" where
  "Semaphore_V s k = (let (oldLevel, k1) = disable k in
     res_bind (wake s k1) (\<lambda>k2. Inr (push [FSetLevel oldLevel] k2)))"

section \<open>Running\<close>

definition run_frame :: "('h, 'a, 'z) tcaller \<Rightarrow> ('h, 'a, 'z) texec \<Rightarrow> 'a frame \<Rightarrow> ('h, 'a, 'z) TSys_scheme \<Rightarrow>
    ('h, 'a, 'z) TSys_scheme res" where
  "run_frame call exec f k = (case f of
       FSetLevel l \<Rightarrow> set_level call l k
     | FStatus st \<Rightarrow> Inr (k\<lparr>status := st\<rparr>)
     | FRunTail \<Rightarrow> Run_tail k
     | FSleepLoop \<Rightarrow> Sleep_loop call k
     | FPLoop s \<Rightarrow> P_loop s k
     | FEnable \<Rightarrow> set_level call IntOn k
     | FFinish \<Rightarrow> Thread_Finish k
     | FP s \<Rightarrow> Inr (Semaphore_P s k)
     | FV s \<Rightarrow> Semaphore_V s k
     | FYield \<Rightarrow> Thread_Yield k
     | FFork body \<Rightarrow> fork_new body k
     | FTick \<Rightarrow> res_bind (OneTick call k) (\<lambda>(y, k'). Inr (push (yield_frames y) k'))
     | FAct a \<Rightarrow> res_bind (exec a k) (\<lambda>(fs, k'). Inr (push fs k')))"

definition kstep :: "('h, 'a, 'z) tcaller \<Rightarrow> ('h, 'a, 'z) texec \<Rightarrow> ('h, 'a, 'z) TSys_scheme \<Rightarrow> ('h, 'a, 'z) TSys_scheme res" where
  "kstep call exec k = deref (currentThread k) k (\<lambda>x.
     case frames_of x of [] \<Rightarrow> Inl NullDeref
     | f # fs \<Rightarrow> run_frame call exec f (set_thread (currentThread k) (x\<lparr>frames_of := fs\<rparr>) k))"

inductive kreach :: "('h, 'a, 'z) tcaller \<Rightarrow> ('h, 'a, 'z) texec \<Rightarrow> ('h, 'a, 'z) TSys_scheme \<Rightarrow> ('h, 'a, 'z) TSys_scheme \<Rightarrow> bool"
  for call exec k where
  kreach_refl: "kreach call exec k k"
| kreach_step: "kreach call exec k k1 \<Longrightarrow> \<not> halted k1 \<Longrightarrow> kstep call exec k1 = Inr k2 \<Longrightarrow> kreach call exec k k2"

text \<open>The main thread after \<open>Initialize\<close> has started it: \<open>main\<close> runs \<open>body\<close> and then calls \<open>Finish\<close>.\<close>

definition main_thread :: "'a frame list \<Rightarrow> 'a Thread" where
  "main_thread body = (Thread_new (\<lambda>_. 0))\<lparr>t_status := RUNNING, frames_of := body @ [FFinish]\<rparr>"

section \<open>The invariant\<close>

text \<open>Frames that can stand below the top of a stack, and the rest of a thread's function.\<close>

fun plain :: "'a frame \<Rightarrow> bool" where
  "plain (FSetLevel l) = True"
| "plain (FStatus st) = (st \<noteq> IdleMode)"
| "plain (FP s) = True"
| "plain (FV s) = True"
| "plain FYield = True"
| "plain (FFork b) = list_all plain b"
| "plain FTick = True"
| "plain (FAct a) = True"
| "plain f = False"

primrec body :: "'a frame list \<Rightarrow> bool" where
  "body [] = False"
| "body (f # fs) = (f = FFinish \<and> fs = [] \<or> plain f \<and> body fs)"

lemma body_append: "list_all plain gs \<Longrightarrow> body fs \<Longrightarrow> body (gs @ fs)"
  by (induction gs) auto

definition resume_ok :: "'a frame list \<Rightarrow> bool" where
  "resume_ok fs = (body fs \<or> (\<exists>s r. fs = FPLoop s # r \<and> body r))"

definition parked_ok :: "'a frame list \<Rightarrow> bool" where
  "parked_ok fs = (\<exists>r. fs = FEnable # r \<and> body r \<or> fs = FRunTail # r \<and> resume_ok r)"

definition asleep_ok :: "'a frame \<Rightarrow> 'a frame list \<Rightarrow> bool" where
  "asleep_ok g fs = (fs = [g] \<or> (\<exists>s r. fs = g # FPLoop s # r \<and> body r))"

text \<open>The stack of a thread with a given status; \<open>cur\<close> says that it is the current one.\<close>

definition stack_ok :: "bool \<Rightarrow> 'a Thread \<Rightarrow> bool" where
  "stack_ok cur x = (case t_status x of
       JUST_CREATED \<Rightarrow> False
     | RUNNING \<Rightarrow> cur \<and> (resume_ok (frames_of x) \<or> parked_ok (frames_of x))
     | READY \<Rightarrow> (if cur then \<exists>s r. frames_of x = FSleepLoop # FPLoop s # r \<and> body r else parked_ok (frames_of x))
     | BLOCKED \<Rightarrow> asleep_ok (if cur then FSleepLoop else FRunTail) (frames_of x))"

definition waits_for :: "'a Thread \<Rightarrow> nat \<Rightarrow> bool" where
  "waits_for x s = (t_status x = BLOCKED \<and> (\<exists>g r. frames_of x = g # FPLoop s # r))"

definition thread_ok :: "nat option \<Rightarrow> ('h, 'a, 'z) TSys_scheme \<Rightarrow> nat \<Rightarrow> 'a Thread \<Rightarrow> bool" where
  "thread_ok c k t x = ((t \<in> set (readyList k) \<longleftrightarrow> t_status x = READY) \<and>
     (\<forall>s. t \<in> set (sem_queue (sems k s)) \<longleftrightarrow> waits_for x s) \<and> stack_ok (c = Some t) x \<and>
     stack x \<in> {None, Some STACK_FENCEPOST} \<and> t < next_thread k)"

text \<open>Every thread is in exactly the place its status says: the ready threads are in the ready list, once, the
  blocked ones in the queue of the semaphore they wait for, once, or finished; \<open>c\<close> is the running one, if any.\<close>

definition tinv :: "nat option \<Rightarrow> ('h, 'a, 'z) TSys_scheme \<Rightarrow> bool" where
  "tinv c k = (distinct (readyList k) \<and> (\<forall>s. distinct (sem_queue (sems k s))) \<and>
     set (readyList k) \<subseteq> dom (threads k) \<and> (\<forall>s. set (sem_queue (sems k s)) \<subseteq> dom (threads k)) \<and>
     (\<forall>t x. threads k t = Some x \<longrightarrow> thread_ok c k t x) \<and>
     (\<forall>t. threadToBeDestroyed k = Some t \<longrightarrow>
        (\<exists>x g. threads k t = Some x \<and> t_status x = BLOCKED \<and> frames_of x = [g])) \<and>
     (\<forall>t. c = Some t \<longrightarrow> t \<in> dom (threads k)))"

lemma tinvI:
  assumes "distinct (readyList k)" "\<And>s. distinct (sem_queue (sems k s))"
    "\<And>t. t \<in> set (readyList k) \<Longrightarrow> threads k t \<noteq> None"
    "\<And>s t. t \<in> set (sem_queue (sems k s)) \<Longrightarrow> threads k t \<noteq> None"
    "\<And>t x. threads k t = Some x \<Longrightarrow> thread_ok c k t x"
    "\<And>t. threadToBeDestroyed k = Some t \<Longrightarrow> \<exists>x g. threads k t = Some x \<and> t_status x = BLOCKED \<and> frames_of x = [g]"
    "\<And>t. c = Some t \<Longrightarrow> threads k t \<noteq> None"
  shows "tinv c k"
  using assms unfolding tinv_def by blast

lemma tinvD:
  assumes "tinv c k"
  shows "distinct (readyList k)" "distinct (sem_queue (sems k s))"
    "t \<in> set (readyList k) \<Longrightarrow> threads k t \<noteq> None" "t \<in> set (sem_queue (sems k s)) \<Longrightarrow> threads k t \<noteq> None"
    "threads k t = Some x \<Longrightarrow> thread_ok c k t x"
    "threadToBeDestroyed k = Some t \<Longrightarrow> \<exists>x g. threads k t = Some x \<and> t_status x = BLOCKED \<and> frames_of x = [g]"
    "c = Some t \<Longrightarrow> threads k t \<noteq> None"
  using assms unfolding tinv_def by blast+

text \<open>The invariant only looks at the threads and semaphores.\<close>

definition tview :: "('h, 'a, 'z) TSys_scheme \<Rightarrow>
    (nat \<rightharpoonup> 'a Thread) \<times> nat list \<times> nat option \<times> (nat \<Rightarrow> nat list) \<times> nat" where
  "tview k = (threads k, readyList k, threadToBeDestroyed k, \<lambda>s. sem_queue (sems k s), next_thread k)"

lemma tinv_cong:
  assumes "tview k' = tview k"
  shows "tinv c k' = tinv c k"
proof -
  from assms have "threads k' = threads k" "readyList k' = readyList k" "next_thread k' = next_thread k"
    "threadToBeDestroyed k' = threadToBeDestroyed k" "\<And>s. sem_queue (sems k' s) = sem_queue (sems k s)"
    by (simp_all add: tview_def) metis
  then show ?thesis unfolding tinv_def thread_ok_def by simp
qed

text \<open>Changing one thread, with its places in the lists.\<close>

lemma tinv_update:
  assumes inv: "tinv c k" and th: "threads k' = (threads k)(t \<mapsto> x)"
    and ready: "distinct (readyList k')" "set (readyList k') - {t} = set (readyList k) - {t}"
    and queue: "\<And>s. distinct (sem_queue (sems k' s))"
      "\<And>s. set (sem_queue (sems k' s)) - {t} = set (sem_queue (sems k s)) - {t}"
    and cur: "\<And>u. u \<noteq> t \<Longrightarrow> c' = Some u \<longleftrightarrow> c = Some u"
    and tbd: "\<And>u. threadToBeDestroyed k' = Some u \<Longrightarrow>
      (if u = t then t_status x = BLOCKED \<and> (\<exists>g. frames_of x = [g]) else threadToBeDestroyed k = Some u)"
    and new: "thread_ok c' k' t x" "next_thread k \<le> next_thread k'"
  shows "tinv c' k'"
proof (rule tinvI)
  have mem: "u \<in> set (readyList k') \<longleftrightarrow> u \<in> set (readyList k)"
    "u \<in> set (sem_queue (sems k' s)) \<longleftrightarrow> u \<in> set (sem_queue (sems k s))" if "u \<noteq> t" for u s
    using ready(2) queue(2) [of s] that by blast+
  fix u
  show "threads k' u \<noteq> None" if "u \<in> set (readyList k')"
    using that mem(1) [of u] tinvD(3) [OF inv, of u] th by (cases "u = t") auto
  show "threads k' u \<noteq> None" if "u \<in> set (sem_queue (sems k' s))" for s
    using that mem(2) [of u s] tinvD(4) [OF inv, of u s] th by (cases "u = t") auto
  show "thread_ok c' k' u y" if "threads k' u = Some y" for y
  proof (cases "u = t")
    case False
    with that th tinvD(5) [OF inv, of u y] have "thread_ok c k u y" by simp
    with False mem [OF False] cur [OF False] new(2) show ?thesis by (auto simp: thread_ok_def)
  qed (use that th new(1) in auto)
  show "\<exists>x g. threads k' u = Some x \<and> t_status x = BLOCKED \<and> frames_of x = [g]" if "threadToBeDestroyed k' = Some u"
    using tbd [OF that] tinvD(6) [OF inv, of u] th by (auto split: if_splits)
  show "threads k' u \<noteq> None" if "c' = Some u"
    using that cur [of u] tinvD(7) [OF inv, of u] th by (cases "u = t") auto
qed (use ready(1) queue(1) in auto)

text \<open>The running thread goes on with other frames.\<close>

lemma tinv_set_frames:
  assumes "tinv (Some c) k" "threads k c = Some x" "t_status x = RUNNING" "resume_ok fs \<or> parked_ok fs"
  shows "tinv (Some c) (set_thread c (x\<lparr>frames_of := fs\<rparr>) k)"
proof (rule tinv_update [OF assms(1)])
  show "thread_ok (Some c) (set_thread c (x\<lparr>frames_of := fs\<rparr>) k) c (x\<lparr>frames_of := fs\<rparr>)"
    using tinvD(5) [OF assms(1,2)] assms(3,4) by (auto simp: thread_ok_def stack_ok_def waits_for_def set_thread_def)
  show "if u = c then t_status (x\<lparr>frames_of := fs\<rparr>) = BLOCKED \<and> (\<exists>g. frames_of (x\<lparr>frames_of := fs\<rparr>) = [g])
      else threadToBeDestroyed k = Some u"
    if "threadToBeDestroyed (set_thread c (x\<lparr>frames_of := fs\<rparr>) k) = Some u" for u
    using that tinvD(6) [OF assms(1), of u] assms(2,3) by (auto simp: set_thread_def)
qed (use tinvD(1,2) [OF assms(1)] in \<open>simp_all add: set_thread_def\<close>)

text \<open>\<open>V\<close>: the first waiting thread, if any, becomes ready; it can be the current one, inside \<open>Idle\<close>.\<close>

lemma wake_tinv:
  assumes inv: "tinv c k"
  shows "\<exists>k'. wake s k = Inr k' \<and> tinv c k'"
proof (cases "sem_queue (sems k s)")
  case Nil
  have "tinv c (set_sem s ((sems k s)\<lparr>sem_value := sem_value (sems k s) + 1\<rparr>) k)"
    using inv by (subst tinv_cong [where k = k]) (simp_all add: tview_def set_sem_def fun_eq_iff)
  with Nil show ?thesis by (simp add: wake_def)
next
  case (Cons t ts)
  then have t: "t \<in> set (sem_queue (sems k s))" by simp
  from tinvD(4) [OF inv this] obtain x where x: "threads k t = Some x" by auto
  have ok: "thread_ok c k t x" "waits_for x s" using tinvD(5) [OF inv x] t unfolding thread_ok_def by blast+
  have st: "t_status x = BLOCKED" using ok(2) by (simp add: waits_for_def)
  then have "asleep_ok (if c = Some t then FSleepLoop else FRunTail) (frames_of x)"
    using ok(1) by (simp add: thread_ok_def stack_ok_def)
  with ok(2) obtain r where fr: "frames_of x = (if c = Some t then FSleepLoop else FRunTail) # FPLoop s # r" "body r"
    unfolding asleep_ok_def waits_for_def by auto
  define k' where "k' = k\<lparr>threads := (threads k)(t \<mapsto> x\<lparr>t_status := READY\<rparr>), readyList := readyList k @ [t],
     sems := (sems k)(s := (sems k s)\<lparr>sem_queue := ts, sem_value := sem_value (sems k s) + 1\<rparr>)\<rparr>"
  have "wake s k = Inr k'"
    using x Cons by (simp add: wake_def ReadyToRun_def deref_def set_thread_def set_sem_def k'_def)
  moreover have "tinv c k'"
  proof (rule tinv_update [OF inv, where t = t and x = "x\<lparr>t_status := READY\<rparr>"])
    show "threads k' = (threads k)(t \<mapsto> x\<lparr>t_status := READY\<rparr>)" by (simp add: k'_def)
    show "distinct (readyList k')" "set (readyList k') - {t} = set (readyList k) - {t}"
      using tinvD(1) [OF inv] ok(1) st by (auto simp: k'_def thread_ok_def)
    show "distinct (sem_queue (sems k' s'))" for s'
      using tinvD(2) [OF inv, of s'] tinvD(2) [OF inv, of s] Cons by (simp add: k'_def)
    show "set (sem_queue (sems k' s')) - {t} = set (sem_queue (sems k s')) - {t}" for s'
      using tinvD(2) [OF inv, of s] Cons by (auto simp: k'_def)
    show "if u = t then t_status (x\<lparr>t_status := READY\<rparr>) = BLOCKED \<and> (\<exists>g. frames_of (x\<lparr>t_status := READY\<rparr>) = [g])
        else threadToBeDestroyed k = Some u" if "threadToBeDestroyed k' = Some u" for u
      using that tinvD(6) [OF inv, of u] x fr(1) by (auto simp: k'_def)
    have "t \<notin> set (sem_queue (sems k' s'))" for s'
    proof (cases "s' = s")
      case False
      with fr(1) have "\<not> waits_for x s'" by (simp add: waits_for_def)
      with ok(1) False show ?thesis by (simp add: k'_def thread_ok_def)
    qed (use tinvD(2) [OF inv, of s] Cons in \<open>simp add: k'_def\<close>)
    moreover have "stack_ok (c = Some t) (x\<lparr>t_status := READY\<rparr>)"
      using fr by (simp add: stack_ok_def parked_ok_def resume_ok_def)
    ultimately show "thread_ok c k' t (x\<lparr>t_status := READY\<rparr>)"
      using ok(1) unfolding thread_ok_def waits_for_def by (simp add: k'_def)
  qed (simp_all add: k'_def)
  ultimately show ?thesis by blast
qed

text \<open>The running thread blocks on a semaphore, or for ever.\<close>

lemma block_tinv:
  assumes inv: "tinv (Some c) k" and x: "threads k c = Some x" "t_status x = RUNNING" "frames_of x = r" "body r"
  shows "tinv (Some c) (k\<lparr>threads := (threads k)(c \<mapsto> x\<lparr>t_status := BLOCKED, frames_of := FSleepLoop # FPLoop s # r\<rparr>),
     sems := (sems k)(s := (sems k s)\<lparr>sem_queue := sem_queue (sems k s) @ [c]\<rparr>)\<rparr>)"
    (is "tinv _ ?k")
proof (rule tinv_update [OF inv, where t = c and x = "x\<lparr>t_status := BLOCKED, frames_of := FSleepLoop # FPLoop s # r\<rparr>"])
  have ok: "thread_ok (Some c) k c x" by (rule tinvD(5) [OF inv x(1)])
  then have no: "c \<notin> set (readyList k)" "c \<notin> set (sem_queue (sems k s'))" for s'
    using x(2) by (simp_all add: thread_ok_def waits_for_def)
  show "distinct (sem_queue (sems ?k s'))" for s' using tinvD(2) [OF inv] no(2) by simp
  show "if u = c then t_status (x\<lparr>t_status := BLOCKED, frames_of := FSleepLoop # FPLoop s # r\<rparr>) = BLOCKED \<and>
      (\<exists>g. frames_of (x\<lparr>t_status := BLOCKED, frames_of := FSleepLoop # FPLoop s # r\<rparr>) = [g])
      else threadToBeDestroyed k = Some u" if "threadToBeDestroyed ?k = Some u" for u
    using that tinvD(6) [OF inv, of u] x by auto
  show "thread_ok (Some c) ?k c (x\<lparr>t_status := BLOCKED, frames_of := FSleepLoop # FPLoop s # r\<rparr>)"
    using ok no x(4) by (simp add: thread_ok_def waits_for_def stack_ok_def asleep_ok_def)
qed (use tinvD(1) [OF inv] in auto)

lemma finish_tinv:
  assumes inv: "tinv (Some c) k" and x: "threads k c = Some x" "t_status x = RUNNING"
  shows "tinv (Some c) (k\<lparr>threads := (threads k)(c \<mapsto> x\<lparr>t_status := BLOCKED, frames_of := [FSleepLoop]\<rparr>),
     threadToBeDestroyed := Some c\<rparr>)"
    (is "tinv _ ?k")
proof (rule tinv_update [OF inv, where t = c and x = "x\<lparr>t_status := BLOCKED, frames_of := [FSleepLoop]\<rparr>"])
  have ok: "thread_ok (Some c) k c x" by (rule tinvD(5) [OF inv x(1)])
  then have no: "c \<notin> set (readyList k)" "c \<notin> set (sem_queue (sems k s'))" for s'
    using x(2) by (simp_all add: thread_ok_def waits_for_def)
  show "thread_ok (Some c) ?k c (x\<lparr>t_status := BLOCKED, frames_of := [FSleepLoop]\<rparr>)"
    using ok no by (simp add: thread_ok_def waits_for_def stack_ok_def asleep_ok_def)
qed (use tinvD(1,2) [OF inv] in auto)

text \<open>The current thread gives up the processor, asleep or ready.\<close>

lemma park_sleep_tinv:
  assumes inv: "tinv (Some c) k" and x: "threads k c = Some x" "frames_of x = FSleepLoop # r"
  shows "tinv None (k\<lparr>threads := (threads k)(c \<mapsto> x\<lparr>userRegisters := u, frames_of := FRunTail # r\<rparr>)\<rparr>)"
    (is "tinv None ?k")
proof (rule tinv_update [OF inv, where t = c and x = "x\<lparr>userRegisters := u, frames_of := FRunTail # r\<rparr>"])
  have ok: "thread_ok (Some c) k c x" by (rule tinvD(5) [OF inv x(1)])
  have "stack_ok (None = Some c) (x\<lparr>userRegisters := u, frames_of := FRunTail # r\<rparr>)"
    using ok x(2)
    by (auto simp: thread_ok_def stack_ok_def asleep_ok_def parked_ok_def resume_ok_def split: ThreadStatus.splits)
  moreover have "waits_for (x\<lparr>userRegisters := u, frames_of := FRunTail # r\<rparr>) s = waits_for x s" for s
    using x(2) by (simp add: waits_for_def)
  ultimately show "thread_ok None ?k c (x\<lparr>userRegisters := u, frames_of := FRunTail # r\<rparr>)"
    using ok by (simp add: thread_ok_def)
  show "if v = c then t_status (x\<lparr>userRegisters := u, frames_of := FRunTail # r\<rparr>) = BLOCKED \<and>
      (\<exists>g. frames_of (x\<lparr>userRegisters := u, frames_of := FRunTail # r\<rparr>) = [g])
      else threadToBeDestroyed k = Some v" if "threadToBeDestroyed ?k = Some v" for v
    using that tinvD(6) [OF inv, of v] x by auto
qed (use tinvD(1,2) [OF inv] in auto)

lemma park_yield_tinv:
  assumes inv: "tinv (Some c) k" and x: "threads k c = Some x" "t_status x = RUNNING" "body r"
  shows "tinv None (k\<lparr>threads := (threads k)(c \<mapsto> x\<lparr>t_status := READY, userRegisters := u, frames_of := FRunTail # r\<rparr>),
     readyList := readyList k @ [c]\<rparr>)"
    (is "tinv None ?k")
proof (rule tinv_update [OF inv, where t = c and x = "x\<lparr>t_status := READY, userRegisters := u, frames_of := FRunTail # r\<rparr>"])
  have ok: "thread_ok (Some c) k c x" by (rule tinvD(5) [OF inv x(1)])
  then have no: "c \<notin> set (readyList k)" "c \<notin> set (sem_queue (sems k s'))" for s'
    using x(2) by (simp_all add: thread_ok_def waits_for_def)
  show "distinct (readyList ?k)" using tinvD(1) [OF inv] no(1) by simp
  show "thread_ok None ?k c (x\<lparr>t_status := READY, userRegisters := u, frames_of := FRunTail # r\<rparr>)"
    using ok no x(3) by (simp add: thread_ok_def waits_for_def stack_ok_def parked_ok_def resume_ok_def)
  show "if v = c then t_status (x\<lparr>t_status := READY, userRegisters := u, frames_of := FRunTail # r\<rparr>) = BLOCKED \<and>
      (\<exists>g. frames_of (x\<lparr>t_status := READY, userRegisters := u, frames_of := FRunTail # r\<rparr>) = [g])
      else threadToBeDestroyed k = Some v" if "threadToBeDestroyed ?k = Some v" for v
    using that tinvD(6) [OF inv, of v] x by auto
qed (use tinvD(2) [OF inv] in auto)

text \<open>The first ready thread gets it.\<close>

lemma dispatch_tinv:
  assumes inv: "tinv None k" and t: "readyList k = t # ts"
  shows "\<exists>y. threads k t = Some y \<and> parked_ok (frames_of y) \<and>
     tinv (Some t) (k\<lparr>threads := (threads k)(t \<mapsto> y\<lparr>t_status := RUNNING\<rparr>), readyList := ts, currentThread := t\<rparr>)"
proof -
  from tinvD(3) [OF inv, of t] t obtain y where y: "threads k t = Some y" by auto
  let ?k = "k\<lparr>threads := (threads k)(t \<mapsto> y\<lparr>t_status := RUNNING\<rparr>), readyList := ts, currentThread := t\<rparr>"
  have ok: "thread_ok None k t y" by (rule tinvD(5) [OF inv y])
  then have st: "t_status y = READY" using t by (simp add: thread_ok_def)
  then have park: "parked_ok (frames_of y)" using ok by (simp add: thread_ok_def stack_ok_def)
  have "tinv (Some t) ?k"
  proof (rule tinv_update [OF inv, where t = t and x = "y\<lparr>t_status := RUNNING\<rparr>"])
    show "thread_ok (Some t) ?k t (y\<lparr>t_status := RUNNING\<rparr>)"
      using ok park st tinvD(1) [OF inv] t by (simp add: thread_ok_def waits_for_def stack_ok_def)
    show "if v = t then t_status (y\<lparr>t_status := RUNNING\<rparr>) = BLOCKED \<and> (\<exists>g. frames_of (y\<lparr>t_status := RUNNING\<rparr>) = [g])
        else threadToBeDestroyed k = Some v" if "threadToBeDestroyed ?k = Some v" for v
      using that tinvD(6) [OF inv, of v] y st by auto
  qed (use tinvD(1,2) [OF inv] t in auto)
  with y park show ?thesis by blast
qed

text \<open>The finished thread is deleted, and a new one starts.\<close>

lemma destroy_tinv:
  assumes inv: "tinv (Some c) k" and x: "threads k c = Some x" "t_status x = RUNNING" and t: "threadToBeDestroyed k = Some t"
  shows "t \<noteq> c \<and> threads k t \<noteq> None \<and> tinv (Some c) (k\<lparr>threads := (threads k)(t := None), threadToBeDestroyed := None\<rparr>)"
proof -
  from tinvD(6) [OF inv t] obtain y g where y: "threads k t = Some y" "t_status y = BLOCKED" "frames_of y = [g]" by blast
  have ok: "thread_ok (Some c) k t y" by (rule tinvD(5) [OF inv y(1)])
  then have no: "t \<notin> set (readyList k)" "t \<notin> set (sem_queue (sems k s))" for s
    using y by (simp_all add: thread_ok_def waits_for_def)
  have "t \<noteq> c" using x y by auto
  moreover have "tinv (Some c) (k\<lparr>threads := (threads k)(t := None), threadToBeDestroyed := None\<rparr>)" (is "tinv _ ?k")
  proof (rule tinvI)
    fix u
    show "threads ?k u \<noteq> None" if "u \<in> set (readyList ?k)" using that tinvD(3) [OF inv, of u] no(1) by auto
    show "threads ?k u \<noteq> None" if "u \<in> set (sem_queue (sems ?k s))" for s
      using that tinvD(4) [OF inv, of u s] no(2) [of s] by auto
    show "thread_ok (Some c) ?k u z" if "threads ?k u = Some z" for z
      using that tinvD(5) [OF inv, of u z] by (auto simp: thread_ok_def split: if_splits)
    show "threads ?k u \<noteq> None" if "Some c = Some u" using that x(1) \<open>t \<noteq> c\<close> by simp
  qed (use tinvD(1,2) [OF inv] in auto)
  ultimately show ?thesis using y(1) by blast
qed

lemma fork_tinv:
  assumes inv: "tinv (Some c) k" and b: "list_all plain b"
  shows "threads k (next_thread k) = None"
    "tinv (Some c) (k\<lparr>threads := (threads k)(next_thread k \<mapsto> (StackAllocate b (Thread_new regs))\<lparr>t_status := READY\<rparr>),
       readyList := readyList k @ [next_thread k], next_thread := next_thread k + 1\<rparr>)"
    (is "tinv _ ?k")
proof -
  let ?n = "next_thread k" and ?x = "(StackAllocate b (Thread_new regs))\<lparr>t_status := READY\<rparr>"
  have fresh: "threads k ?n = None" using tinvD(5) [OF inv, of ?n] by (cases "threads k ?n") (auto simp: thread_ok_def)
  then show "threads k ?n = None" .
  have no: "?n \<notin> set (readyList k)" "?n \<notin> set (sem_queue (sems k s))" for s
    using tinvD(3,4) [OF inv, of ?n] fresh by auto
  have "c \<noteq> ?n" using tinvD(7) [OF inv refl] fresh by auto
  show "tinv (Some c) ?k"
  proof (rule tinv_update [OF inv, where t = ?n and x = ?x])
    show "distinct (readyList ?k)" using tinvD(1) [OF inv] no(1) by simp
    show "thread_ok (Some c) ?k ?n ?x"
      using no \<open>c \<noteq> ?n\<close> body_append [OF b, of "[FFinish]"]
      by (simp add: thread_ok_def waits_for_def stack_ok_def parked_ok_def StackAllocate_def Thread_new_def)
    show "if v = ?n then t_status ?x = BLOCKED \<and> (\<exists>g. frames_of ?x = [g]) else threadToBeDestroyed k = Some v"
      if "threadToBeDestroyed ?k = Some v" for v
      using that tinvD(6) [OF inv, of v] fresh by auto
  qed (use tinvD(2) [OF inv] in auto)
qed

section \<open>The kernel's invariant\<close>

text \<open>The user registers that are saved or in the machine name a real register for the delayed load.\<close>

definition regs_ok :: "(nat \<Rightarrow> 32 word) \<Rightarrow> bool" where
  "regs_ok r = (unat (r LoadReg) < NumTotalRegs)"

definition saved_ok :: "Machine option \<Rightarrow> 'a Thread \<Rightarrow> bool" where
  "saved_ok m x = (space x \<noteq> None \<longrightarrow> m \<noteq> None \<and> (frames_of x \<noteq> [] \<and> hd (frames_of x) = FRunTail \<longrightarrow> regs_ok (userRegisters x)))"

definition cpu_inv :: "('h, 'a, 'z) TSys_scheme \<Rightarrow> bool" where
  "cpu_inv k = ((\<forall>m. machine k = Some m \<longrightarrow> regs_ok (registers m)) \<and>
     (\<forall>t x. threads k t = Some x \<longrightarrow> saved_ok (machine k) x))"

text \<open>Interrupts are off where the code relies on it.\<close>

fun off_frame :: "'a frame \<Rightarrow> bool" where
  "off_frame FRunTail = True"
| "off_frame FSleepLoop = True"
| "off_frame (FPLoop s) = True"
| "off_frame FEnable = True"
| "off_frame f = False"

definition cur_frames :: "('h, 'a, 'z) TSys_scheme \<Rightarrow> 'a frame list" where
  "cur_frames k = (case threads k (currentThread k) of None \<Rightarrow> [] | Some x \<Rightarrow> frames_of x)"

definition kinv :: "('h, 'a, 'z) TSys_scheme \<Rightarrow> bool" where
  "kinv k = (tinv (Some (currentThread k)) k \<and> cpu_inv k \<and> pending_ok k \<and> \<not> inHandler k \<and> status k \<noteq> IdleMode \<and>
     (cur_frames k \<noteq> [] \<and> off_frame (hd (cur_frames k)) \<longrightarrow> level k = IntOff))"

definition running :: "('h, 'a, 'z) TSys_scheme \<Rightarrow> bool" where
  "running k = (\<exists>x. threads k (currentThread k) = Some x \<and> t_status x = RUNNING \<and> body (frames_of x))"

lemma body_not_off: "body fs \<Longrightarrow> \<not> off_frame (hd fs)" "body fs \<Longrightarrow> hd fs \<noteq> FRunTail"
  by (cases fs; cases "hd fs"; simp)+

lemma push_kinv:
  assumes "kinv k" "running k" "list_all plain fs"
  shows "kinv (push fs k) \<and> running (push fs k)"
proof -
  from assms(2) obtain x where x: "threads k (currentThread k) = Some x" "t_status x = RUNNING" "body (frames_of x)"
    by (auto simp: running_def)
  have b: "body (fs @ frames_of x)" by (rule body_append [OF assms(3) x(3)])
  have p: "push fs k = set_thread (currentThread k) (x\<lparr>frames_of := fs @ frames_of x\<rparr>) k" by (simp add: push_def x(1))
  have "tinv (Some (currentThread k)) (push fs k)"
    unfolding p using assms(1) x b by (intro tinv_set_frames) (simp_all add: kinv_def resume_ok_def)
  moreover have "cpu_inv (push fs k)"
    using assms(1) x body_not_off(2) [OF b] unfolding p kinv_def cpu_inv_def
    by (auto simp: set_thread_def saved_ok_def)
  ultimately show ?thesis
    using assms(1) x b body_not_off(1) [OF b]
    by (simp add: kinv_def running_def) (simp add: p set_thread_def pending_ok_def cur_frames_def)
qed

lemma SaveUserState_ok:
  "SaveUserState m x = Inr (x\<lparr>userRegisters := \<lambda>i. if i < NumTotalRegs then registers m i else userRegisters x i\<rparr>)"
proof -
  have "res_fold (\<lambda>i regs. res_bind (ReadRegister (int i) m) (\<lambda>v. Inr (regs(i := v)))) [0..<n] r =
      Inr (\<lambda>i. if i < n then registers m i else r i)" if "n \<le> NumTotalRegs" for n r
    using that
  proof (induction n)
    case (Suc n)
    then show ?case by (auto simp: res_fold_append ReadRegister_def fun_eq_iff)
  qed simp
  from this [of NumTotalRegs] show ?thesis by (simp add: SaveUserState_def)
qed

lemma RestoreUserState_ok:
  "RestoreUserState x m = Inr (m\<lparr>registers := \<lambda>i. if i < NumTotalRegs then userRegisters x i else registers m i\<rparr>)"
proof -
  have "res_fold (\<lambda>i. WriteRegister (int i) (userRegisters x i)) [0..<n] m =
      Inr (m\<lparr>registers := \<lambda>i. if i < n then userRegisters x i else registers m i\<rparr>)" if "n \<le> NumTotalRegs" for n
    using that
  proof (induction n)
    case (Suc n)
    then show ?case by (auto simp: res_fold_append WriteRegister_def set_reg_def fun_eq_iff intro!: Machine.equality)
  qed simp
  from this [of NumTotalRegs] show ?thesis by (simp add: RestoreUserState_def)
qed

section \<open>What the kernel relies on from interrupt handlers and clients\<close>

text \<open>A handler may make threads ready; it changes nothing else of a thread.\<close>

definition only_status :: "'a Thread option \<Rightarrow> 'a Thread option \<Rightarrow> bool" where
  "only_status = rel_option (\<lambda>x x'. \<exists>st. x' = x\<lparr>t_status := st\<rparr>)"

definition same_threads :: "('h, 'a, 'z) TSys_scheme \<Rightarrow> ('h, 'a, 'z) TSys_scheme \<Rightarrow> bool" where
  "same_threads k k' = (currentThread k' = currentThread k \<and> halted k' = halted k \<and> next_thread k' = next_thread k \<and>
     (\<forall>t. only_status (threads k t) (threads k' t)))"

lemma only_status_refl [simp]: "only_status x x"
proof (cases x)
  case (Some a)
  have "\<exists>st. a = a\<lparr>t_status := st\<rparr>" by (rule exI [of _ "t_status a"]) simp
  with Some show ?thesis by (simp add: only_status_def)
qed (simp add: only_status_def)

lemma only_status_set [simp]: "only_status (Some x) (Some (x\<lparr>t_status := st\<rparr>))"
  unfolding only_status_def by auto

lemma only_status_trans: "only_status x y \<Longrightarrow> only_status y z \<Longrightarrow> only_status x z"
  by (cases x; cases y; cases z) (auto simp: only_status_def)

lemma same_threads_refl [simp]: "same_threads k k"
  by (simp add: same_threads_def)

lemma same_threads_trans: "same_threads k k' \<Longrightarrow> same_threads k' k'' \<Longrightarrow> same_threads k k''"
  unfolding same_threads_def using only_status_trans by metis

lemma only_status_Some:
  assumes "only_status a b" "b = Some x'"
  obtains x where "a = Some x" "frames_of x' = frames_of x" "space x' = space x" "userRegisters x' = userRegisters x"
proof -
  from assms obtain x st where x: "a = Some x" "x' = x\<lparr>t_status := st\<rparr>" by (cases a) (auto simp: only_status_def)
  then show ?thesis using that by simp
qed

lemma same_threads_cpu: "same_threads k k' \<Longrightarrow> machine k' = machine k \<Longrightarrow> cpu_inv k \<Longrightarrow> cpu_inv k'"
  unfolding cpu_inv_def same_threads_def saved_ok_def by (metis only_status_Some)

lemma same_threads_frames:
  assumes "same_threads k k'"
  shows "cur_frames k' = cur_frames k"
proof -
  have o: "only_status (threads k (currentThread k)) (threads k' (currentThread k))" "currentThread k' = currentThread k"
    using assms by (simp_all add: same_threads_def)
  then show ?thesis
    by (cases "threads k (currentThread k)"; cases "threads k' (currentThread k)")
      (auto simp: cur_frames_def only_status_def)
qed

text \<open>What is kept while interrupts are being fired.\<close>

definition hinv :: "('h, 'a, 'z) TSys_scheme \<Rightarrow> bool" where
  "hinv k = (tinv (Some (currentThread k)) k \<and> cpu_inv k \<and> pending_ok k \<and> \<not> inHandler k)"

lemma hinv_cong:
  assumes "tview k' = tview k" "currentThread k' = currentThread k" "machine k' = machine k" "pending_ok k'"
    "inHandler k' = inHandler k"
  shows "hinv k \<Longrightarrow> hinv k'"
  using assms tinv_cong [OF assms(1)] by (simp add: hinv_def cpu_inv_def tview_def)

lemma wake_same:
  assumes "wake s k = Inr k'"
  shows "same_threads k k'" "machine k' = machine k" "level k' = level k" "status k' = status k" "inHandler k' = inHandler k"
    "pending k' = pending k" "stats k' = stats k" "next_thread k' = next_thread k" "threadToBeDestroyed k' = threadToBeDestroyed k"
    "yieldOnReturn k' = yieldOnReturn k"
proof -
  obtain k1 where k1: "(case sem_queue (sems k s) of [] \<Rightarrow> Inr k
      | t # ts \<Rightarrow> ReadyToRun t (set_sem s ((sems k s)\<lparr>sem_queue := ts\<rparr>) k)) = Inr k1"
    and k': "k' = set_sem s ((sems k1 s)\<lparr>sem_value := sem_value (sems k1 s) + 1\<rparr>) k1"
    using assms by (auto simp: wake_def res_bind_Inr_iff)
  have "same_threads k k1 \<and> machine k1 = machine k \<and> level k1 = level k \<and> status k1 = status k \<and> inHandler k1 = inHandler k \<and>
    pending k1 = pending k \<and> stats k1 = stats k \<and> next_thread k1 = next_thread k \<and>
    threadToBeDestroyed k1 = threadToBeDestroyed k \<and> yieldOnReturn k1 = yieldOnReturn k"
    using k1 by (auto simp: ReadyToRun_def deref_def set_sem_def set_thread_def same_threads_def
        split: list.splits option.splits)
  then show "same_threads k k'" "machine k' = machine k" "level k' = level k" "status k' = status k" "inHandler k' = inHandler k"
    "pending k' = pending k" "stats k' = stats k" "next_thread k' = next_thread k"
    "threadToBeDestroyed k' = threadToBeDestroyed k" "yieldOnReturn k' = yieldOnReturn k"
    by (simp_all add: k' set_sem_def same_threads_def)
qed

text \<open>What a handler does to the threads is a sequence of \<open>V\<close>s on the semaphores of its devices, \<open>D\<close>.\<close>

definition kview :: "('h, 'a, 'z) TSys_scheme \<Rightarrow>
    (nat \<rightharpoonup> 'a Thread) \<times> nat \<times> nat list \<times> nat option \<times> (nat \<Rightarrow> Semaphore) \<times> nat \<times> bool" where
  "kview k = (threads k, currentThread k, readyList k, threadToBeDestroyed k, sems k, next_thread k, halted k)"

definition woken :: "nat set \<Rightarrow> ('h, 'a, 'z) TSys_scheme \<Rightarrow> ('h, 'a, 'z) TSys_scheme \<Rightarrow> bool" where
  "woken D k k' = (\<exists>ss k1. set ss \<subseteq> D \<and> res_fold wake ss k = Inr k1 \<and> kview k' = kview k1)"

lemma wake_kview:
  assumes "wake s k = Inr k1" "kview k2 = kview k"
  shows "\<exists>k3. wake s k2 = Inr k3 \<and> kview k3 = kview k1"
proof -
  from assms(2) have e: "threads k2 = threads k" "currentThread k2 = currentThread k" "readyList k2 = readyList k"
    "threadToBeDestroyed k2 = threadToBeDestroyed k" "sems k2 = sems k" "next_thread k2 = next_thread k" "halted k2 = halted k"
    by (simp_all add: kview_def)
  show ?thesis
  proof (cases "sem_queue (sems k s)")
    case (Cons t ts)
    with assms(1) obtain x where "threads k t = Some x"
      by (auto simp: wake_def ReadyToRun_def deref_def set_sem_def split: option.splits)
    with Cons assms(1) e show ?thesis
      by (auto simp: wake_def ReadyToRun_def deref_def set_sem_def set_thread_def kview_def)
  qed (use assms(1) e in \<open>auto simp: wake_def set_sem_def kview_def\<close>)
qed

lemma wakes_kview:
  "res_fold wake ss k = Inr k1 \<Longrightarrow> kview k2 = kview k \<Longrightarrow> \<exists>k3. res_fold wake ss k2 = Inr k3 \<and> kview k3 = kview k1"
proof (induction ss arbitrary: k k2)
  case (Cons s ss)
  from Cons.prems(1) obtain k4 where k4: "wake s k = Inr k4" "res_fold wake ss k4 = Inr k1" by (auto simp: res_bind_Inr_iff)
  from wake_kview [OF k4(1) Cons.prems(2)] obtain k5 where k5: "wake s k2 = Inr k5" "kview k5 = kview k4" by blast
  from Cons.IH [OF k4(2) k5(2)] k5(1) show ?case by auto
qed auto

lemma woken_view: "kview k' = kview k \<Longrightarrow> woken D k k'"
  unfolding woken_def by (rule exI [of _ "[]"]) simp

lemma woken_trans:
  assumes "woken D k k'" "woken D k' k''"
  shows "woken D k k''"
proof -
  from assms obtain ss k1 ss' k2 where
    1: "set ss \<subseteq> D" "res_fold wake ss k = Inr k1" "kview k' = kview k1" and
    2: "set ss' \<subseteq> D" "res_fold wake ss' k' = Inr k2" "kview k'' = kview k2" unfolding woken_def by blast
  from wakes_kview [OF 2(2) 1(3) [symmetric]] obtain k3 where "res_fold wake ss' k1 = Inr k3" "kview k3 = kview k2" by blast
  with 1 2 show ?thesis unfolding woken_def by (intro exI [of _ "ss @ ss'"] exI [of _ k3]) (auto simp: res_fold_append)
qed

lemma woken_wake: "wake s k = Inr k' \<Longrightarrow> s \<in> D \<Longrightarrow> woken D k k'"
  unfolding woken_def by (intro exI [of _ "[s]"] exI [of _ k']) simp

lemma woken_tinv:
  assumes "woken D k k'" "tinv (Some (currentThread k)) k"
  shows "tinv (Some (currentThread k')) k'" "same_threads k k'"
proof -
  from assms(1) obtain ss k1 where w: "res_fold wake ss k = Inr k1" "kview k' = kview k1" unfolding woken_def by blast
  have "tinv (Some (currentThread k)) k1 \<and> same_threads k k1"
    using w(1) assms(2)
  proof (induction ss arbitrary: k)
    case (Cons s ss)
    from Cons.prems(1) obtain k2 where k2: "wake s k = Inr k2" "res_fold wake ss k2 = Inr k1" by (auto simp: res_bind_Inr_iff)
    have s: "same_threads k k2" by (rule wake_same(1) [OF k2(1)])
    then have c: "currentThread k2 = currentThread k" by (simp add: same_threads_def)
    have "tinv (Some (currentThread k2)) k2" using wake_tinv [OF Cons.prems(2), of s] k2(1) c by auto
    from Cons.IH [OF k2(2) this] s c show ?case by (auto intro: same_threads_trans)
  qed simp
  moreover have "tview k' = tview k1" "currentThread k' = currentThread k1" "same_threads k1 k'"
    using w(2) by (simp_all add: kview_def tview_def same_threads_def)
  ultimately show "tinv (Some (currentThread k')) k'" "same_threads k k'"
    using tinv_cong [of k' k1] by (auto simp: same_threads_def intro: only_status_trans)
qed

locale kernel_handlers = interrupt_handlers call
  for call :: "('h, 'a, 'z) tcaller" +
  fixes D :: "nat set"
  assumes call_woken: "call h a k = Inr k' \<Longrightarrow> woken D k k' \<and> machine k' = machine k"
    and call_total: "tinv (Some (currentThread k)) k \<Longrightarrow> inHandler k \<Longrightarrow> \<exists>k'. call h a k = Inr k'"
begin

lemma run_handler_kernel:
  assumes "hinv k"
  shows "\<exists>k'. run_handler call p k = Inr k' \<and> hinv k' \<and> same_threads k k'"
proof -
  obtain k1 where k1: "(case machine k of None \<Rightarrow> Inr k
      | Some m \<Rightarrow> res_bind (DelayedLoad 0 0 m) (\<lambda>m'. Inr (k\<lparr>machine := Some m'\<rparr>))) = Inr k1"
    "tview k1 = tview k" "currentThread k1 = currentThread k" "pending k1 = pending k" "halted k1 = halted k"
    "threads k1 = threads k" "cpu_inv k1" "next_thread k1 = next_thread k"
  proof (cases "machine k")
    case (Some m)
    let ?m = "set_reg 0 0 (set_reg LoadValueReg 0 (set_reg LoadReg 0 (set_reg (unat (registers m LoadReg)) (registers m LoadValueReg) m)))"
    have "DelayedLoad 0 0 m = Inr ?m" using assms Some by (simp add: hinv_def cpu_inv_def regs_ok_def DelayedLoad_def Let_def)
    moreover have "cpu_inv (k\<lparr>machine := Some ?m\<rparr>)"
      using assms Some by (auto simp: hinv_def cpu_inv_def regs_ok_def saved_ok_def set_reg_def)
    ultimately show ?thesis using Some that [of "k\<lparr>machine := Some ?m\<rparr>"] by (simp add: tview_def)
  qed (use assms that [of k] in \<open>simp add: hinv_def\<close>)
  define k2 where "k2 = k1\<lparr>inHandler := True, status := SystemMode\<rparr>"
  have t2: "tview k2 = tview k" "currentThread k2 = currentThread k" "inHandler k2" "cpu_inv k2" "pending_ok k2"
    using k1 assms by (simp_all add: k2_def tview_def hinv_def cpu_inv_def pending_ok_def)
  then have inv2: "tinv (Some (currentThread k2)) k2" using tinv_cong [OF t2(1)] assms by (simp add: hinv_def)
  from call_total [OF this t2(3)] obtain k3 where k3: "call (handler p) (arg p) k2 = Inr k3" by blast
  define k' where "k' = k3\<lparr>status := status k, inHandler := False\<rparr>"
  have r: "run_handler call p k = Inr k'" using k1(1) k3 by (simp add: run_handler_def k2_def k'_def)
  have w3: "woken D k2 k3" "machine k3 = machine k2" using call_woken [OF k3] by blast+
  note s3 = woken_tinv(2) [OF w3(1) inv2] w3(2)
  have "tinv (Some (currentThread k')) k'"
    using woken_tinv(1) [OF w3(1) inv2] tinv_cong [of k' k3] by (simp add: k'_def tview_def)
  moreover have "cpu_inv k'" using same_threads_cpu [OF s3 t2(4)] by (simp add: k'_def cpu_inv_def)
  moreover have "pending_ok k'" using run_handler_ok(5) [OF r] assms by (simp add: hinv_def)
  moreover have "same_threads k k'" using s3(1) k1 by (simp add: same_threads_def k'_def k2_def)
  moreover have "\<not> inHandler k'" by (simp add: k'_def)
  ultimately show ?thesis using r by (simp add: hinv_def)
qed

lemma CheckIfDue_level:
  assumes "CheckIfDue call adv k = Inr (b, k')"
  shows "level k' = level k"
proof (cases "pending k")
  case (Cons e rest)
  with assms show ?thesis
    by (cases e) (auto simp: CheckIfDue_def ASSERT_Inr_iff Let_def res_bind_Inr_iff dest!: run_handler_ok(1) split: if_splits)
qed (use assms in \<open>auto simp: CheckIfDue_def ASSERT_Inr_iff\<close>)

lemma CheckIfDue_kernel:
  assumes "hinv k" "level k = IntOff"
  shows "\<exists>b k'. CheckIfDue call adv k = Inr (b, k') \<and> hinv k' \<and> same_threads k k'"
proof (cases "pending k")
  case Nil
  then show ?thesis using assms by (intro exI [of _ False] exI [of _ k]) (simp add: CheckIfDue_def)
next
  case (Cons e rest)
  obtain w p where e: "e = (w, p)" by (cases e)
  define k1 where "k1 = (if w > now k then k\<lparr>pending := rest,
      stats := (stats k)\<lparr>idleTicks := idleTicks (stats k) + (w - now k), totalTicks := w\<rparr>\<rparr> else k\<lparr>pending := rest\<rparr>)"
  have sm: "tview k1 = tview k" "currentThread k1 = currentThread k" "machine k1 = machine k" "same_threads k k1"
    "pending k1 = rest" "inHandler k1 = inHandler k"
    by (simp_all add: k1_def tview_def same_threads_def)
  have sorted: "pending_ok k1" "sorted (map fst (ins_sorted w p rest))"
    using assms(1) Cons e by (simp_all add: k1_def hinv_def pending_ok_def sorted_ins_sorted)
  have h1: "hinv k1" using hinv_cong [OF sm(1-3) sorted(1) sm(6) assms(1)] .
  have put: "hinv (k0\<lparr>pending := ins_sorted w p rest\<rparr>)" "same_threads k (k0\<lparr>pending := ins_sorted w p rest\<rparr>)"
    if "k0 = k \<or> k0 = k1" for k0
  proof -
    have "hinv k0" "same_threads k k0" using that assms(1) h1 sm(4) by auto
    then show "hinv (k0\<lparr>pending := ins_sorted w p rest\<rparr>)" "same_threads k (k0\<lparr>pending := ins_sorted w p rest\<rparr>)"
      using sorted(2) by (auto intro: hinv_cong [of _ k0] simp: tview_def pending_ok_def same_threads_def)
  qed
  from run_handler_kernel [OF h1, of p] obtain k2 where
    k2: "run_handler call p k1 = Inr k2" "hinv k2" "same_threads k1 k2" by blast
  have "same_threads k k2" using sm(4) k2(3) by (rule same_threads_trans)
  moreover have "CheckIfDue call adv k =
      (if w > now k \<and> \<not> adv then Inr (False, k\<lparr>pending := ins_sorted w p rest\<rparr>)
       else if status k1 = IdleMode \<and> itype p = TimerInt \<and> rest = [] then Inr (False, k1\<lparr>pending := ins_sorted w p rest\<rparr>)
       else Inr (True, k2))"
    using assms(2) Cons e k2(1) by (auto simp: CheckIfDue_def Let_def k1_def)
  ultimately show ?thesis using put k2(2) by auto
qed

lemma fire_due_kernel:
  "hinv k \<Longrightarrow> level k = IntOff \<Longrightarrow>
   fire_due call n k = Inl OutOfFuel \<or> (\<exists>k'. fire_due call n k = Inr k' \<and> hinv k' \<and> same_threads k k')"
proof (induction n arbitrary: k)
  case (Suc n)
  from CheckIfDue_kernel [OF Suc.prems] obtain b k1 where
    c: "CheckIfDue call False k = Inr (b, k1)" "hinv k1" "same_threads k k1" by blast
  have "level k1 = IntOff" using CheckIfDue_keeps [OF c(1)] Suc.prems by (simp add: hinv_def)
  with Suc.IH [OF c(2)] c show ?case
    by (cases b) (auto simp: fire_due.simps intro: same_threads_trans)
qed (simp add: fire_due.simps)

lemma fire_due_kernel_total:
  assumes "hinv k" "level k = IntOff"
  shows "\<exists>k'. fire_due call (Suc (length (pending k))) k = Inr k' \<and> hinv k' \<and> same_threads k k' \<and> level k' = IntOff"
proof -
  have "fire_due call (Suc (length (pending k))) k \<noteq> Inl OutOfFuel"
    using assms by (intro fire_due_fuel due_length) (simp_all add: hinv_def)
  with fire_due_kernel [OF assms] obtain k' where
    k': "fire_due call (Suc (length (pending k))) k = Inr k'" "hinv k'" "same_threads k k'" by blast
  moreover have "level k' = IntOff" using fire_due_keeps [OF k'(1)] assms by (simp add: hinv_def)
  ultimately show ?thesis by blast
qed

lemma OneTick_kernel:
  assumes "hinv k" "status k \<noteq> IdleMode"
  shows "\<exists>y k'. OneTick call k = Inr (y, k') \<and> hinv k' \<and> same_threads k k' \<and> status k' \<noteq> IdleMode \<and>
    list_all plain (yield_frames y :: 'a frame list)"
proof -
  define k1 where "k1 = ChangeLevel IntOn IntOff (k\<lparr>stats := tick_stats k\<rparr>)"
  have "hinv k1" by (rule hinv_cong [OF _ _ _ _ _ assms(1)]) (use assms(1) in \<open>simp_all add: k1_def ChangeLevel_def tview_def hinv_def pending_ok_def\<close>)
  moreover have "level k1 = IntOff" "same_threads k k1" by (simp_all add: k1_def ChangeLevel_def same_threads_def)
  ultimately obtain k2 where
    k2: "fire_due call (Suc (length (pending k1))) k1 = Inr k2" "hinv k2" "same_threads k k2"
    using fire_due_kernel_total [of k1] same_threads_trans by blast
  define r where "r = (if yieldOnReturn k2
      then (Some (status k), k2\<lparr>level := IntOn, yieldOnReturn := False, status := SystemMode\<rparr>) else (None, k2\<lparr>level := IntOn\<rparr>))"
  have o: "OneTick call k = Inr (fst r, snd r)"
    using k2(1) unfolding OneTick_def Let_def k1_def [symmetric] by (simp add: r_def) (simp add: ChangeLevel_def)
  have "hinv (snd r)"
    by (rule hinv_cong [OF _ _ _ _ _ k2(2)]) (use k2(2) in \<open>simp_all add: r_def tview_def hinv_def pending_ok_def\<close>)
  moreover have "same_threads k (snd r)" using k2(3) by (simp add: r_def same_threads_def)
  moreover have "status (snd r) \<noteq> IdleMode" "fst r \<noteq> Some IdleMode"
    using OneTick_ok(7,8) [OF o] assms by (auto simp: hinv_def split: if_splits)
  moreover from this(2) have "list_all plain (yield_frames (fst r) :: 'a frame list)"
    by (auto simp: yield_frames_def split: option.split)
  ultimately show ?thesis using o by blast
qed

lemma Idle_kernel:
  assumes "hinv k" "level k = IntOff"
  shows "\<exists>b k'. Idle call k = Inr (b, k') \<and> same_threads k k' \<and>
    (b \<longrightarrow> hinv k' \<and> level k' = IntOff \<and> status k' = SystemMode)"
proof -
  define k0 where "k0 = k\<lparr>status := IdleMode\<rparr>"
  have k0: "hinv k0" "level k0 = IntOff" "same_threads k k0"
  proof -
    show "hinv k0"
      by (rule hinv_cong [OF _ _ _ _ _ assms(1)]) (use assms(1) in \<open>simp_all add: k0_def tview_def hinv_def pending_ok_def\<close>)
  qed (use assms(2) in \<open>simp_all add: k0_def same_threads_def\<close>)
  from CheckIfDue_kernel [OF k0(1,2)] obtain b k1 where
    c: "CheckIfDue call True k0 = Inr (b, k1)" "hinv k1" "same_threads k0 k1" by blast
  have same: "same_threads k k1" using k0(3) c(3) by (rule same_threads_trans)
  show ?thesis
  proof (cases b)
    case False
    then have "Idle call k = Inr (False, k1)" using c(1) by (simp add: Idle_def k0_def)
    with same show ?thesis by blast
  next
    case True
    have off: "level k1 = IntOff" using CheckIfDue_level [OF c(1)] k0(2) by simp
    from fire_due_kernel_total [OF c(2) off] obtain k2 where
      k2: "fire_due call (Suc (length (pending k1))) k1 = Inr k2" "hinv k2" "same_threads k1 k2" "level k2 = IntOff" by blast
    let ?k = "k2\<lparr>yieldOnReturn := False, status := SystemMode\<rparr>"
    have "Idle call k = Inr (True, ?k)" using c(1) True k2(1) by (simp add: Idle_def k0_def)
    moreover have "hinv ?k"
      by (rule hinv_cong [OF _ _ _ _ _ k2(2)]) (use k2(2) in \<open>simp_all add: tview_def hinv_def pending_ok_def\<close>)
    moreover have "same_threads k ?k" using same_threads_trans [OF same k2(3)] by (simp add: same_threads_def)
    ultimately show ?thesis using k2(4) by auto
  qed
qed

end

subsection \<open>One step\<close>

lemma tinv_running:
  assumes "tinv (Some (currentThread k)) k" "body (cur_frames k)"
  shows "running k"
proof -
  from tinvD(7) [OF assms(1) refl] obtain x where x: "threads k (currentThread k) = Some x" by auto
  have b: "body (frames_of x)" using assms(2) x by (simp add: cur_frames_def)
  have "stack_ok True x" using tinvD(5) [OF assms(1) x] by (simp add: thread_ok_def)
  with b have "t_status x = RUNNING"
    by (cases "t_status x") (auto simp: stack_ok_def asleep_ok_def)
  with x b show ?thesis by (simp add: running_def)
qed

lemma kinv_running_iff: "running k \<Longrightarrow> kinv k \<longleftrightarrow> hinv k \<and> status k \<noteq> IdleMode"
  by (auto simp: kinv_def hinv_def running_def cur_frames_def dest: body_not_off(1))

text \<open>The shapes of the running thread's stack.\<close>

lemma kinv_cases:
  assumes "kinv k"
  obtains x f fs where "threads k (currentThread k) = Some x" "frames_of x = f # fs"
    "t_status x = RUNNING" "plain f \<or> f = FEnable \<or> (\<exists>s. f = FPLoop s)" "body fs"
  | x where "threads k (currentThread k) = Some x" "frames_of x = [FFinish]" "t_status x = RUNNING"
  | x fs where "threads k (currentThread k) = Some x" "frames_of x = FRunTail # fs" "t_status x = RUNNING" "resume_ok fs"
  | x fs where "threads k (currentThread k) = Some x" "frames_of x = FSleepLoop # fs"
proof -
  have inv: "tinv (Some (currentThread k)) k" using assms by (simp add: kinv_def)
  from tinvD(7) [OF inv refl] obtain x where x: "threads k (currentThread k) = Some x" by auto
  have ok: "stack_ok True x" using tinvD(5) [OF inv x] by (simp add: thread_ok_def)
  show ?thesis
  proof (cases "t_status x = RUNNING")
    case False
    with ok obtain fs where "frames_of x = FSleepLoop # fs"
      by (cases "t_status x") (auto simp: stack_ok_def asleep_ok_def)
    with x that(4) show ?thesis by blast
  next
    case True
    with ok have r: "resume_ok (frames_of x) \<or> parked_ok (frames_of x)" by (simp add: stack_ok_def)
    consider (b) "body (frames_of x)" | (p) s r where "frames_of x = FPLoop s # r" "body r"
      | (e) r where "frames_of x = FEnable # r" "body r" | (t) r where "frames_of x = FRunTail # r" "resume_ok r"
      using r unfolding parked_ok_def resume_ok_def by blast
    then show ?thesis
    proof cases
      case b
      then show ?thesis using that(1,2) x True by (cases "frames_of x") auto
    next
      case p
      then show ?thesis using that(1) x True by blast
    next
      case e
      then show ?thesis using that(1) x True by blast
    next
      case t
      then show ?thesis using that(3) x True by blast
    qed
  qed
qed

text \<open>Taking the top frame off.\<close>

lemma pop_kinv:
  assumes "kinv k" "threads k (currentThread k) = Some x" "t_status x = RUNNING" "body fs"
  defines "k0 \<equiv> set_thread (currentThread k) (x\<lparr>frames_of := fs\<rparr>) k"
  shows "kinv k0 \<and> running k0"
proof -
  have inv: "tinv (Some (currentThread k)) k" "cpu_inv k" using assms(1) by (simp_all add: kinv_def)
  have "tinv (Some (currentThread k)) k0"
    unfolding k0_def by (rule tinv_set_frames [OF inv(1) assms(2,3)]) (simp add: resume_ok_def assms(4))
  moreover have "cpu_inv k0"
    using inv(2) assms(2) body_not_off(2) [OF assms(4)] unfolding k0_def cpu_inv_def
    by (auto simp: set_thread_def saved_ok_def)
  ultimately show ?thesis
    using assms(1,3,4) body_not_off(1) [OF assms(4)]
    by (simp add: kinv_def running_def) (simp add: k0_def set_thread_def pending_ok_def cur_frames_def)
qed

text \<open>\<open>Run\<close>, with the old thread already in its place.\<close>

lemma Run_kinv:
  assumes x: "threads k (currentThread k) = Some x" "stack x \<in> {None, Some STACK_FENCEPOST}"
    and cpu: "cpu_inv k"
    and rest: "level k = IntOff" "pending_ok k" "\<not> inHandler k" "status k \<noteq> IdleMode"
    and parked: "\<And>u. tinv None (k\<lparr>threads := (threads k)(currentThread k \<mapsto> x\<lparr>userRegisters := u, frames_of := FRunTail # frames_of x\<rparr>),
       readyList := t # readyList k\<rparr>)"
  shows "\<exists>k'. Run t k = Inr k' \<and> kinv k'"
proof -
  let ?c = "currentThread k"
  obtain u where save: "save_user k x = Inr (x\<lparr>userRegisters := u\<rparr>, k)"
    and u: "space x \<noteq> None \<Longrightarrow> machine k \<noteq> None \<and> regs_ok u"
  proof (cases "space x")
    case None
    then show ?thesis using that [of "userRegisters x"] by (simp add: save_user_def)
  next
    case (Some sp)
    have "saved_ok (machine k) x" using cpu x(1) by (simp add: cpu_inv_def)
    with Some obtain m where m: "machine k = Some m" by (auto simp: saved_ok_def)
    let ?u = "\<lambda>i. if i < NumTotalRegs then registers m i else userRegisters x i"
    have "regs_ok ?u" using cpu m by (simp add: cpu_inv_def regs_ok_def)
    with Some m show ?thesis using that [of ?u] by (simp add: save_user_def SaveUserState_ok SaveState_def)
  qed
  define p where "p = k\<lparr>threads := (threads k)(?c \<mapsto> x\<lparr>userRegisters := u, frames_of := FRunTail # frames_of x\<rparr>), readyList := t # readyList k\<rparr>"
  from dispatch_tinv [OF parked [of u, folded p_def], of t "readyList k"] obtain y where
    y: "threads p t = Some y" "parked_ok (frames_of y)"
       "tinv (Some t) (p\<lparr>threads := (threads p)(t \<mapsto> y\<lparr>t_status := RUNNING\<rparr>), readyList := readyList k, currentThread := t\<rparr>)"
    by (auto simp: p_def)
  define k' where "k' = p\<lparr>threads := (threads p)(t \<mapsto> y\<lparr>t_status := RUNNING\<rparr>), readyList := readyList k, currentThread := t\<rparr>"
  have "CheckOverflow (x\<lparr>userRegisters := u\<rparr>) = Inr ()" using x(2) by (auto simp: CheckOverflow_def)
  then have run: "Run t k = Inr k'"
    using x(1) save y(1) by (cases "t = ?c") (auto simp: Run_def deref_def Let_def set_thread_def k'_def p_def)
  have "cpu_inv p" using cpu u by (auto simp: cpu_inv_def saved_ok_def p_def)
  then have "cpu_inv k'" using y(1) by (auto simp: cpu_inv_def saved_ok_def k'_def)
  then have "kinv k'" using y(3) rest by (simp add: kinv_def k'_def [symmetric]) (simp add: k'_def p_def pending_ok_def)
  with run show ?thesis by blast
qed

lemma Yield_kinv:
  assumes "kinv k" "running k"
  shows "\<exists>k'. Thread_Yield k = Inr k' \<and> kinv k'"
proof -
  let ?c = "currentThread k"
  from assms(2) obtain x where x: "threads k ?c = Some x" "t_status x = RUNNING" "body (frames_of x)"
    by (auto simp: running_def)
  have inv: "tinv (Some ?c) k" using assms(1) by (simp add: kinv_def)
  show ?thesis
  proof (cases "readyList k")
    case Nil
    have "kinv (ChangeLevel (level k) IntOff k) \<and> running (ChangeLevel (level k) IntOff k)"
      using assms tinv_cong [of "k\<lparr>level := IntOff\<rparr>" k]
      by (simp add: kinv_def running_def ChangeLevel_def tview_def cpu_inv_def pending_ok_def cur_frames_def)
    then have "kinv (push [FSetLevel (level k)] (ChangeLevel (level k) IntOff k))" using push_kinv by fastforce
    with Nil show ?thesis by (simp add: Thread_Yield_def disable_def FindNextToRun_def ChangeLevel_def)
  next
    case (Cons t ts)
    define x1 where "x1 = x\<lparr>frames_of := FSetLevel (level k) # frames_of x, t_status := READY\<rparr>"
    define k1 where "k1 = k\<lparr>level := IntOff, threads := (threads k)(?c \<mapsto> x1), readyList := ts @ [?c]\<rparr>"
    have y: "Thread_Yield k = Run t k1"
      using Cons x(1)
      by (simp add: Thread_Yield_def disable_def FindNextToRun_def ChangeLevel_def push_def set_thread_def ReadyToRun_def
          deref_def k1_def x1_def)
    have "\<exists>k'. Run t k1 = Inr k' \<and> kinv k'"
    proof (rule Run_kinv)
      show "threads k1 (currentThread k1) = Some x1" by (simp add: k1_def)
      show "stack x1 \<in> {None, Some STACK_FENCEPOST}"
        using tinvD(5) [OF inv x(1)] by (simp add: x1_def thread_ok_def)
      show "cpu_inv k1" using assms(1) x(1) by (auto simp: kinv_def cpu_inv_def saved_ok_def k1_def x1_def)
      show "level k1 = IntOff" "pending_ok k1" "\<not> inHandler k1" "status k1 \<noteq> IdleMode"
        using assms(1) by (simp_all add: kinv_def k1_def pending_ok_def)
      fix u
      have "body (FSetLevel (level k) # frames_of x)" using x(3) by simp
      from park_yield_tinv [OF inv x(1,2) this, of u] Cons
      show "tinv None (k1\<lparr>threads := (threads k1)(currentThread k1 \<mapsto> x1\<lparr>userRegisters := u, frames_of := FRunTail # frames_of x1\<rparr>),
          readyList := t # readyList k1\<rparr>)"
        by (subst tinv_cong) (auto simp: tview_def k1_def x1_def)
    qed
    with y show ?thesis by simp
  qed
qed

lemma Run_tail_kinv:
  assumes k: "kinv k" and x: "threads k (currentThread k) = Some x" "t_status x = RUNNING" "frames_of x = FRunTail # fs" "resume_ok fs"
  defines "k0 \<equiv> set_thread (currentThread k) (x\<lparr>frames_of := fs\<rparr>) k"
  shows "\<exists>k'. Run_tail k0 = Inr k' \<and> kinv k'"
proof -
  let ?c = "currentThread k"
  have inv: "tinv (Some ?c) k" "cpu_inv k" and off: "level k = IntOff" using k x by (simp_all add: kinv_def cur_frames_def)
  have i0: "tinv (Some ?c) k0"
    unfolding k0_def by (rule tinv_set_frames [OF inv(1) x(1,2)]) (simp add: x(4))
  have x0: "threads k0 ?c = Some (x\<lparr>frames_of := fs\<rparr>)" "currentThread k0 = ?c" by (simp_all add: k0_def set_thread_def)
  have hd: "fs \<noteq> [] \<longrightarrow> hd fs \<noteq> FRunTail" using x(4) body_not_off(2) by (auto simp: resume_ok_def)
  have c0: "cpu_inv k0" using inv(2) x(1) hd unfolding k0_def cpu_inv_def by (auto simp: set_thread_def saved_ok_def)
  define k1 where "k1 = (case threadToBeDestroyed k0 of None \<Rightarrow> k0
    | Some t \<Rightarrow> k0\<lparr>threads := (threads k0)(t := None), threadToBeDestroyed := None\<rparr>)"
  have d: "(case threadToBeDestroyed k0 of None \<Rightarrow> Inr k0
      | Some t \<Rightarrow> res_bind (Thread_delete t k0) (\<lambda>k1. Inr (k1\<lparr>threadToBeDestroyed := None\<rparr>))) = Inr k1 \<and>
    tinv (Some ?c) k1 \<and> threads k1 ?c = Some (x\<lparr>frames_of := fs\<rparr>) \<and> cpu_inv k1"
  proof (cases "threadToBeDestroyed k0")
    case (Some t)
    from destroy_tinv [OF i0 x0(1) _ Some] x(2) have
      t: "t \<noteq> ?c" "threads k0 t \<noteq> None" "tinv (Some ?c) (k0\<lparr>threads := (threads k0)(t := None), threadToBeDestroyed := None\<rparr>)"
      by auto
    then have "Thread_delete t k0 = Inr (k0\<lparr>threads := (threads k0)(t := None)\<rparr>)"
      using x0(2) by (auto simp: Thread_delete_def deref_def)
    with t x0 c0 Some show ?thesis by (auto simp: k1_def cpu_inv_def)
  qed (simp_all add: k1_def i0 x0 c0)
  have f1: "currentThread k1 = ?c" "machine k1 = machine k" "level k1 = IntOff" "pending k1 = pending k"
    "inHandler k1 = inHandler k" "status k1 = status k"
    using off by (simp_all add: k1_def k0_def set_thread_def split: option.split)
  have kinv1: "kinv (k1\<lparr>machine := m'\<rparr>)" if "m' = machine k1 \<or> (\<exists>m. m' = Some m \<and> regs_ok (registers m))" for m'
  proof -
    have "tinv (Some ?c) (k1\<lparr>machine := m'\<rparr>)" using d tinv_cong [of "k1\<lparr>machine := m'\<rparr>" k1] by (simp add: tview_def)
    moreover have "cpu_inv (k1\<lparr>machine := m'\<rparr>)" using d that by (auto simp: cpu_inv_def saved_ok_def)
    ultimately show ?thesis using k f1 by (simp add: kinv_def pending_ok_def)
  qed
  show ?thesis
  proof (cases "space x")
    case None
    then have "Run_tail k0 = Inr k1" using d f1(1) by (simp add: Run_tail_def deref_def)
    moreover have "kinv k1" using kinv1 [of "machine k1"] by simp
    ultimately show ?thesis by blast
  next
    case (Some sp)
    have "saved_ok (machine k) x" using inv(2) x(1) by (simp add: cpu_inv_def)
    with Some x(3) obtain m where m: "machine k = Some m" "regs_ok (userRegisters x)" by (auto simp: saved_ok_def)
    let ?m = "RestoreState sp (m\<lparr>registers := \<lambda>i. if i < NumTotalRegs then userRegisters x i else registers m i\<rparr>)"
    have "Run_tail k0 = Inr (k1\<lparr>machine := Some ?m\<rparr>)"
      using d f1(1,2) Some m(1) by (simp add: Run_tail_def deref_def RestoreUserState_ok cong: if_cong)
    moreover have "kinv (k1\<lparr>machine := Some ?m\<rparr>)"
      using m(2) by (intro kinv1) (simp add: RestoreState_def regs_ok_def)
    ultimately show ?thesis by blast
  qed
qed

lemma Semaphore_P_kinv:
  assumes "kinv k" "running k"
  shows "kinv (Semaphore_P s k)"
proof -
  let ?c = "currentThread k"
  from assms(2) obtain x where x: "threads k ?c = Some x" "t_status x = RUNNING" "body (frames_of x)" by (auto simp: running_def)
  let ?fs = "FPLoop s # FSetLevel (level k) # frames_of x"
  have p: "Semaphore_P s k = (set_thread ?c (x\<lparr>frames_of := ?fs\<rparr>) k)\<lparr>level := IntOff\<rparr>"
    by (simp add: Semaphore_P_def disable_def ChangeLevel_def push_def x(1) set_thread_def)
  have "tinv (Some ?c) (set_thread ?c (x\<lparr>frames_of := ?fs\<rparr>) k)"
    using assms(1) x by (intro tinv_set_frames) (simp_all add: kinv_def resume_ok_def)
  then have "tinv (Some ?c) (Semaphore_P s k)" using tinv_cong [of "Semaphore_P s k" "set_thread ?c (x\<lparr>frames_of := ?fs\<rparr>) k"]
    by (simp add: p tview_def)
  moreover have "cpu_inv (Semaphore_P s k)"
    using assms(1) x(1) unfolding p kinv_def cpu_inv_def by (auto simp: set_thread_def saved_ok_def)
  ultimately show ?thesis using assms(1) by (simp add: kinv_def) (simp add: p set_thread_def pending_ok_def)
qed

lemma P_loop_kinv:
  assumes k: "kinv k" "running k" and off: "level k = IntOff"
  shows "\<exists>k'. P_loop s k = Inr k' \<and> kinv k'"
proof -
  let ?c = "currentThread k"
  from k(2) obtain x where x: "threads k ?c = Some x" "t_status x = RUNNING" "body (frames_of x)" by (auto simp: running_def)
  have inv: "tinv (Some ?c) k" "cpu_inv k" using k(1) by (simp_all add: kinv_def)
  show ?thesis
  proof (cases "sem_value (sems k s) = 0")
    case False
    let ?k = "set_sem s ((sems k s)\<lparr>sem_value := sem_value (sems k s) - 1\<rparr>) k"
    have "tinv (Some ?c) ?k" using inv(1) tinv_cong [of ?k k] by (simp add: tview_def set_sem_def fun_eq_iff)
    then have "kinv ?k"
      using k(1) by (simp add: kinv_def cpu_inv_def set_sem_def pending_ok_def cur_frames_def)
    with False show ?thesis by (simp add: P_loop_def)
  next
    case True
    let ?x = "x\<lparr>t_status := BLOCKED, frames_of := FSleepLoop # FPLoop s # frames_of x\<rparr>"
    let ?k = "k\<lparr>threads := (threads k)(?c \<mapsto> ?x),
      sems := (sems k)(s := (sems k s)\<lparr>sem_queue := sem_queue (sems k s) @ [?c]\<rparr>)\<rparr>"
    have "P_loop s k = Inr ?k"
      using True off x(1) by (simp add: P_loop_def Thread_Sleep_def push_def set_thread_def set_sem_def deref_def)
    moreover have "kinv ?k"
      using k(1) off block_tinv [OF inv(1) x(1,2) refl x(3), of s] x(1)
      by (auto simp: kinv_def pending_ok_def cur_frames_def cpu_inv_def saved_ok_def)
    ultimately show ?thesis by blast
  qed
qed

lemma disable_kinv:
  assumes "kinv k" "running k"
  shows "kinv (snd (disable k))" "running (snd (disable k))" "level (snd (disable k)) = IntOff"
proof -
  have "tinv (Some (currentThread k)) (k\<lparr>level := IntOff\<rparr>)"
    using assms(1) tinv_cong [of "k\<lparr>level := IntOff\<rparr>" k] by (simp add: kinv_def tview_def)
  then show "kinv (snd (disable k))" "running (snd (disable k))" "level (snd (disable k)) = IntOff"
    using assms by (simp_all add: disable_def ChangeLevel_def kinv_def running_def cpu_inv_def pending_ok_def)
qed

lemma wake_kinv:
  assumes "kinv k" "running k"
  shows "\<exists>k'. wake s k = Inr k' \<and> kinv k' \<and> running k'"
proof -
  have inv: "tinv (Some (currentThread k)) k" using assms(1) by (simp add: kinv_def)
  from wake_tinv [OF inv] obtain k' where k': "wake s k = Inr k'" "tinv (Some (currentThread k)) k'" by blast
  note w = wake_same [OF k'(1)]
  have c: "currentThread k' = currentThread k" "cur_frames k' = cur_frames k"
    using w(1) same_threads_frames [OF w(1)] by (simp_all add: same_threads_def)
  have "body (cur_frames k)" using assms(2) by (auto simp: running_def cur_frames_def)
  then have "running k'" using tinv_running [of k'] k'(2) c by simp
  moreover have "cpu_inv k'" using same_threads_cpu [OF w(1,2)] assms(1) by (simp add: kinv_def)
  ultimately show ?thesis using k' w c assms(1) by (auto simp: kinv_running_iff kinv_def hinv_def pending_ok_def)
qed

lemma Semaphore_V_kinv:
  assumes "kinv k" "running k"
  shows "\<exists>k'. Semaphore_V s k = Inr k' \<and> kinv k' \<and> running k'"
proof -
  from wake_kinv [OF disable_kinv(1,2) [OF assms]] obtain k1 where
    k1: "wake s (snd (disable k)) = Inr k1" "kinv k1" "running k1" by blast
  have "kinv (push [FSetLevel (fst (disable k))] k1) \<and> running (push [FSetLevel (fst (disable k))] k1)"
    by (rule push_kinv [OF k1(2,3)]) simp
  with k1(1) show ?thesis by (simp add: Semaphore_V_def case_prod_unfold)
qed

lemma fork_kinv:
  assumes k: "kinv k" "running k" and b: "list_all plain b"
  shows "\<exists>k'. fork_new b k = Inr k' \<and> kinv k' \<and> running k'"
proof -
  let ?c = "currentThread k" and ?n = "next_thread k"
  let ?x = "(StackAllocate b (Thread_new (\<lambda>_. 0)))\<lparr>t_status := READY\<rparr> :: 'b Thread"
  from k(2) obtain x where x: "threads k ?c = Some x" "t_status x = RUNNING" "body (frames_of x)" by (auto simp: running_def)
  have inv: "tinv (Some ?c) k" using k(1) by (simp add: kinv_def)
  note f = fork_tinv(1) [OF inv b] fork_tinv(2) [OF inv b, of "\<lambda>_. 0"]
  define k1 where "k1 = k\<lparr>next_thread := ?n + 1, level := IntOff, threads := (threads k)(?n \<mapsto> ?x), readyList := readyList k @ [?n]\<rparr>"
  have ne: "?c \<noteq> ?n" using f(1) x(1) by auto
  have e: "fork_new b k = Inr (push [FSetLevel (level k)] k1)"
    by (simp add: fork_new_def new_thread_def Thread_Fork_def deref_def set_thread_def disable_def ChangeLevel_def
        ReadyToRun_def k1_def)
  have "tinv (Some ?c) k1" using f(2) by (subst tinv_cong) (auto simp: tview_def k1_def)
  moreover have "cpu_inv k1" using k(1) by (auto simp: kinv_def cpu_inv_def saved_ok_def k1_def StackAllocate_def Thread_new_def)
  moreover have "running k1" using x ne by (simp add: running_def k1_def)
  ultimately have "kinv k1 \<and> running k1"
    using k(1) by (auto simp: kinv_running_iff hinv_def kinv_def k1_def pending_ok_def)
  then have "kinv (push [FSetLevel (level k)] k1) \<and> running (push [FSetLevel (level k)] k1)"
    by (intro push_kinv) auto
  with e show ?thesis by blast
qed

lemma Finish_kinv:
  assumes k: "kinv k" and x: "threads k (currentThread k) = Some x" "t_status x = RUNNING"
  shows "\<exists>k'. Thread_Finish (set_thread (currentThread k) (x\<lparr>frames_of := []\<rparr>) k) = Inr k' \<and> kinv k'"
proof -
  let ?c = "currentThread k"
  let ?x = "x\<lparr>t_status := BLOCKED, frames_of := [FSleepLoop]\<rparr>"
  let ?k = "k\<lparr>level := IntOff, threadToBeDestroyed := Some ?c, threads := (threads k)(?c \<mapsto> ?x)\<rparr>"
  have inv: "tinv (Some ?c) k" using k by (simp add: kinv_def)
  have "Thread_Finish (set_thread ?c (x\<lparr>frames_of := []\<rparr>) k) = Inr ?k"
    by (simp add: Thread_Finish_def disable_def ChangeLevel_def Thread_Sleep_def deref_def push_def set_thread_def)
  moreover have "tinv (Some ?c) ?k" using finish_tinv [OF inv x] by (subst tinv_cong) (auto simp: tview_def)
  then have "kinv ?k"
    using k x(1) by (auto simp: kinv_def pending_ok_def cur_frames_def cpu_inv_def saved_ok_def)
  ultimately show ?thesis by blast
qed

context kernel_handlers
begin

lemma hinv_running:
  assumes "running k" "same_threads k k'" "hinv k'"
  shows "running k'"
proof -
  have "body (cur_frames k')"
    using assms(1) same_threads_frames [OF assms(2)] by (auto simp: running_def cur_frames_def)
  then show ?thesis using assms(3) by (intro tinv_running) (simp_all add: hinv_def)
qed

lemma OneTick_kinv:
  assumes "kinv k" "running k"
  shows "\<exists>y k'. OneTick call k = Inr (y, k') \<and> kinv (push (yield_frames y) k') \<and> running (push (yield_frames y) k')"
proof -
  have h: "hinv k" "status k \<noteq> IdleMode" using assms(1) by (simp_all add: kinv_def hinv_def)
  from OneTick_kernel [OF h] obtain y k' where
    o: "OneTick call k = Inr (y, k')" "hinv k'" "same_threads k k'" "status k' \<noteq> IdleMode"
       "list_all plain (yield_frames y :: 'a frame list)" by blast
  have r: "running k'" by (rule hinv_running [OF assms(2) o(3,2)])
  then have "kinv k'" using o by (simp add: kinv_running_iff)
  from push_kinv [OF this r o(5)] o(1) show ?thesis by blast
qed

lemma set_level_kinv:
  assumes "kinv k" "running k"
  shows "\<exists>k'. set_level call l k = Inr k' \<and> kinv k' \<and> running k'"
proof -
  define k1 where "k1 = k\<lparr>level := l\<rparr>"
  have "tinv (Some (currentThread k)) k1"
    using assms(1) tinv_cong [of k1 k] by (simp add: kinv_def tview_def k1_def)
  then have "hinv k1" "status k1 \<noteq> IdleMode"
    using assms(1) by (simp_all add: hinv_def kinv_def cpu_inv_def pending_ok_def k1_def)
  moreover have r1: "running k1" using assms(2) by (simp add: running_def k1_def)
  ultimately have k1: "kinv k1" "running k1" by (simp_all add: kinv_running_iff)
  have ok: "l = IntOff \<or> \<not> inHandler k" using assms(1) by (simp add: kinv_def)
  show ?thesis
  proof (cases "l = IntOn \<and> level k = IntOff")
    case True
    with OneTick_kinv [OF k1] ok show ?thesis
      by (auto simp: set_level_def SetLevel_def ChangeLevel_def k1_def)
  next
    case False
    have "push [] k1 = k1"
      using k1(2) by (auto simp: push_def running_def set_thread_def fun_upd_idem)
    with False ok k1 show ?thesis
      by (auto simp: set_level_def SetLevel_def ChangeLevel_def k1_def Let_def yield_frames_def)
  qed
qed

lemma Sleep_loop_kinv:
  assumes k: "kinv k" and x: "threads k (currentThread k) = Some x" "frames_of x = FSleepLoop # fs"
  shows "\<exists>k'. Sleep_loop call (set_thread (currentThread k) (x\<lparr>frames_of := fs\<rparr>) k) = Inr k' \<and> (halted k' \<or> kinv k')"
proof -
  let ?c = "currentThread k"
  have inv: "tinv (Some ?c) k" "cpu_inv k" and off: "level k = IntOff"
    using k x by (simp_all add: kinv_def cur_frames_def)
  show ?thesis
  proof (cases "readyList k")
    case Nil
    have e: "push [FSleepLoop] (set_thread ?c (x\<lparr>frames_of := fs\<rparr>) k) = k"
      using x by (simp add: push_def set_thread_def fun_upd_idem)
    have "hinv k" using k by (simp add: kinv_def hinv_def)
    from Idle_kernel [OF this off] obtain b k' where
      i: "Idle call k = Inr (b, k')" "same_threads k k'" "b \<longrightarrow> hinv k' \<and> level k' = IntOff \<and> status k' = SystemMode" by blast
    have "kinv (k'\<lparr>halted := \<not> b\<rparr>)" if b
      using i(3) that tinv_cong [of "k'\<lparr>halted := \<not> b\<rparr>" k']
      by (simp add: kinv_def hinv_def tview_def cpu_inv_def pending_ok_def)
    moreover have "Sleep_loop call (set_thread ?c (x\<lparr>frames_of := fs\<rparr>) k) = Inr (k'\<lparr>halted := \<not> b\<rparr>)"
      using Nil i(1) e by (simp add: Sleep_loop_def FindNextToRun_def) (simp add: set_thread_def)
    ultimately show ?thesis by (cases b) auto
  next
    case (Cons t ts)
    define k1 where "k1 = (set_thread ?c (x\<lparr>frames_of := fs\<rparr>) k)\<lparr>readyList := ts\<rparr>"
    have "\<exists>k'. Run t k1 = Inr k' \<and> kinv k'"
    proof (rule Run_kinv)
      show "threads k1 (currentThread k1) = Some (x\<lparr>frames_of := fs\<rparr>)" by (simp add: k1_def set_thread_def)
      show "stack (x\<lparr>frames_of := fs\<rparr>) \<in> {None, Some STACK_FENCEPOST}"
        using tinvD(5) [OF inv(1) x(1)] by (simp add: thread_ok_def)
      have "fs \<noteq> [] \<longrightarrow> hd fs \<noteq> FRunTail"
        using tinvD(5) [OF inv(1) x(1)] x(2)
        by (auto simp: thread_ok_def stack_ok_def asleep_ok_def resume_ok_def parked_ok_def split: ThreadStatus.splits)
      then show "cpu_inv k1" using inv(2) x(1) by (auto simp: cpu_inv_def saved_ok_def k1_def set_thread_def)
      show "level k1 = IntOff" "pending_ok k1" "\<not> inHandler k1" "status k1 \<noteq> IdleMode"
        using k off by (simp_all add: kinv_def k1_def set_thread_def pending_ok_def)
      fix u
      from park_sleep_tinv [OF inv(1) x, of u] Cons
      show "tinv None (k1\<lparr>threads := (threads k1)(currentThread k1 \<mapsto>
          (x\<lparr>frames_of := fs\<rparr>)\<lparr>userRegisters := u, frames_of := FRunTail # frames_of (x\<lparr>frames_of := fs\<rparr>)\<rparr>),
          readyList := t # readyList k1\<rparr>)"
        by (subst tinv_cong) (auto simp: tview_def k1_def set_thread_def)
    qed
    moreover have "Sleep_loop call (set_thread ?c (x\<lparr>frames_of := fs\<rparr>) k) = Run t k1"
      using Cons by (simp add: Sleep_loop_def FindNextToRun_def k1_def) (simp add: set_thread_def)
    ultimately show ?thesis by auto
  qed
qed

end

text \<open>The steps of a client keep the invariant and leave the stacks alone; the frames they return are plain.\<close>

locale kernel_clients = kernel_handlers call D
  for call :: "('h, 'a, 'z) tcaller" and D +
  fixes exec :: "('h, 'a, 'z) texec"
  assumes exec_kinv: "kinv k \<Longrightarrow> running k \<Longrightarrow> exec a k = Inr (fs, k') \<Longrightarrow> kinv k' \<and> running k' \<and> list_all plain fs"
begin

lemma kstep_ok:
  assumes k: "kinv k"
  shows "(\<exists>k'. kstep call exec k = Inr k' \<and> (halted k' \<or> kinv k')) \<or>
    (\<exists>a fs k0 e. cur_frames k = FAct a # fs \<and> exec a k0 = Inl e \<and> kstep call exec k = Inl e)"
  using k
proof (cases rule: kinv_cases)
  case (1 x f fs)
  define k0 where "k0 = set_thread (currentThread k) (x\<lparr>frames_of := fs\<rparr>) k"
  have p: "kinv k0" "running k0" using pop_kinv [OF k 1(1,3,5)] by (simp_all add: k0_def)
  have st: "kstep call exec k = run_frame call exec f k0" by (simp add: kstep_def deref_def 1 k0_def)
  have off: "level k0 = IntOff" if "f = FPLoop s" for s
    using k 1(1,2) that by (simp add: kinv_def cur_frames_def k0_def set_thread_def)
  show ?thesis
  proof (cases f)
    case (FSetLevel l)
    with set_level_kinv [OF p, of l] st show ?thesis by (auto simp: run_frame_def)
  next
    case (FStatus m)
    have "tinv (Some (currentThread k0)) (k0\<lparr>status := m\<rparr>)"
      using p(1) tinv_cong [of "k0\<lparr>status := m\<rparr>" k0] by (simp add: kinv_def tview_def)
    with p 1(4) FStatus have "kinv (k0\<lparr>status := m\<rparr>)"
      by (simp add: kinv_def cpu_inv_def pending_ok_def cur_frames_def)
    with FStatus st show ?thesis by (simp add: run_frame_def)
  next
    case (FPLoop s)
    with P_loop_kinv [OF p off [OF FPLoop], of s] st show ?thesis by (auto simp: run_frame_def)
  next
    case FEnable
    with set_level_kinv [OF p, of IntOn] st show ?thesis by (auto simp: run_frame_def)
  next
    case (FP s)
    with Semaphore_P_kinv [OF p] st show ?thesis by (auto simp: run_frame_def)
  next
    case (FV s)
    with Semaphore_V_kinv [OF p, of s] st show ?thesis by (auto simp: run_frame_def)
  next
    case FYield
    with Yield_kinv [OF p] st show ?thesis by (auto simp: run_frame_def)
  next
    case (FFork b)
    with fork_kinv [OF p, of b] 1(4) st show ?thesis by (auto simp: run_frame_def)
  next
    case FTick
    with OneTick_kinv [OF p] st show ?thesis by (auto simp: run_frame_def)
  next
    case (FAct a)
    show ?thesis
    proof (cases "exec a k0")
      case (Inl e)
      with FAct st 1 show ?thesis by (auto simp: run_frame_def cur_frames_def)
    next
      case (Inr r)
      obtain gs k1 where r: "r = (gs, k1)" by (cases r)
      from exec_kinv [OF p Inr [unfolded r]] have "kinv (push gs k1)" using push_kinv by blast
      with FAct Inr r st show ?thesis by (simp add: run_frame_def)
    qed
  qed (use 1(4) in auto)
next
  case (2 x)
  with Finish_kinv [OF k 2(1,3)] show ?thesis by (auto simp: kstep_def deref_def run_frame_def)
next
  case (3 x fs)
  with Run_tail_kinv [OF k 3(1,3,2,4)] show ?thesis by (auto simp: kstep_def deref_def run_frame_def)
next
  case (4 x fs)
  with Sleep_loop_kinv [OF k 4] show ?thesis by (auto simp: kstep_def deref_def run_frame_def)
qed

lemma kreach_kinv:
  assumes "kreach call exec k k'" "kinv k" "\<not> halted k"
  shows "halted k' \<or> kinv k'"
  using assms(1)
proof induction
  case kreach_refl
  with assms show ?case by simp
next
  case (kreach_step k1 k2)
  then have "kinv k1" by simp
  from kstep_ok [OF this] kreach_step.hyps(3) show ?case by auto
qed

end

section \<open>The context switch\<close>


text \<open>A kernel with two threads, the first of which runs a user program.\<close>

definition demo_space :: AddrSpace where "demo_space = \<lparr>as_pageTable = Some 0, as_numPages = 3\<rparr>"

definition demo_kernel :: "(nat, nat) TSys" where
  "demo_kernel = \<lparr>level = IntOff, pending = [], inHandler = False, yieldOnReturn = False, status = SystemMode,
     stats = Statistics_new, machine = Some ((Machine_new False)\<lparr>registers := \<lambda>i. word_of_nat (i + 100)\<rparr>),
     threads = [0 \<mapsto> (Thread_new (\<lambda>_. 0))\<lparr>space := Some demo_space, frames_of := [FFinish]\<rparr>, 1 \<mapsto> Thread_new (\<lambda>_. 0)],
     currentThread = 0, readyList = [], threadToBeDestroyed = None, sems = (\<lambda>_. Semaphore_new 0), next_thread = 2, halted = False\<rparr>"


end
