(* ===== verification/ThreadSpec.thy ===== *)
theory ThreadSpec
  imports Threads
begin

text \<open>
  What threads, the scheduler and semaphores promise, as an abstract transition system, and the proof that the kernel
  of theory \<open>Threads\<close> implements it. The abstract state has the threads with their status and their remaining frames, the
  current thread, the ready queue and the semaphores; there are no interrupt levels, clocks, registers or
  handlers in it. Preemption is a transition that can happen at any moment to a running thread,
  and a device can do \<open>V\<close> on one of its semaphores at any moment.

  On the abstract system the three facts about semaphores are proved: the conservation of their
  values, mutual exclusion, and that no wake-up is lost.
\<close>

section \<open>The specification\<close>

record 'a AState =
  a_threads :: "nat \<rightharpoonup> ThreadStatus \<times> 'a frame list"
  a_cur :: nat
  a_ready :: "nat list"
  a_sems :: "nat \<Rightarrow> Semaphore"
  a_next :: nat

definition run_with :: "'a frame list \<Rightarrow> 'a AState \<Rightarrow> 'a AState" where
  "run_with fs A = A\<lparr>a_threads := (a_threads A)(a_cur A \<mapsto> (RUNNING, fs))\<rparr>"

definition dispatch :: "nat \<Rightarrow> 'a AState \<Rightarrow> 'a AState" where
  "dispatch t A = A\<lparr>a_threads := (a_threads A)(t := map_option (\<lambda>(_, fs). (RUNNING, fs)) (a_threads A t)), a_cur := t\<rparr>"

definition upd_sem :: "nat \<Rightarrow> (Semaphore \<Rightarrow> Semaphore) \<Rightarrow> 'a AState \<Rightarrow> 'a AState" where
  "upd_sem s f A = A\<lparr>a_sems := (a_sems A)(s := f (a_sems A s))\<rparr>"

fun neutral :: "'a frame \<Rightarrow> bool" where
  "neutral (FSetLevel l) = True"
| "neutral (FStatus st) = True"
| "neutral FTick = True"
| "neutral FEnable = True"
| "neutral f = False"

text \<open>What a frame will add to the value of a semaphore when it has run.\<close>

fun weight :: "nat \<Rightarrow> 'a frame \<Rightarrow> int" where
  "weight s (FP s') = (if s' = s then -1 else 0)"
| "weight s (FPLoop s') = (if s' = s then -1 else 0)"
| "weight s (FV s') = (if s' = s then 1 else 0)"
| "weight s (FFork b) = sum_list (map (weight s) b)"
| "weight s f = 0"

definition weights :: "nat \<Rightarrow> 'a frame list \<Rightarrow> int" where
  "weights s fs = sum_list (map (weight s) fs)"

lemma weights_simps [simp]:
  "weights s [] = 0" "weights s (f # fs) = weight s f + weights s fs" "weights s (fs @ gs) = weights s fs + weights s gs"
  by (simp_all add: weights_def)

fun touches :: "nat \<Rightarrow> 'a frame \<Rightarrow> bool" where
  "touches s (FP s') = (s' = s)"
| "touches s (FPLoop s') = (s' = s)"
| "touches s (FV s') = (s' = s)"
| "touches s (FFork b) = list_ex (touches s) b"
| "touches s f = False"

definition avoids :: "nat \<Rightarrow> 'a frame list \<Rightarrow> bool" where
  "avoids s fs = (\<forall>f \<in> set fs. \<not> touches s f)"

text \<open>\<open>V\<close>: the value goes up and the first waiting thread becomes ready.\<close>

inductive awake :: "nat \<Rightarrow> 'a AState \<Rightarrow> 'a AState \<Rightarrow> bool" where
  awake_none: "sem_queue (a_sems A s) = [] \<Longrightarrow> awake s A (upd_sem s (\<lambda>v. v\<lparr>sem_value := sem_value v + 1\<rparr>) A)"
| awake_first: "sem_queue (a_sems A s) = t # ts \<Longrightarrow> a_threads A t = Some (BLOCKED, g # FPLoop s # r) \<Longrightarrow>
    g = FRunTail \<or> g = FSleepLoop \<Longrightarrow>
    awake s A ((upd_sem s (\<lambda>v. v\<lparr>sem_queue := ts, sem_value := sem_value v + 1\<rparr>) A)
      \<lparr>a_threads := (a_threads A)(t \<mapsto> (READY, g # FPLoop s # r)), a_ready := a_ready A @ [t]\<rparr>)"

inductive astep :: "nat set \<Rightarrow> 'a AState \<Rightarrow> 'a AState \<Rightarrow> bool" for D where
  a_local: "a_threads A (a_cur A) = Some (RUNNING, f # fs) \<Longrightarrow> neutral f \<Longrightarrow> body fs \<Longrightarrow> astep D A (run_with fs A)"
| a_preempt: "a_threads A (a_cur A) = Some (RUNNING, fs) \<Longrightarrow> body fs \<Longrightarrow> astep D A (run_with (FYield # FStatus st # fs) A)"
| a_client: "a_threads A (a_cur A) = Some (RUNNING, FAct a # fs) \<Longrightarrow> body fs \<Longrightarrow> list_all plain gs \<Longrightarrow>
    (\<forall>s. s \<notin> D \<longrightarrow> avoids s gs) \<Longrightarrow> astep D A (run_with (gs @ fs) A)"
| a_device: "s \<in> D \<Longrightarrow> awake s A A' \<Longrightarrow> astep D A A'"
| a_P: "a_threads A (a_cur A) = Some (RUNNING, FP s # fs) \<Longrightarrow> body fs \<Longrightarrow>
    astep D A (run_with (FPLoop s # FSetLevel l # fs) A)"
| a_acquire: "a_threads A (a_cur A) = Some (RUNNING, FPLoop s # fs) \<Longrightarrow> body fs \<Longrightarrow> sem_value (a_sems A s) \<noteq> 0 \<Longrightarrow>
    astep D A (upd_sem s (\<lambda>v. v\<lparr>sem_value := sem_value v - 1\<rparr>) (run_with fs A))"
| a_block: "a_threads A (a_cur A) = Some (RUNNING, FPLoop s # fs) \<Longrightarrow> body fs \<Longrightarrow> sem_value (a_sems A s) = 0 \<Longrightarrow>
    astep D A ((upd_sem s (\<lambda>v. v\<lparr>sem_queue := sem_queue v @ [a_cur A]\<rparr>) A)
      \<lparr>a_threads := (a_threads A)(a_cur A \<mapsto> (BLOCKED, FSleepLoop # FPLoop s # fs))\<rparr>)"
| a_V: "a_threads A (a_cur A) = Some (RUNNING, FV s # fs) \<Longrightarrow> body fs \<Longrightarrow> awake s (run_with (FSetLevel l # fs) A) A' \<Longrightarrow>
    astep D A A'"
| a_alone: "a_threads A (a_cur A) = Some (RUNNING, FYield # fs) \<Longrightarrow> body fs \<Longrightarrow> a_ready A = [] \<Longrightarrow>
    astep D A (run_with (FSetLevel l # fs) A)"
| a_yield: "a_threads A (a_cur A) = Some (RUNNING, FYield # fs) \<Longrightarrow> body fs \<Longrightarrow> a_ready A = t # ts \<Longrightarrow>
    a_threads A t = Some (READY, gs) \<Longrightarrow>
    astep D A (dispatch t (A\<lparr>a_threads := (a_threads A)(a_cur A \<mapsto> (READY, FRunTail # FSetLevel l # fs)),
      a_ready := ts @ [a_cur A]\<rparr>))"
| a_switch: "a_threads A (a_cur A) = Some (st, FSleepLoop # fs) \<Longrightarrow> st \<noteq> RUNNING \<Longrightarrow> a_ready A = t # ts \<Longrightarrow>
    a_threads A t = Some (READY, gs) \<Longrightarrow>
    astep D A (dispatch t (A\<lparr>a_threads := (a_threads A)(a_cur A \<mapsto> (st, FRunTail # fs)), a_ready := ts\<rparr>))"
| a_resume: "a_threads A (a_cur A) = Some (RUNNING, FRunTail # fs) \<Longrightarrow> resume_ok fs \<Longrightarrow> astep D A (run_with fs A)"
| a_destroy: "a_threads A t = Some (BLOCKED, [FRunTail]) \<Longrightarrow> t \<noteq> a_cur A \<Longrightarrow>
    astep D A (A\<lparr>a_threads := (a_threads A)(t := None)\<rparr>)"
| a_fork: "a_threads A (a_cur A) = Some (RUNNING, FFork b # fs) \<Longrightarrow> body fs \<Longrightarrow> list_all plain b \<Longrightarrow>
    a_threads A (a_next A) = None \<Longrightarrow>
    astep D A (run_with (FSetLevel l # fs) (A\<lparr>a_threads := (a_threads A)(a_next A \<mapsto> (READY, FEnable # b @ [FFinish])),
      a_ready := a_ready A @ [a_next A], a_next := a_next A + 1\<rparr>))"
| a_finish: "a_threads A (a_cur A) = Some (RUNNING, [FFinish]) \<Longrightarrow>
    astep D A (A\<lparr>a_threads := (a_threads A)(a_cur A \<mapsto> (BLOCKED, [FSleepLoop]))\<rparr>)"

section \<open>The kernel implements it\<close>

definition tsig :: "'a Thread option \<Rightarrow> (ThreadStatus \<times> 'a frame list) option" where
  "tsig = map_option (\<lambda>x. (t_status x, frames_of x))"

definition abs_k :: "('h, 'a, 'z) TSys_scheme \<Rightarrow> 'a AState" where
  "abs_k k = \<lparr>a_threads = (\<lambda>t. tsig (threads k t)), a_cur = currentThread k, a_ready = readyList k, a_sems = sems k,
     a_next = next_thread k\<rparr>"

lemma abs_k_simps [simp]:
  "a_threads (abs_k k) t = tsig (threads k t)" "a_cur (abs_k k) = currentThread k" "a_ready (abs_k k) = readyList k"
  "a_sems (abs_k k) = sems k" "a_next (abs_k k) = next_thread k"
  by (simp_all add: abs_k_def)

lemma tsig_simps [simp]: "tsig None = None" "tsig (Some x) = Some (t_status x, frames_of x)"
  by (simp_all add: tsig_def)

lemma abs_k_upd: "(\<lambda>t. tsig ((f(u := v)) t)) = (\<lambda>t. tsig (f t))(u := tsig v)"
  by auto

lemma abs_k_eqI:
  assumes "\<And>t. a_threads A t = a_threads B t" "a_cur A = a_cur B" "a_ready A = a_ready B" "\<And>s. a_sems A s = a_sems B s"
    "a_next A = a_next B"
  shows "A = (B :: 'a AState)"
  using assms by (intro AState.equality ext) simp_all

text \<open>The abstract state that the sequence of frames of the current thread gives.\<close>

lemma abs_set_frames:
  "t_status x = RUNNING \<Longrightarrow> abs_k (set_thread (currentThread k) (x\<lparr>frames_of := fs\<rparr>) k) = run_with fs (abs_k k)"
  by (intro abs_k_eqI) (simp_all add: set_thread_def run_with_def)

lemma abs_push:
  assumes "running k"
  shows "abs_k (push gs k) = run_with (gs @ cur_frames k) (abs_k k)"
  using assms by (intro abs_k_eqI) (auto simp: running_def push_def set_thread_def run_with_def cur_frames_def)

lemma abs_kview: "kview k' = kview k \<Longrightarrow> abs_k k' = abs_k k"
  by (intro abs_k_eqI) (simp_all add: kview_def)

lemma wake_abs:
  assumes "tinv c k" "wake s k = Inr k'"
  shows "awake s (abs_k k) (abs_k k')"
proof (cases "sem_queue (sems k s)")
  case Nil
  then have "abs_k k' = upd_sem s (\<lambda>v. v\<lparr>sem_value := sem_value v + 1\<rparr>) (abs_k k)"
    using assms(2) by (intro abs_k_eqI) (auto simp: wake_def set_sem_def upd_sem_def)
  with awake_none [of "abs_k k" s] Nil show ?thesis by simp
next
  case (Cons t ts)
  then have t: "t \<in> set (sem_queue (sems k s))" by simp
  from tinvD(4) [OF assms(1) this] obtain x where x: "threads k t = Some x" by auto
  have ok: "thread_ok c k t x" "waits_for x s" using tinvD(5) [OF assms(1) x] t unfolding thread_ok_def by blast+
  have st: "t_status x = BLOCKED" using ok(2) by (simp add: waits_for_def)
  then have "asleep_ok (if c = Some t then FSleepLoop else FRunTail) (frames_of x)"
    using ok(1) by (simp add: thread_ok_def stack_ok_def)
  with ok(2) obtain g r where fr: "frames_of x = g # FPLoop s # r" "g = FRunTail \<or> g = FSleepLoop"
    unfolding asleep_ok_def waits_for_def by (auto split: if_splits)
  have "abs_k k' = (upd_sem s (\<lambda>v. v\<lparr>sem_queue := ts, sem_value := sem_value v + 1\<rparr>) (abs_k k))
      \<lparr>a_threads := (a_threads (abs_k k))(t \<mapsto> (READY, g # FPLoop s # r)), a_ready := a_ready (abs_k k) @ [t]\<rparr>"
    using assms(2) Cons x fr(1)
    by (intro abs_k_eqI) (auto simp: wake_def ReadyToRun_def deref_def set_sem_def set_thread_def upd_sem_def)
  with awake_first [of "abs_k k" s t ts g r] Cons x st fr show ?thesis by simp
qed

lemma woken_abs:
  assumes "woken D k k'" "tinv (Some (currentThread k)) k"
  shows "(astep D)\<^sup>*\<^sup>* (abs_k k) (abs_k k')"
proof -
  from assms(1) obtain ss k1 where w: "set ss \<subseteq> D" "res_fold wake ss k = Inr k1" "kview k' = kview k1" unfolding woken_def by blast
  have "(astep D)\<^sup>*\<^sup>* (abs_k k) (abs_k k1)"
    using w(1,2) assms(2)
  proof (induction ss arbitrary: k)
    case (Cons s ss)
    from Cons.prems(2) obtain k2 where k2: "wake s k = Inr k2" "res_fold wake ss k2 = Inr k1" by (auto simp: res_bind_Inr_iff)
    have c: "currentThread k2 = currentThread k" using wake_same(1) [OF k2(1)] by (simp add: same_threads_def)
    have "tinv (Some (currentThread k2)) k2" using wake_tinv [OF Cons.prems(3), of s] k2(1) c by auto
    with Cons.IH [OF _ k2(2)] Cons.prems(1) have "(astep D)\<^sup>*\<^sup>* (abs_k k2) (abs_k k1)" by simp
    moreover have "astep D (abs_k k) (abs_k k2)"
      using wake_abs [OF Cons.prems(3) k2(1)] Cons.prems(1) by (intro a_device) auto
    ultimately show ?case by (rule converse_rtranclp_into_rtranclp [rotated])
  qed simp
  then show ?thesis by (simp add: abs_kview [OF w(3)])
qed

context kernel_handlers
begin

lemma run_handler_woken:
  assumes "run_handler call p k = Inr k'"
  shows "woken D k k'"
proof -
  from assms obtain k1 k2 where
    m: "(case machine k of None \<Rightarrow> Inr k
         | Some m \<Rightarrow> res_bind (DelayedLoad 0 0 m) (\<lambda>m'. Inr (k\<lparr>machine := Some m'\<rparr>))) = Inr k1" and
    k2: "call (handler p) (arg p) (k1\<lparr>inHandler := True, status := SystemMode\<rparr>) = Inr k2" and
    k': "k' = k2\<lparr>status := status k, inHandler := False\<rparr>"
    unfolding run_handler_def res_bind_Inr_iff by blast
  from m have "kview (k1\<lparr>inHandler := True, status := SystemMode\<rparr>) = kview k"
    by (auto simp: kview_def res_bind_Inr_iff split: option.splits)
  from woken_view [OF this, of D] call_woken [OF k2] have "woken D k k2" by (blast intro: woken_trans)
  moreover have "woken D k2 k'" by (rule woken_view) (simp add: k' kview_def)
  ultimately show ?thesis by (rule woken_trans)
qed

lemma CheckIfDue_woken:
  assumes "CheckIfDue call adv k = Inr (b, k')"
  shows "woken D k k'"
proof (cases "pending k")
  case (Cons e rest)
  obtain w p where e: "e = (w, p)" by (cases e)
  define k1 where "k1 = (if w > now k then k\<lparr>pending := rest,
      stats := (stats k)\<lparr>idleTicks := idleTicks (stats k) + (w - now k), totalTicks := w\<rparr>\<rparr> else k\<lparr>pending := rest\<rparr>)"
  have v: "kview k1 = kview k" by (simp add: k1_def kview_def)
  from assms Cons e have "k' = k\<lparr>pending := ins_sorted w p rest\<rparr> \<or> k' = k1\<lparr>pending := ins_sorted w p rest\<rparr> \<or>
      run_handler call p k1 = Inr k'"
    by (auto simp: CheckIfDue_def ASSERT_Inr_iff Let_def res_bind_Inr_iff k1_def split: if_splits)
  then have "kview k' = kview k \<or> woken D k1 k'"
    using v run_handler_woken by (auto simp: kview_def)
  with woken_view [OF v, of D] show ?thesis by (blast intro: woken_view woken_trans)
qed (use assms in \<open>auto simp: CheckIfDue_def ASSERT_Inr_iff intro: woken_view\<close>)

lemma fire_due_woken: "fire_due call n k = Inr k' \<Longrightarrow> woken D k k'"
proof (induction n arbitrary: k)
  case (Suc n)
  then obtain b k1 where "CheckIfDue call False k = Inr (b, k1)" "(if b then fire_due call n k1 else Inr k1) = Inr k'"
    by (auto simp: fire_due.simps res_bind_Inr_iff)
  with Suc.IH [of k1] show ?case by (auto dest!: CheckIfDue_woken intro: woken_trans split: if_splits)
qed (simp add: fire_due.simps)

lemma OneTick_woken:
  assumes "OneTick call k = Inr (y, k')"
  shows "woken D k k'"
proof -
  define k1 where "k1 = ChangeLevel IntOn IntOff (k\<lparr>stats := tick_stats k\<rparr>)"
  from assms obtain k2 where k2: "fire_due call (Suc (length (pending k1))) k1 = Inr k2" "kview k' = kview k2"
    unfolding OneTick_def Let_def k1_def [symmetric] by (auto simp: res_bind_Inr_iff ChangeLevel_def kview_def split: if_splits)
  have "woken D k k1" by (rule woken_view) (simp add: k1_def kview_def ChangeLevel_def)
  from woken_trans [OF this fire_due_woken [OF k2(1)]] woken_view [OF k2(2), of D] show ?thesis by (rule woken_trans)
qed

lemma Idle_woken:
  assumes "Idle call k = Inr (b, k')"
  shows "woken D k k'"
proof -
  from assms obtain b1 k1 where c: "CheckIfDue call True (k\<lparr>status := IdleMode\<rparr>) = Inr (b1, k1)"
    and f: "k' = k1 \<or> (\<exists>k2. fire_due call (Suc (length (pending k1))) k1 = Inr k2 \<and> kview k' = kview k2)"
    unfolding Idle_def by (auto simp: res_bind_Inr_iff kview_def split: if_splits)
  have "woken D k (k\<lparr>status := IdleMode\<rparr>)" by (rule woken_view) (simp add: kview_def)
  from woken_trans [OF this CheckIfDue_woken [OF c]] f show ?thesis
    by (blast intro: woken_view woken_trans fire_due_woken)
qed

lemma tick_refines:
  assumes "kinv k" "running k" "OneTick call k = Inr (y, k')"
  shows "(astep D)\<^sup>*\<^sup>* (abs_k k) (abs_k (push (yield_frames y) k'))"
proof -
  have inv: "tinv (Some (currentThread k)) k" and h: "hinv k" "status k \<noteq> IdleMode"
    using assms(1) by (simp_all add: kinv_def hinv_def)
  have w: "(astep D)\<^sup>*\<^sup>* (abs_k k) (abs_k k')" by (rule woken_abs [OF OneTick_woken [OF assms(3)] inv])
  from OneTick_kernel [OF h] assms(3) have k': "hinv k'" "same_threads k k'" by auto
  have r: "running k'" by (rule hinv_running [OF assms(2) k'(2,1)])
  have "(astep D)\<^sup>*\<^sup>* (abs_k k') (abs_k (push (yield_frames y) k'))"
  proof (cases y)
    case None
    have "push [] k' = k'" using r by (auto simp: push_def running_def set_thread_def fun_upd_idem)
    with None show ?thesis by (simp add: yield_frames_def)
  next
    case (Some st)
    have "astep D (abs_k k') (run_with (FYield # FStatus st # cur_frames k') (abs_k k'))"
      using r by (intro a_preempt) (auto simp: running_def cur_frames_def)
    with Some r show ?thesis by (simp add: yield_frames_def abs_push)
  qed
  with w show ?thesis by simp
qed

lemma set_level_refines:
  assumes "kinv k" "running k" "set_level call l k = Inr k'"
  shows "(astep D)\<^sup>*\<^sup>* (abs_k k) (abs_k k')"
proof -
  define k1 where "k1 = k\<lparr>level := l\<rparr>"
  have v: "kview k1 = kview k" by (simp add: k1_def kview_def)
  have "tinv (Some (currentThread k)) k1" using assms(1) tinv_cong [of k1 k] by (simp add: kinv_def tview_def k1_def)
  then have "hinv k1" "status k1 \<noteq> IdleMode"
    using assms(1) by (simp_all add: hinv_def kinv_def cpu_inv_def pending_ok_def k1_def)
  moreover have r1: "running k1" using assms(2) by (simp add: running_def k1_def)
  ultimately have k1: "kinv k1" "running k1" by (simp_all add: kinv_running_iff)
  have ok: "l = IntOff \<or> \<not> inHandler k" using assms(1) by (simp add: kinv_def)
  show ?thesis
  proof (cases "l = IntOn \<and> level k = IntOff")
    case True
    with assms(3) ok obtain y k2 where t: "OneTick call k1 = Inr (y, k2)" "k' = push (yield_frames y) k2"
      by (auto simp: set_level_def SetLevel_def ChangeLevel_def k1_def res_bind_Inr_iff)
    from tick_refines [OF k1 t(1)] t(2) show ?thesis by (simp add: abs_kview [OF v])
  next
    case False
    have "push [] k1 = k1" using k1(2) by (auto simp: push_def running_def set_thread_def fun_upd_idem)
    with False assms(3) ok have "k' = k1"
      by (auto simp: set_level_def SetLevel_def ChangeLevel_def k1_def Let_def yield_frames_def)
    then show ?thesis by (simp add: abs_kview [OF v])
  qed
qed

end

text \<open>\<open>Run\<close>, as the abstract state sees it.\<close>

lemma Run_abs:
  assumes "Run t k = Inr k'" "threads k (currentThread k) = Some x"
  shows "abs_k k' = dispatch t ((abs_k k)\<lparr>a_threads := (a_threads (abs_k k))(currentThread k \<mapsto> (t_status x, FRunTail # frames_of x))\<rparr>)"
proof -
  from assms obtain x1 k1 y where r: "save_user k x = Inr (x1, k1)"
      "threads (set_thread (currentThread k) (x1\<lparr>frames_of := FRunTail # frames_of x1\<rparr>) k1) t = Some y"
      "k' = (set_thread t (y\<lparr>t_status := RUNNING\<rparr>) (set_thread (currentThread k) (x1\<lparr>frames_of := FRunTail # frames_of x1\<rparr>) k1))\<lparr>currentThread := t\<rparr>"
    by (auto simp: Run_def deref_def res_bind_Inr_iff Let_def split: option.splits)
  from r(1) have s: "t_status x1 = t_status x" "frames_of x1 = frames_of x" "threads k1 = threads k" "kview k1 = kview k"
    by (auto simp: save_user_def SaveUserState_ok kview_def split: option.splits)
  from s(4) have "readyList k1 = readyList k" "sems k1 = sems k" "next_thread k1 = next_thread k" by (simp_all add: kview_def)
  with s(1-3) r(2,3) show ?thesis
    by (intro abs_k_eqI) (auto simp: set_thread_def dispatch_def split: if_splits)
qed

lemma Run_tail_abs:
  assumes "Run_tail k = Inr k'"
  shows "abs_k k' = (case threadToBeDestroyed k of None \<Rightarrow> abs_k k
    | Some t \<Rightarrow> (abs_k k)\<lparr>a_threads := (a_threads (abs_k k))(t := None)\<rparr>)"
proof -
  from assms obtain k1 where k1: "(case threadToBeDestroyed k of None \<Rightarrow> Inr k
      | Some t \<Rightarrow> res_bind (Thread_delete t k) (\<lambda>k1. Inr (k1\<lparr>threadToBeDestroyed := None\<rparr>))) = Inr k1"
    and r: "deref (currentThread k1) k1 (\<lambda>x. case space x of None \<Rightarrow> Inr k1
       | Some sp \<Rightarrow> (case machine k1 of None \<Rightarrow> Inl NullDeref
           | Some m \<Rightarrow> res_bind (RestoreUserState x m) (\<lambda>m'. Inr (k1\<lparr>machine := Some (RestoreState sp m')\<rparr>)))) = Inr k'"
    unfolding Run_tail_def res_bind_Inr_iff by blast
  from r have "kview k' = kview k1" by (auto simp: deref_def RestoreUserState_ok kview_def split: option.splits)
  then have "abs_k k' = abs_k k1" by (rule abs_kview)
  also have "\<dots> = (case threadToBeDestroyed k of None \<Rightarrow> abs_k k
    | Some t \<Rightarrow> (abs_k k)\<lparr>a_threads := (a_threads (abs_k k))(t := None)\<rparr>)"
    using k1
    by (intro abs_k_eqI) (auto simp: Thread_delete_def deref_def ASSERT_Inr_iff res_bind_Inr_iff split: option.splits)
  finally show ?thesis .
qed

text \<open>\<open>V\<close> of a thread: the rest of its frames does not matter for the wake-up.\<close>

lemma V_refines:
  assumes "kinv k" "running k" "wake s (k\<lparr>level := IntOff\<rparr>) = Inr k1"
    "abs_k k = run_with fs A" "a_threads A (a_cur A) = Some (RUNNING, FV s # fs)" "body fs"
  shows "astep D A (abs_k (push [FSetLevel l] k1))"
proof -
  let ?k = "k\<lparr>level := IntOff\<rparr>" and ?c = "currentThread k"
  from assms(2) obtain x where x: "threads k ?c = Some x" "t_status x = RUNNING" "body (frames_of x)" by (auto simp: running_def)
  have fs: "frames_of x = fs" using arg_cong [OF assms(4), of "\<lambda>A. a_threads A (a_cur A)"] x
    by (simp add: run_with_def)
  define p where "p = push [FSetLevel l] ?k"
  have inv: "tinv (Some ?c) k" using assms(1) by (simp add: kinv_def)
  have ip: "tinv (Some ?c) p"
  proof -
    have "tinv (Some ?c) ?k" using inv tinv_cong [of ?k k] by (simp add: tview_def)
    from tinv_set_frames [OF this, of x "FSetLevel l # frames_of x"] x show ?thesis
      by (simp add: p_def push_def resume_ok_def)
  qed
  have "?c \<notin> set (sem_queue (sems k s))"
    using tinvD(5) [OF inv x(1)] x(2) by (simp add: thread_ok_def waits_for_def)
  then have notc: "t \<noteq> ?c" if "sem_queue (sems k s) = t # ts" for t ts using that by auto
  have "\<exists>k2. wake s p = Inr k2 \<and> abs_k k2 = abs_k (push [FSetLevel l] k1)"
  proof (cases "sem_queue (sems k s)")
    case Nil
    with assms(3) x show ?thesis
      by (auto simp: wake_def set_sem_def p_def push_def set_thread_def intro!: abs_k_eqI)
  next
    case (Cons t ts)
    with notc assms(3) x show ?thesis
      by (auto simp: wake_def set_sem_def p_def push_def set_thread_def ReadyToRun_def deref_def split: option.splits intro!: abs_k_eqI)
  qed
  then obtain k2 where k2: "wake s p = Inr k2" "abs_k k2 = abs_k (push [FSetLevel l] k1)" by blast
  have ap: "abs_k p = run_with (FSetLevel l # fs) A"
  proof -
    have "abs_k p = run_with (FSetLevel l # fs) (abs_k k)"
      using x fs by (intro abs_k_eqI) (auto simp: p_def push_def set_thread_def run_with_def)
    then show ?thesis by (simp add: assms(4)) (simp add: run_with_def)
  qed
  from wake_abs [OF ip k2(1)] have "awake s (run_with (FSetLevel l # fs) A) (abs_k (push [FSetLevel l] k1))" by (simp add: ap k2(2))
  with assms(5,6) show ?thesis by (rule a_V)
qed

text \<open>The steps of clients do not touch threads or semaphores by themselves, and the calls they leave to be made use
  only the semaphores of the devices.\<close>

locale kernel_sync = kernel_clients call D exec
  for call :: "('h, 'a, 'z) tcaller" and D and exec :: "('h, 'a, 'z) texec" +
  assumes exec_abs: "exec a k = Inr (fs, k') \<Longrightarrow> abs_k k' = abs_k k \<and> (\<forall>s. s \<notin> D \<longrightarrow> avoids s fs)"
begin

lemma kstep_refines:
  assumes k: "kinv k" and step: "kstep call exec k = Inr k'"
  shows "(astep D)\<^sup>*\<^sup>* (abs_k k) (abs_k k')"
  using k
proof (cases rule: kinv_cases)
  case (1 x f fs)
  define k0 where "k0 = set_thread (currentThread k) (x\<lparr>frames_of := fs\<rparr>) k"
  have p: "kinv k0" "running k0" using pop_kinv [OF k 1(1,3,5)] by (simp_all add: k0_def)
  have st: "run_frame call exec f k0 = Inr k'" using step by (simp add: kstep_def deref_def 1 k0_def)
  have a0: "abs_k k0 = run_with fs (abs_k k)" by (simp add: k0_def abs_set_frames 1(3))
  have top: "a_threads (abs_k k) (a_cur (abs_k k)) = Some (RUNNING, f # fs)" using 1 by simp
  have pop: "astep D (abs_k k) (abs_k k0)" if "neutral f" unfolding a0 using top that 1(5) by (rule a_local)
  have inv0: "tinv (Some (currentThread k0)) k0" using p(1) by (simp add: kinv_def)
  have x0: "threads k0 (currentThread k0) = Some (x\<lparr>frames_of := fs\<rparr>)" "currentThread k0 = currentThread k"
    by (simp_all add: k0_def set_thread_def)
  have same0: "readyList k0 = readyList k" "sems k0 = sems k" "next_thread k0 = next_thread k" "level k0 = level k"
    by (simp_all add: k0_def set_thread_def)
  show ?thesis
  proof (cases f)
    case (FSetLevel l)
    with st have "set_level call l k0 = Inr k'" by (simp add: run_frame_def)
    from set_level_refines [OF p this] pop FSetLevel show ?thesis by (auto intro: converse_rtranclp_into_rtranclp)
  next
    case (FStatus m)
    with st have "k' = k0\<lparr>status := m\<rparr>" by (simp add: run_frame_def)
    then have "abs_k k' = abs_k k0" by (simp add: abs_k_def)
    with pop FStatus show ?thesis by (simp add: r_into_rtranclp)
  next
    case FEnable
    with st have "set_level call IntOn k0 = Inr k'" by (simp add: run_frame_def)
    from set_level_refines [OF p this] pop FEnable show ?thesis by (auto intro: converse_rtranclp_into_rtranclp)
  next
    case FTick
    with st obtain y k1 where "OneTick call k0 = Inr (y, k1)" "k' = push (yield_frames y) k1"
      by (auto simp: run_frame_def res_bind_Inr_iff)
    with tick_refines [OF p, of y k1] pop FTick show ?thesis by (auto intro: converse_rtranclp_into_rtranclp)
  next
    case (FPLoop s)
    have off: "level k0 = IntOff" using k 1(1,2) FPLoop by (simp add: kinv_def cur_frames_def same0)
    show ?thesis
    proof (cases "sem_value (sems k s) = 0")
      case True
      let ?x = "x\<lparr>t_status := BLOCKED, frames_of := FSleepLoop # FPLoop s # fs\<rparr>"
      have "k' = k0\<lparr>sems := (sems k0)(s := (sems k0 s)\<lparr>sem_queue := sem_queue (sems k0 s) @ [currentThread k0]\<rparr>),
          threads := (threads k0)(currentThread k0 \<mapsto> ?x)\<rparr>"
        using st FPLoop True off x0
        by (simp add: run_frame_def P_loop_def Thread_Sleep_def push_def set_thread_def set_sem_def deref_def same0)
      then have "abs_k k' = (upd_sem s (\<lambda>v. v\<lparr>sem_queue := sem_queue v @ [a_cur (abs_k k)]\<rparr>) (abs_k k))
          \<lparr>a_threads := (a_threads (abs_k k))(a_cur (abs_k k) \<mapsto> (BLOCKED, FSleepLoop # FPLoop s # fs))\<rparr>"
        by (intro abs_k_eqI) (auto simp: upd_sem_def k0_def set_thread_def)
      moreover have "astep D (abs_k k) \<dots>"
        using top FPLoop True 1(5) by (intro a_block) simp_all
      ultimately show ?thesis by (simp add: r_into_rtranclp)
    next
      case False
      have "k' = set_sem s ((sems k0 s)\<lparr>sem_value := sem_value (sems k0 s) - 1\<rparr>) k0"
        using st FPLoop False by (simp add: run_frame_def P_loop_def same0)
      then have "abs_k k' = upd_sem s (\<lambda>v. v\<lparr>sem_value := sem_value v - 1\<rparr>) (run_with fs (abs_k k))"
        unfolding a0 [symmetric] by (intro abs_k_eqI) (auto simp: upd_sem_def set_sem_def)
      moreover have "astep D (abs_k k) \<dots>" using top FPLoop False 1(5) by (intro a_acquire) simp_all
      ultimately show ?thesis by (simp add: r_into_rtranclp)
    qed
  next
    case (FP s)
    with st have "k' = Semaphore_P s k0" by (simp add: run_frame_def)
    then have "abs_k k' = run_with (FPLoop s # FSetLevel (level k0) # fs) (abs_k k)"
      using x0 1(3)
      by (intro abs_k_eqI)
        (auto simp: Semaphore_P_def disable_def ChangeLevel_def push_def set_thread_def run_with_def k0_def)
    moreover have "astep D (abs_k k) \<dots>" using top FP 1(5) by (intro a_P) simp_all
    ultimately show ?thesis by (simp add: r_into_rtranclp)
  next
    case (FV s)
    with st obtain k1 where k1: "wake s (k0\<lparr>level := IntOff\<rparr>) = Inr k1" "k' = push [FSetLevel (level k0)] k1"
      by (auto simp: run_frame_def Semaphore_V_def disable_def ChangeLevel_def res_bind_Inr_iff)
    show ?thesis using V_refines [OF p k1(1) a0 _ 1(5), of D "level k0"] top FV k1(2) by (simp add: r_into_rtranclp)
  next
    case FYield
    show ?thesis
    proof (cases "readyList k")
      case Nil
      with st FYield have "k' = push [FSetLevel (level k0)] (k0\<lparr>level := IntOff\<rparr>)"
        by (simp add: run_frame_def Thread_Yield_def disable_def ChangeLevel_def FindNextToRun_def same0)
      then have "abs_k k' = run_with (FSetLevel (level k0) # fs) (abs_k k)"
        using x0 1(3) by (intro abs_k_eqI) (auto simp: push_def set_thread_def run_with_def k0_def)
      moreover have "astep D (abs_k k) \<dots>" using top FYield Nil 1(5) by (intro a_alone) simp_all
      ultimately show ?thesis by (simp add: r_into_rtranclp)
    next
      case (Cons t ts)
      define x1 where "x1 = x\<lparr>frames_of := FSetLevel (level k0) # fs, t_status := READY\<rparr>"
      define k1 where "k1 = k0\<lparr>level := IntOff, threads := (threads k0)(currentThread k0 \<mapsto> x1), readyList := ts @ [currentThread k0]\<rparr>"
      have run: "Run t k1 = Inr k'"
        using st FYield Cons x0
        by (simp add: run_frame_def Thread_Yield_def disable_def FindNextToRun_def ChangeLevel_def push_def set_thread_def
            ReadyToRun_def deref_def k1_def x1_def same0)
      have "threads k1 (currentThread k1) = Some x1" by (simp add: k1_def)
      note e = Run_abs [OF run this]
      have inv: "tinv (Some (currentThread k)) k" using k by (simp add: kinv_def)
      from tinvD(3) [OF inv, of t] Cons obtain y where y: "threads k t = Some y" by auto
      have "t_status y = READY" using tinvD(5) [OF inv y] Cons by (simp add: thread_ok_def)
      with y have ty: "a_threads (abs_k k) t = Some (READY, frames_of y)" by simp
      have "abs_k k' = dispatch t ((abs_k k)\<lparr>a_threads := (a_threads (abs_k k))(a_cur (abs_k k) \<mapsto> (READY, FRunTail # FSetLevel (level k0) # fs)),
          a_ready := ts @ [a_cur (abs_k k)]\<rparr>)"
        unfolding e by (intro abs_k_eqI) (auto simp: dispatch_def k1_def x1_def k0_def set_thread_def)
      moreover have "astep D (abs_k k) \<dots>"
        using top FYield Cons 1(5) ty by (intro a_yield) simp_all
      ultimately show ?thesis by (simp add: r_into_rtranclp)
    qed
  next
    case (FFork b)
    let ?n = "next_thread k"
    have fresh: "threads k ?n = None" using tinvD(5) [of "Some (currentThread k)" k ?n] k
      by (cases "threads k ?n") (auto simp: kinv_def thread_ok_def)
    have "currentThread k \<noteq> ?n" using fresh 1(1) by auto
    with st FFork x0 1(3) have "abs_k k' = run_with (FSetLevel (level k0) # fs)
        ((abs_k k)\<lparr>a_threads := (a_threads (abs_k k))(a_next (abs_k k) \<mapsto> (READY, FEnable # b @ [FFinish])),
          a_ready := a_ready (abs_k k) @ [a_next (abs_k k)], a_next := a_next (abs_k k) + 1\<rparr>)"
      by (intro abs_k_eqI)
        (auto simp: run_frame_def fork_new_def new_thread_def Thread_Fork_def deref_def set_thread_def disable_def ChangeLevel_def
          ReadyToRun_def push_def run_with_def k0_def StackAllocate_def)
    moreover have "astep D (abs_k k) \<dots>" using top FFork 1(4,5) fresh by (intro a_fork) simp_all
    ultimately show ?thesis by (simp add: r_into_rtranclp)
  next
    case (FAct a)
    with st obtain gs k1 where e: "exec a k0 = Inr (gs, k1)" "k' = push gs k1" by (auto simp: run_frame_def res_bind_Inr_iff)
    from exec_kinv [OF p e(1)] exec_abs [OF e(1)] have
      r: "running k1" "list_all plain gs" "abs_k k1 = abs_k k0" "\<forall>s. s \<notin> D \<longrightarrow> avoids s gs" by auto
    have "a_threads (abs_k k1) (a_cur (abs_k k1)) = Some (RUNNING, fs)" by (simp add: r(3) a0 run_with_def)
    with r(1) have "cur_frames k1 = fs" by (auto simp: running_def cur_frames_def)
    then have "abs_k k' = run_with (gs @ fs) (abs_k k)"
      using r(1,3) by (simp add: e(2) abs_push a0 run_with_def)
    moreover have "astep D (abs_k k) \<dots>" using top FAct 1(5) r(2,4) by (intro a_client) simp_all
    ultimately show ?thesis by (simp add: r_into_rtranclp)
  qed (use 1(4) in auto)
next
  case (2 x)
  with step have "abs_k k' = (abs_k k)\<lparr>a_threads := (a_threads (abs_k k))(a_cur (abs_k k) \<mapsto> (BLOCKED, [FSleepLoop]))\<rparr>"
    by (intro abs_k_eqI)
      (auto simp: kstep_def deref_def run_frame_def Thread_Finish_def disable_def ChangeLevel_def Thread_Sleep_def push_def set_thread_def)
  moreover have "astep D (abs_k k) \<dots>" using 2 by (intro a_finish) simp
  ultimately show ?thesis by (simp add: r_into_rtranclp)
next
  case (3 x fs)
  define k0 where "k0 = set_thread (currentThread k) (x\<lparr>frames_of := fs\<rparr>) k"
  have a0: "abs_k k0 = run_with fs (abs_k k)" by (simp add: k0_def abs_set_frames 3(3))
  have res: "astep D (abs_k k) (abs_k k0)" unfolding a0 using 3 by (intro a_resume) simp_all
  from step 3 have "Run_tail k0 = Inr k'" by (simp add: kstep_def deref_def run_frame_def k0_def)
  from Run_tail_abs [OF this] have e: "abs_k k' = (case threadToBeDestroyed k of None \<Rightarrow> abs_k k0
      | Some t \<Rightarrow> (abs_k k0)\<lparr>a_threads := (a_threads (abs_k k0))(t := None)\<rparr>)"
    by (simp add: k0_def set_thread_def)
  show ?thesis
  proof (cases "threadToBeDestroyed k")
    case (Some t)
    have inv: "tinv (Some (currentThread k)) k" using k by (simp add: kinv_def)
    from tinvD(6) [OF inv Some] obtain y g where y: "threads k t = Some y" "t_status y = BLOCKED" "frames_of y = [g]" by blast
    have ne: "t \<noteq> currentThread k" using y 3 by auto
    with tinvD(5) [OF inv y(1)] y have "g = FRunTail" by (auto simp: thread_ok_def stack_ok_def asleep_ok_def)
    with y ne have "astep D (abs_k k0) (abs_k k')"
      unfolding e Some option.case by (intro a_destroy) (simp_all add: k0_def set_thread_def)
    with res show ?thesis by (meson r_into_rtranclp rtranclp.rtrancl_into_rtrancl)
  qed (use res e in \<open>simp add: r_into_rtranclp\<close>)
next
  case (4 x fs)
  let ?k0 = "set_thread (currentThread k) (x\<lparr>frames_of := fs\<rparr>) k"
  have inv: "tinv (Some (currentThread k)) k" using k by (simp add: kinv_def)
  have st: "Sleep_loop call ?k0 = Inr k'" using step 4 by (simp add: kstep_def deref_def run_frame_def)
  show ?thesis
  proof (cases "readyList k")
    case Nil
    have "push [FSleepLoop] ?k0 = k" using 4 by (simp add: push_def set_thread_def fun_upd_idem)
    with st Nil obtain b k1 where i: "Idle call k = Inr (b, k1)" "abs_k k' = abs_k k1"
      by (auto simp: Sleep_loop_def FindNextToRun_def res_bind_Inr_iff set_thread_def abs_k_def)
    from woken_abs [OF Idle_woken [OF i(1)] inv] i(2) show ?thesis by simp
  next
    case (Cons t ts)
    have run: "Run t (?k0\<lparr>readyList := ts\<rparr>) = Inr k'"
      using st Cons by (simp add: Sleep_loop_def FindNextToRun_def set_thread_def)
    have "threads (?k0\<lparr>readyList := ts\<rparr>) (currentThread (?k0\<lparr>readyList := ts\<rparr>)) = Some (x\<lparr>frames_of := fs\<rparr>)"
      by (simp add: set_thread_def)
    note e = Run_abs [OF run this]
    from tinvD(3) [OF inv, of t] Cons obtain y where y: "threads k t = Some y" by auto
    have "t_status y = READY" using tinvD(5) [OF inv y] Cons by (simp add: thread_ok_def)
    with y have ty: "a_threads (abs_k k) t = Some (READY, frames_of y)" by simp
    have ns: "t_status x \<noteq> RUNNING"
      using tinvD(5) [OF inv 4(1)] 4(2) by (auto simp: thread_ok_def stack_ok_def resume_ok_def parked_ok_def)
    have "abs_k k' = dispatch t ((abs_k k)\<lparr>a_threads := (a_threads (abs_k k))(a_cur (abs_k k) \<mapsto> (t_status x, FRunTail # fs)), a_ready := ts\<rparr>)"
      unfolding e by (intro abs_k_eqI) (auto simp: dispatch_def set_thread_def)
    moreover have "astep D (abs_k k) \<dots>" using 4 Cons ty ns by (intro a_switch) simp_all
    ultimately show ?thesis by (simp add: r_into_rtranclp)
  qed
qed

lemma kreach_refines:
  assumes "kreach call exec k k'" "kinv k" "\<not> halted k"
  shows "(astep D)\<^sup>*\<^sup>* (abs_k k) (abs_k k')"
  using assms(1)
proof induction
  case (kreach_step k1 k2)
  from kreach_kinv [OF kreach_step.hyps(1) assms(2,3)] kreach_step.hyps(2) have "kinv k1" by simp
  from kstep_refines [OF this kreach_step.hyps(3)] kreach_step.IH show ?case by simp
qed simp

end

section \<open>Conservation of the values\<close>

definition contrib :: "(ThreadStatus \<Rightarrow> 'a frame list \<Rightarrow> int) \<Rightarrow> (ThreadStatus \<times> 'a frame list) option \<Rightarrow> int" where
  "contrib \<mu> v = (case v of None \<Rightarrow> 0 | Some (st, fs) \<Rightarrow> \<mu> st fs)"

definition tsum :: "(ThreadStatus \<Rightarrow> 'a frame list \<Rightarrow> int) \<Rightarrow> 'a AState \<Rightarrow> int" where
  "tsum \<mu> A = (\<Sum>t<a_next A. contrib \<mu> (a_threads A t))"

definition afin :: "'a AState \<Rightarrow> bool" where
  "afin A = (\<forall>t. a_threads A t \<noteq> None \<longrightarrow> t < a_next A)"

lemma contrib_simps [simp]: "contrib \<mu> None = 0" "contrib \<mu> (Some (st, fs)) = \<mu> st fs"
  by (simp_all add: contrib_def)

lemma tsum_set:
  assumes "t < a_next A" "a_threads B = (a_threads A)(t := v)" "a_next B = a_next A"
  shows "tsum \<mu> B = tsum \<mu> A - contrib \<mu> (a_threads A t) + contrib \<mu> v"
proof -
  have "(\<Sum>u<a_next A. contrib \<mu> (((a_threads A)(t := v)) u)) =
      contrib \<mu> v + (\<Sum>u\<in>{..<a_next A} - {t}. contrib \<mu> (a_threads A u))"
    using assms(1) by (subst sum.remove [of _ t]) auto
  moreover have "(\<Sum>u<a_next A. contrib \<mu> (a_threads A u)) =
      contrib \<mu> (a_threads A t) + (\<Sum>u\<in>{..<a_next A} - {t}. contrib \<mu> (a_threads A u))"
    using assms(1) by (subst sum.remove [of _ t]) auto
  ultimately show ?thesis using assms(2,3) by (simp add: tsum_def)
qed

lemma tsum_cong: "a_threads B = a_threads A \<Longrightarrow> a_next B = a_next A \<Longrightarrow> tsum \<mu> B = tsum \<mu> A"
  by (simp add: tsum_def)

lemma afinD: "afin A \<Longrightarrow> a_threads A t = Some v \<Longrightarrow> t < a_next A"
  by (auto simp: afin_def)

lemma tsum_run_with:
  assumes "afin A" "a_threads A (a_cur A) = Some (st, fs0)"
  shows "tsum \<mu> (run_with fs A) = tsum \<mu> A - \<mu> st fs0 + \<mu> RUNNING fs"
  using tsum_set [OF afinD [OF assms], of "run_with fs A" _ \<mu>] assms(2) by (simp add: run_with_def)

lemma tsum_upd_sem [simp]: "tsum \<mu> (upd_sem s f A) = tsum \<mu> A"
  by (simp add: upd_sem_def tsum_def)

lemma tsum_dispatch:
  assumes "afin A" "a_threads A t = Some (st, fs)"
  shows "tsum \<mu> (dispatch t A) = tsum \<mu> A - \<mu> st fs + \<mu> RUNNING fs"
  using tsum_set [OF afinD [OF assms], of "dispatch t A" _ \<mu>] assms(2) by (simp add: dispatch_def)

lemma afin_step: "awake s A A' \<Longrightarrow> afin A \<Longrightarrow> afin A'" "astep D A A' \<Longrightarrow> afin A \<Longrightarrow> afin A'"
proof -
  have aw: "awake s A A' \<Longrightarrow> afin A \<Longrightarrow> afin A'" for s and A A' :: "'b AState"
    by (induction rule: awake.induct) (auto simp: afin_def upd_sem_def)
  show "awake s A A' \<Longrightarrow> afin A \<Longrightarrow> afin A'" by (rule aw)
  show "astep D A A' \<Longrightarrow> afin A \<Longrightarrow> afin A'"
  proof (induction rule: astep.induct)
    case (a_V A s fs l A')
    then have "afin (run_with (FSetLevel l # fs) A)" by (auto simp: afin_def run_with_def)
    with a_V show ?case using aw by blast
  next
    case (a_fork A b fs l)
    then show ?case by (auto simp: afin_def run_with_def less_Suc_eq)
  qed (auto simp: afin_def upd_sem_def run_with_def dispatch_def dest: aw split: if_splits)
qed

definition holding :: "nat \<Rightarrow> 'a AState \<Rightarrow> int" where
  "holding s A = tsum (\<lambda>_. weights s) A"

lemma avoids_weights: "avoids s fs \<Longrightarrow> weights s fs = 0"
proof -
  have w: "\<not> touches s f \<Longrightarrow> weight s f = 0" for f :: "'a frame"
  proof (induction f)
    case (FFork b)
    then have "\<forall>f \<in> set b. weight s f = 0" by (auto simp: list_ex_iff)
    then have "sum_list (map (weight s) b) = 0" by (induction b) auto
    then show ?case by simp
  qed (auto split: if_splits)
  show "avoids s fs \<Longrightarrow> weights s fs = 0" by (induction fs) (auto simp: avoids_def w)
qed

lemma awake_holding:
  assumes "awake s A A'" "afin A"
  shows "tsum (\<lambda>_ fs. \<mu> fs) A' = tsum (\<lambda>_ fs. \<mu> fs) A"
    "sem_value (a_sems A' s') = sem_value (a_sems A s') + of_bool (s' = s)"
proof -
  from assms show "tsum (\<lambda>_ fs. \<mu> fs) A' = tsum (\<lambda>_ fs. \<mu> fs) A"
  proof cases
    case (awake_first t ts g r)
    then show ?thesis using tsum_set [OF afinD [OF assms(2) awake_first(3)], of A' "Some (READY, g # FPLoop s # r)" "\<lambda>_ fs. \<mu> fs"]
      by (simp add: upd_sem_def)
  qed simp
  from assms show "sem_value (a_sems A' s') = sem_value (a_sems A s') + of_bool (s' = s)"
    by cases (auto simp: upd_sem_def)
qed

text \<open>The value of a semaphore plus what the threads still owe it is constant.\<close>

lemma astep_conserves:
  assumes "astep D A A'" "afin A" "s \<notin> D"
  shows "sem_value (a_sems A' s) + holding s A' = sem_value (a_sems A s) + holding s A"
  using assms
proof (induction rule: astep.induct)
  case (a_local A f fs)
  then have "weight s f = 0" by (cases f) auto
  with a_local show ?case by (simp add: holding_def tsum_run_with) (simp add: run_with_def)
next
  case (a_preempt A fs st)
  then show ?case by (simp add: holding_def tsum_run_with) (simp add: run_with_def)
next
  case (a_client A a fs gs)
  then show ?case by (simp add: holding_def tsum_run_with avoids_weights) (simp add: run_with_def)
next
  case (a_device s' A A')
  then show ?case using awake_holding [OF a_device.hyps(2) a_device.prems(1)] by (auto simp: holding_def)
next
  case (a_P A s' fs l)
  then show ?case by (simp add: holding_def tsum_run_with) (simp add: run_with_def)
next
  case (a_acquire A s' fs)
  then show ?case by (simp add: holding_def tsum_run_with) (simp add: run_with_def upd_sem_def)
next
  case (a_block A s' fs)
  let ?B = "(upd_sem s' (\<lambda>v. v\<lparr>sem_queue := sem_queue v @ [a_cur A]\<rparr>) A)
      \<lparr>a_threads := (a_threads A)(a_cur A \<mapsto> (BLOCKED, FSleepLoop # FPLoop s' # fs))\<rparr>"
  have "tsum (\<lambda>_. weights s) ?B = tsum (\<lambda>_. weights s) A"
    using tsum_set [OF afinD [OF a_block.prems(1) a_block.hyps(1)], of ?B] a_block.hyps(1) by (simp add: upd_sem_def)
  then show ?case by (simp add: holding_def upd_sem_def)
next
  case (a_V A s' fs l A')
  have fin: "afin (run_with (FSetLevel l # fs) A)" using a_V.prems(1) a_V.hyps(1) by (auto simp: afin_def run_with_def)
  from awake_holding [OF a_V.hyps(3) fin] a_V show ?case
    by (simp add: holding_def tsum_run_with) (simp add: run_with_def)
next
  case (a_alone A fs l)
  then show ?case by (simp add: holding_def tsum_run_with) (simp add: run_with_def)
next
  case (a_yield A fs t ts gs l)
  let ?B = "A\<lparr>a_threads := (a_threads A)(a_cur A \<mapsto> (READY, FRunTail # FSetLevel l # fs)), a_ready := ts @ [a_cur A]\<rparr>"
  have fin: "afin ?B" using a_yield.prems(1) a_yield.hyps(1) by (auto simp: afin_def)
  have "tsum (\<lambda>_. weights s) ?B = tsum (\<lambda>_. weights s) A"
    using tsum_set [OF afinD [OF a_yield.prems(1) a_yield.hyps(1)], of ?B] a_yield.hyps(1) by simp
  moreover obtain v where "a_threads ?B t = Some v" using a_yield.hyps(4) by (cases "t = a_cur A") auto
  ultimately show ?case using tsum_dispatch [OF fin, of t "fst v" "snd v"] by (simp add: holding_def dispatch_def tsum_def)
next
  case (a_switch A st fs t ts gs)
  let ?B = "A\<lparr>a_threads := (a_threads A)(a_cur A \<mapsto> (st, FRunTail # fs)), a_ready := ts\<rparr>"
  have fin: "afin ?B" using a_switch.prems(1) a_switch.hyps(1) by (auto simp: afin_def)
  have "tsum (\<lambda>_. weights s) ?B = tsum (\<lambda>_. weights s) A"
    using tsum_set [OF afinD [OF a_switch.prems(1) a_switch.hyps(1)], of ?B] a_switch.hyps(1) by simp
  moreover obtain v where "a_threads ?B t = Some v" using a_switch.hyps(4) by (cases "t = a_cur A") auto
  ultimately show ?case using tsum_dispatch [OF fin, of t "fst v" "snd v"] by (simp add: holding_def dispatch_def tsum_def)
next
  case (a_resume A fs)
  then show ?case by (simp add: holding_def tsum_run_with) (simp add: run_with_def)
next
  case (a_destroy A t)
  let ?B = "A\<lparr>a_threads := (a_threads A)(t := None)\<rparr>"
  have "tsum (\<lambda>_. weights s) ?B = tsum (\<lambda>_. weights s) A"
    using tsum_set [OF afinD [OF a_destroy.prems(1) a_destroy.hyps(1)], of ?B] a_destroy.hyps(1) by simp
  then show ?case by (simp add: holding_def)
next
  case (a_fork A b fs l)
  let ?B = "A\<lparr>a_threads := (a_threads A)(a_next A \<mapsto> (READY, FEnable # b @ [FFinish])), a_ready := a_ready A @ [a_next A],
      a_next := a_next A + 1\<rparr>"
  have fin: "afin ?B" using a_fork.prems(1) by (auto simp: afin_def less_Suc_eq)
  have "a_cur A \<noteq> a_next A" using a_fork.hyps(1,4) by auto
  then have c: "a_threads ?B (a_cur ?B) = Some (RUNNING, FFork b # fs)" using a_fork.hyps(1) by simp
  have "tsum (\<lambda>_. weights s) ?B = tsum (\<lambda>_. weights s) A + weights s b"
  proof -
    have "(\<Sum>t<a_next A. contrib (\<lambda>_. weights s) (a_threads ?B t)) = (\<Sum>t<a_next A. contrib (\<lambda>_. weights s) (a_threads A t))"
      by (rule sum.cong) auto
    then show ?thesis by (simp add: tsum_def)
  qed
  with tsum_run_with [OF fin c, of "\<lambda>_. weights s" "FSetLevel l # fs"] show ?case
    by (simp add: holding_def weights_def) (simp add: run_with_def)
next
  case (a_finish A)
  let ?B = "A\<lparr>a_threads := (a_threads A)(a_cur A \<mapsto> (BLOCKED, [FSleepLoop]))\<rparr>"
  have "tsum (\<lambda>_. weights s) ?B = tsum (\<lambda>_. weights s) A"
    using tsum_set [OF afinD [OF a_finish.prems(1) a_finish.hyps(1)], of ?B] a_finish.hyps(1) by simp
  then show ?case by (simp add: holding_def)
qed

section \<open>Mutual exclusion\<close>

text \<open>A thread that uses semaphore \<open>m\<close> as a lock: \<open>P\<close> and \<open>V\<close> alternate. \<open>b\<close> says that it holds it.\<close>

fun lock_ok :: "nat \<Rightarrow> bool \<Rightarrow> 'a frame list \<Rightarrow> bool" where
  "lock_ok m b [] = (\<not> b)"
| "lock_ok m b (FP s # fs) = (if s = m then \<not> b \<and> lock_ok m True fs else lock_ok m b fs)"
| "lock_ok m b (FPLoop s # fs) = (if s = m then \<not> b \<and> lock_ok m True fs else lock_ok m b fs)"
| "lock_ok m b (FV s # fs) = (if s = m then b \<and> lock_ok m False fs else lock_ok m b fs)"
| "lock_ok m b (FFork c # fs) = (lock_ok m False c \<and> lock_ok m b fs)"
| "lock_ok m b (f # fs) = lock_ok m b fs"

lemma lock_ok_weights: "lock_ok m b fs \<Longrightarrow> weights m fs = of_bool b"
proof (induction m b fs rule: lock_ok.induct)
  case (5 m b c fs)
  then show ?case by (simp add: weights_def)
qed (auto split: if_splits)

lemma lock_ok_snoc: "lock_ok m b fs \<Longrightarrow> lock_ok m b (fs @ [FFinish])"
  by (induction m b fs rule: lock_ok.induct) auto

lemma lock_ok_avoids: "avoids m gs \<Longrightarrow> lock_ok m b (gs @ fs) = (list_all (\<lambda>g. case g of FFork c \<Rightarrow> lock_ok m False c | _ \<Rightarrow> True) gs \<and> lock_ok m b fs)"
proof (induction gs)
  case (Cons g gs)
  then show ?case by (cases g) (auto simp: avoids_def)
qed simp

lemma avoids_lock_ok: "avoids m gs \<Longrightarrow> lock_ok m b (gs @ fs) = lock_ok m b fs"
proof -
  have f: "lock_ok m False c" if "\<forall>f \<in> set c. \<not> touches m f \<and> (\<forall>d. f = FFork d \<longrightarrow> lock_ok m False d)" for c :: "'a frame list"
    using that
  proof (induction c)
    case (Cons g c)
    then show ?case by (cases g) auto
  qed simp
  have t: "\<not> touches m f \<Longrightarrow> f = FFork d \<Longrightarrow> lock_ok m False d" for f :: "'a frame" and d
  proof (induction f arbitrary: d)
    case (FFork c)
    then show ?case by (intro f) (auto simp: list_ex_iff)
  qed auto
  assume "avoids m gs"
  then show ?thesis using t by (auto simp: lock_ok_avoids list_all_iff avoids_def split: frame.splits)
qed

definition holders :: "nat \<Rightarrow> 'a AState \<Rightarrow> nat set" where
  "holders m A = {t. \<exists>st fs. a_threads A t = Some (st, fs) \<and> lock_ok m True fs}"

definition lock_users :: "nat \<Rightarrow> 'a AState \<Rightarrow> bool" where
  "lock_users m A = (\<forall>t st fs. a_threads A t = Some (st, fs) \<longrightarrow> (\<exists>b. lock_ok m b fs))"

lemma holding_card:
  assumes "afin A" "lock_users m A"
  shows "holding m A = int (card (holders m A))"
proof -
  have sub: "holders m A \<subseteq> {..<a_next A}" using assms(1) by (auto simp: holders_def afin_def)
  have "contrib (\<lambda>_. weights m) (a_threads A t) = of_bool (t \<in> holders m A)" for t
  proof (cases "a_threads A t")
    case (Some v)
    obtain st fs where v: "v = (st, fs)" by (cases v)
    from assms(2) Some v obtain b where b: "lock_ok m b fs" unfolding lock_users_def by blast
    have "t \<in> holders m A \<longleftrightarrow> lock_ok m True fs" using Some v by (simp add: holders_def)
    moreover have "lock_ok m True fs \<longleftrightarrow> b" using lock_ok_weights [OF b] lock_ok_weights [of m True fs] b by (cases b) auto
    ultimately show ?thesis using Some v lock_ok_weights [OF b] by simp
  qed (simp add: holders_def)
  then have "holding m A = (\<Sum>t<a_next A. of_bool (t \<in> holders m A))" by (simp add: holding_def tsum_def)
  also have "\<dots> = int (card ({..<a_next A} \<inter> {t. t \<in> holders m A}))" by (simp add: sum_of_bool_eq)
  finally show ?thesis using sub by (simp add: Int_absorb1 Int_commute)
qed

lemma lock_users_set:
  assumes "lock_users m A" "a_threads B = (a_threads A)(t \<mapsto> (st, fs))" "lock_ok m b fs"
  shows "lock_users m B"
  unfolding lock_users_def
proof (intro allI impI)
  fix u st' gs assume "a_threads B u = Some (st', gs)"
  with assms show "\<exists>b. lock_ok m b gs" unfolding lock_users_def by (cases "u = t") auto
qed

lemma lock_users_dispatch:
  assumes "lock_users m A"
  shows "lock_users m (dispatch t A)"
  unfolding lock_users_def
proof (intro allI impI)
  fix u st fs assume "a_threads (dispatch t A) u = Some (st, fs)"
  then obtain st' where "a_threads A u = Some (st', fs)" by (auto simp: dispatch_def split: if_splits)
  with assms show "\<exists>b. lock_ok m b fs" unfolding lock_users_def by blast
qed

lemma awake_users: "awake s A A' \<Longrightarrow> lock_users m A \<Longrightarrow> lock_users m A'"
proof (induction rule: awake.induct)
  case (awake_first A s t ts g r)
  obtain b where "lock_ok m b (g # FPLoop s # r)"
    using awake_first.prems awake_first.hyps(2) unfolding lock_users_def by blast
  then show ?case by (rule lock_users_set [OF awake_first.prems, where t = t and st = READY, rotated]) (simp add: upd_sem_def)
qed (simp add: lock_users_def upd_sem_def)

lemma lock_users_run:
  assumes "lock_users m A" "\<exists>b. lock_ok m b fs"
  shows "lock_users m (run_with fs A)"
proof -
  from assms(2) obtain b where "lock_ok m b fs" by blast
  then show ?thesis
    by (rule lock_users_set [OF assms(1), where t = "a_cur A" and st = RUNNING, rotated]) (simp add: run_with_def)
qed

lemma lock_users_cur:
  assumes "lock_users m A" "a_threads A t = Some (st, fs)"
  shows "\<exists>b. lock_ok m b fs"
  using assms unfolding lock_users_def by blast

lemma astep_users:
  assumes "astep D A A'" "lock_users m A" "m \<notin> D"
  shows "lock_users m A'"
  using assms
proof (induction rule: astep.induct)
  case (a_local A f fs)
  from lock_users_cur [OF a_local.prems(1) a_local.hyps(1)] obtain b where "lock_ok m b (f # fs)" by blast
  with a_local.hyps(2) have "lock_ok m b fs" by (cases f) simp_all
  then show ?case by (intro lock_users_run [OF a_local.prems(1)]) blast
next
  case (a_preempt A fs st)
  from lock_users_cur [OF a_preempt.prems(1) a_preempt.hyps(1)] obtain b where "lock_ok m b fs" by blast
  then have "lock_ok m b (FYield # FStatus st # fs)" by simp
  then show ?case by (intro lock_users_run [OF a_preempt.prems(1)]) blast
next
  case (a_client A a fs gs)
  from lock_users_cur [OF a_client.prems(1) a_client.hyps(1)] obtain b where "lock_ok m b (FAct a # fs)" by blast
  with a_client.hyps(4) a_client.prems(2) have "lock_ok m b (gs @ fs)" by (simp add: avoids_lock_ok)
  then show ?case by (intro lock_users_run [OF a_client.prems(1)]) blast
next
  case (a_device s A A')
  then show ?case using awake_users by blast
next
  case (a_P A s fs l)
  from lock_users_cur [OF a_P.prems(1) a_P.hyps(1)] obtain b where "lock_ok m b (FP s # fs)" by blast
  then have "lock_ok m b (FPLoop s # FSetLevel l # fs)" by simp
  then show ?case by (intro lock_users_run [OF a_P.prems(1)]) blast
next
  case (a_acquire A s fs)
  from lock_users_cur [OF a_acquire.prems(1) a_acquire.hyps(1)] obtain b where "lock_ok m b (FPLoop s # fs)" by blast
  then have "\<exists>b. lock_ok m b fs" by (auto split: if_splits)
  with lock_users_run [OF a_acquire.prems(1)] have "lock_users m (run_with fs A)" by blast
  then show ?case by (simp add: lock_users_def upd_sem_def)
next
  case (a_block A s fs)
  from lock_users_cur [OF a_block.prems(1) a_block.hyps(1)] obtain b where "lock_ok m b (FPLoop s # fs)" by blast
  then have "lock_ok m b (FSleepLoop # FPLoop s # fs)" by simp
  then show ?case by (rule lock_users_set [OF a_block.prems(1), where t = "a_cur A" and st = BLOCKED, rotated]) (simp add: upd_sem_def)
next
  case (a_V A s fs l A')
  from lock_users_cur [OF a_V.prems(1) a_V.hyps(1)] obtain b where "lock_ok m b (FV s # fs)" by blast
  then have "\<exists>b. lock_ok m b (FSetLevel l # fs)" by (auto split: if_splits)
  with lock_users_run [OF a_V.prems(1)] have "lock_users m (run_with (FSetLevel l # fs) A)" by blast
  with awake_users [OF a_V.hyps(3)] show ?case by blast
next
  case (a_alone A fs l)
  from lock_users_cur [OF a_alone.prems(1) a_alone.hyps(1)] obtain b where "lock_ok m b (FYield # fs)" by blast
  then have "lock_ok m b (FSetLevel l # fs)" by simp
  then show ?case by (intro lock_users_run [OF a_alone.prems(1)]) blast
next
  case (a_yield A fs t ts gs l)
  from lock_users_cur [OF a_yield.prems(1) a_yield.hyps(1)] obtain b where "lock_ok m b (FYield # fs)" by blast
  then have "lock_ok m b (FRunTail # FSetLevel l # fs)" by simp
  then have "lock_users m (A\<lparr>a_threads := (a_threads A)(a_cur A \<mapsto> (READY, FRunTail # FSetLevel l # fs)), a_ready := ts @ [a_cur A]\<rparr>)"
    by (rule lock_users_set [OF a_yield.prems(1), where t = "a_cur A" and st = READY, rotated]) simp
  then show ?case by (rule lock_users_dispatch)
next
  case (a_switch A st fs t ts gs)
  from lock_users_cur [OF a_switch.prems(1) a_switch.hyps(1)] obtain b where "lock_ok m b (FSleepLoop # fs)" by blast
  then have "lock_ok m b (FRunTail # fs)" by simp
  then have "lock_users m (A\<lparr>a_threads := (a_threads A)(a_cur A \<mapsto> (st, FRunTail # fs)), a_ready := ts\<rparr>)"
    by (rule lock_users_set [OF a_switch.prems(1), where t = "a_cur A" and st = st, rotated]) simp
  then show ?case by (rule lock_users_dispatch)
next
  case (a_resume A fs)
  from lock_users_cur [OF a_resume.prems(1) a_resume.hyps(1)] obtain b where "lock_ok m b (FRunTail # fs)" by blast
  then have "lock_ok m b fs" by simp
  then show ?case by (intro lock_users_run [OF a_resume.prems(1)]) blast
next
  case (a_destroy A t)
  then show ?case by (auto simp: lock_users_def)
next
  case (a_fork A b fs l)
  from lock_users_cur [OF a_fork.prems(1) a_fork.hyps(1)] obtain h where h: "lock_ok m h (FFork b # fs)" by blast
  then have "lock_ok m False (FEnable # b @ [FFinish])"
    using lock_ok_snoc [of m False b] by simp
  then have "lock_users m (A\<lparr>a_threads := (a_threads A)(a_next A \<mapsto> (READY, FEnable # b @ [FFinish])),
      a_ready := a_ready A @ [a_next A], a_next := a_next A + 1\<rparr>)"
    by (rule lock_users_set [OF a_fork.prems(1), where t = "a_next A" and st = READY, rotated]) simp
  moreover have "lock_ok m h (FSetLevel l # fs)" using h by simp
  ultimately show ?case by (intro lock_users_run) blast+
next
  case (a_finish A)
  have "lock_ok m False [FSleepLoop]" by simp
  then show ?case by (rule lock_users_set [OF a_finish.prems(1), where t = "a_cur A" and st = BLOCKED, rotated]) simp
qed

lemma astep_nonneg:
  assumes "astep D A A'" "\<forall>s. 0 \<le> sem_value (a_sems A s)"
  shows "\<forall>s. 0 \<le> sem_value (a_sems A' s)"
proof -
  have aw: "awake s A A' \<Longrightarrow> \<forall>s. 0 \<le> sem_value (a_sems A s) \<Longrightarrow> \<forall>s. 0 \<le> sem_value (a_sems A' s)" for s and A A' :: "'a AState"
    by (induction rule: awake.induct) (auto simp: upd_sem_def)
  show ?thesis using assms
  proof (induction rule: astep.induct)
    case (a_acquire A s fs)
    then have "0 < sem_value (a_sems A s)" by (metis order_le_less)
    with a_acquire show ?case by (auto simp: upd_sem_def run_with_def)
  next
    case (a_V A s fs l A')
    then have "\<forall>s. 0 \<le> sem_value (a_sems (run_with (FSetLevel l # fs) A) s)" by (simp add: run_with_def)
    with a_V.hyps(3) show ?case by (rule aw)
  qed (auto simp: upd_sem_def run_with_def dispatch_def dest: aw)
qed

text \<open>With \<open>m\<close> used as a lock by all threads, its value and the number of threads that hold it add up to what they were.\<close>

definition lock_inv :: "nat \<Rightarrow> int \<Rightarrow> 'a AState \<Rightarrow> bool" where
  "lock_inv m n A = (afin A \<and> lock_users m A \<and> (\<forall>s. 0 \<le> sem_value (a_sems A s)) \<and>
     sem_value (a_sems A m) + int (card (holders m A)) = n)"

lemma astep_lock_inv:
  assumes "astep D A A'" "lock_inv m n A" "m \<notin> D"
  shows "lock_inv m n A'"
proof -
  have i: "afin A" "lock_users m A" "\<forall>s. 0 \<le> sem_value (a_sems A s)" using assms(2) by (simp_all add: lock_inv_def)
  have i': "afin A'" "lock_users m A'" "\<forall>s. 0 \<le> sem_value (a_sems A' s)"
    using afin_step(2) [OF assms(1) i(1)] astep_users [OF assms(1) i(2) assms(3)] astep_nonneg [OF assms(1) i(3)] by blast+
  from astep_conserves [OF assms(1) i(1) assms(3)] assms(2) i'
  show ?thesis by (simp add: lock_inv_def holding_card [OF i(1,2)] holding_card [OF i'(1,2)])
qed

lemma asteps_lock_inv: "(astep D)\<^sup>*\<^sup>* A A' \<Longrightarrow> lock_inv m n A \<Longrightarrow> m \<notin> D \<Longrightarrow> lock_inv m n A'"
  by (induction rule: rtranclp_induct) (blast intro: astep_lock_inv)+

section \<open>No lost wake-ups\<close>

text \<open>A thread that will look at the value of \<open>s\<close> as soon as it runs.\<close>

fun trying :: "nat \<Rightarrow> 'a frame list \<Rightarrow> bool" where
  "trying s (FPLoop s' # fs) = (s' = s)"
| "trying s (FRunTail # FPLoop s' # fs) = (s' = s)"
| "trying s (FSleepLoop # FPLoop s' # fs) = (s' = s)"
| "trying s fs = False"

definition tries :: "nat \<Rightarrow> ThreadStatus \<Rightarrow> 'a frame list \<Rightarrow> int" where
  "tries s st fs = of_bool (st \<noteq> BLOCKED \<and> trying s fs)"

lemma trying_body: "body fs \<Longrightarrow> \<not> trying s fs" "body fs \<Longrightarrow> \<not> trying s (FRunTail # fs)"
  by (cases fs; cases "hd fs"; auto)+

lemma tries_body [simp]: "body fs \<Longrightarrow> tries s st fs = 0"
  by (simp add: tries_def trying_body)

lemma tries_plain: "plain f \<or> f = FEnable \<or> f = FFinish \<Longrightarrow> tries s st (f # fs) = 0"
  by (cases f) (auto simp: tries_def)

lemma tries_neutral: "neutral f \<Longrightarrow> tries s st (f # fs) = 0"
  by (cases f) (auto simp: tries_def)

lemma tries_resume: "resume_ok fs \<Longrightarrow> tries s RUNNING (FRunTail # fs) = tries s RUNNING fs"
  by (auto simp: resume_ok_def tries_def trying_body)

lemma tries_switch: "tries s st (FRunTail # fs) = tries s st (FSleepLoop # fs)"
  by (cases fs; cases "hd fs") (auto simp: tries_def)

lemma tries_run: "tries s RUNNING fs = tries s READY fs"
  by (simp add: tries_def)

lemma tsum_tries_nonneg: "0 \<le> tsum (tries s) A"
  unfolding tsum_def by (rule sum_nonneg) (auto simp: contrib_def tries_def split: option.splits)

definition wakeups_ok :: "'a AState \<Rightarrow> bool" where
  "wakeups_ok A = (afin A \<and> (\<forall>s. 0 \<le> sem_value (a_sems A s)) \<and>
     (\<forall>s. sem_queue (a_sems A s) \<noteq> [] \<longrightarrow> sem_value (a_sems A s) \<le> tsum (tries s) A))"

lemma awake_wakeups:
  assumes "awake s A A'" "wakeups_ok A"
  shows "wakeups_ok A'"
  using assms
proof cases
  case awake_none
  then show ?thesis using assms(2) by (auto simp: wakeups_ok_def upd_sem_def afin_def tsum_def)
next
  case (awake_first t ts g r)
  have fin: "afin A" using assms(2) by (simp add: wakeups_ok_def)
  have t: "tsum (tries s') A' = tsum (tries s') A + of_bool (s' = s)" for s'
    using tsum_set [OF afinD [OF fin awake_first(3)], of A' "Some (READY, g # FPLoop s # r)" "tries s'"] awake_first
    by (auto simp: tries_def upd_sem_def)
  have "sem_value (a_sems A' s') = sem_value (a_sems A s') + of_bool (s' = s)" for s'
    by (rule awake_holding(2) [OF assms(1) fin])
  moreover have "sem_queue (a_sems A' s') \<noteq> [] \<Longrightarrow> sem_queue (a_sems A s') \<noteq> []" for s'
    using awake_first(1,2) by (auto simp: upd_sem_def split: if_splits)
  ultimately show ?thesis using assms(2) t afin_step(1) [OF assms(1) fin] by (auto simp: wakeups_ok_def)
qed

lemma wakeups_ok_same:
  assumes "wakeups_ok A" "afin B" "a_sems B = a_sems A" "\<And>s. tsum (tries s) A \<le> tsum (tries s) B"
  shows "wakeups_ok B"
  using assms unfolding wakeups_ok_def by (metis order_trans)

lemma astep_wakeups:
  assumes "astep D A A'" "wakeups_ok A"
  shows "wakeups_ok A'"
proof -
  have fin: "afin A" "afin A'" using assms(2) afin_step(2) [OF assms(1)] by (simp_all add: wakeups_ok_def)
  have run: "wakeups_ok (run_with fs A)" if "a_threads A (a_cur A) = Some (st, fs0)" "\<And>s. tries s st fs0 \<le> tries s RUNNING fs" for st fs0 fs
  proof (rule wakeups_ok_same [OF assms(2)])
    show "afin (run_with fs A)" using fin(1) that(1) by (auto simp: afin_def run_with_def)
    show "tsum (tries s) A \<le> tsum (tries s) (run_with fs A)" for s
      using tsum_run_with [OF fin(1) that(1), of "tries s" fs] that(2) [of s] by simp
  qed (simp add: run_with_def)
  have nonneg: "0 \<le> tries s st fs" for s st and fs :: "'a frame list" by (simp add: tries_def)
  from assms(1) show ?thesis
  proof cases
    case (a_local f fs)
    then show ?thesis using run [OF a_local(2)] by (simp add: tries_neutral)
  next
    case (a_preempt fs st)
    then show ?thesis using run [OF a_preempt(2)] by (simp add: nonneg)
  next
    case (a_client a fs gs)
    then show ?thesis using run [OF a_client(2)] by (simp add: nonneg tries_plain)
  next
    case (a_device s)
    then show ?thesis using awake_wakeups [OF _ assms(2)] by blast
  next
    case (a_P s fs l)
    then show ?thesis using run [OF a_P(2)] by (simp add: nonneg tries_plain)
  next
    case (a_acquire s fs)
    have t: "tsum (tries s') A' = tsum (tries s') A - of_bool (s' = s)" for s'
      using tsum_run_with [OF fin(1) a_acquire(2), of "tries s'" fs] a_acquire(1,3) by (simp add: tries_def trying_body)
    have v: "a_sems A' s' = (if s' = s then (a_sems A s)\<lparr>sem_value := sem_value (a_sems A s) - 1\<rparr> else a_sems A s')" for s'
      by (simp add: a_acquire(1) upd_sem_def run_with_def)
    have "0 < sem_value (a_sems A s)" using assms(2) a_acquire(4) by (metis wakeups_ok_def order_le_less)
    with assms(2) fin(2) t v show ?thesis by (auto simp: wakeups_ok_def)
  next
    case (a_block s fs)
    have t: "tsum (tries s') A' = tsum (tries s') A - of_bool (s' = s)" for s'
      using tsum_set [OF afinD [OF fin(1) a_block(2)], of A' "Some (BLOCKED, FSleepLoop # FPLoop s # fs)" "tries s'"] a_block
      by (simp add: tries_def upd_sem_def)
    have v: "a_sems A' s' = (if s' = s then (a_sems A s)\<lparr>sem_queue := sem_queue (a_sems A s) @ [a_cur A]\<rparr> else a_sems A s')" for s'
      by (simp add: a_block(1) upd_sem_def)
    from assms(2) fin(2) a_block(4) tsum_tries_nonneg [of s A'] show ?thesis
      unfolding wakeups_ok_def t v by (auto simp: t)
  next
    case (a_V s fs l)
    have "wakeups_ok (run_with (FSetLevel l # fs) A)" by (rule run [OF a_V(1)]) (simp add: tries_plain nonneg)
    with awake_wakeups [OF a_V(3)] show ?thesis .
  next
    case (a_alone fs l)
    then show ?thesis using run [OF a_alone(2)] by (simp add: nonneg tries_plain)
  next
    case (a_yield fs t ts gs l)
    let ?B = "A\<lparr>a_threads := (a_threads A)(a_cur A \<mapsto> (READY, FRunTail # FSetLevel l # fs)), a_ready := ts @ [a_cur A]\<rparr>"
    have b: "afin ?B" using fin(1) a_yield(2) by (auto simp: afin_def)
    have e: "tsum (tries s) ?B = tsum (tries s) A" for s
      using tsum_set [OF afinD [OF fin(1) a_yield(2)], of ?B "Some (READY, FRunTail # FSetLevel l # fs)" "tries s"] a_yield(2)
      by (simp add: tries_def)
    obtain gs' where "a_threads ?B t = Some (READY, gs')" using a_yield(5) by (cases "t = a_cur A") auto
    with tsum_dispatch [OF b] e a_yield(1) have "tsum (tries s) A' = tsum (tries s) A" for s by (simp add: tries_run)
    then show ?thesis using fin(2) by (intro wakeups_ok_same [OF assms(2)]) (simp_all add: a_yield(1) dispatch_def)
  next
    case (a_switch st fs t ts gs)
    let ?B = "A\<lparr>a_threads := (a_threads A)(a_cur A \<mapsto> (st, FRunTail # fs)), a_ready := ts\<rparr>"
    have b: "afin ?B" using fin(1) a_switch(2) by (auto simp: afin_def)
    have e: "tsum (tries s) ?B = tsum (tries s) A" for s
      using tsum_set [OF afinD [OF fin(1) a_switch(2)], of ?B "Some (st, FRunTail # fs)" "tries s"] a_switch(2)
      by (simp add: tries_switch)
    obtain gs' where "a_threads ?B t = Some (READY, gs')" using a_switch(2,5) by (cases "t = a_cur A") auto
    with tsum_dispatch [OF b] e a_switch(1) have "tsum (tries s) A' = tsum (tries s) A" for s by (simp add: tries_run)
    then show ?thesis using fin(2) by (intro wakeups_ok_same [OF assms(2)]) (simp_all add: a_switch(1) dispatch_def)
  next
    case (a_resume fs)
    then show ?thesis using run [OF a_resume(2)] by (simp add: tries_resume)
  next
    case (a_destroy t)
    have "tsum (tries s) A' = tsum (tries s) A" for s
      using tsum_set [OF afinD [OF fin(1) a_destroy(2)], of A' None "tries s"] a_destroy by (simp add: tries_def)
    then show ?thesis using fin(2) by (intro wakeups_ok_same [OF assms(2)]) (simp_all add: a_destroy(1))
  next
    case (a_fork b fs l)
    let ?B = "A\<lparr>a_threads := (a_threads A)(a_next A \<mapsto> (READY, FEnable # b @ [FFinish])), a_ready := a_ready A @ [a_next A],
        a_next := a_next A + 1\<rparr>"
    have fb: "afin ?B" using fin(1) by (auto simp: afin_def less_Suc_eq)
    have "a_cur A \<noteq> a_next A" using a_fork(2,5) by auto
    then have c: "a_threads ?B (a_cur ?B) = Some (RUNNING, FFork b # fs)" using a_fork(2) by simp
    have "(\<Sum>t<a_next A. contrib (tries s) (a_threads ?B t)) = (\<Sum>t<a_next A. contrib (tries s) (a_threads A t))" for s
      by (rule sum.cong) auto
    then have "tsum (tries s) ?B = tsum (tries s) A" for s by (simp add: tsum_def tries_def)
    with tsum_run_with [OF fb c, of "tries _" "FSetLevel l # fs"] have "tsum (tries s) A' = tsum (tries s) A" for s
      unfolding a_fork(1) by (simp add: tries_def)
    then show ?thesis using fin(2) by (intro wakeups_ok_same [OF assms(2)]) (simp_all add: a_fork(1) run_with_def)
  next
    case a_finish
    have "tsum (tries s) A' = tsum (tries s) A" for s
      using tsum_set [OF afinD [OF fin(1) a_finish(2)], of A' "Some (BLOCKED, [FSleepLoop])" "tries s"] a_finish by (simp add: tries_def)
    then show ?thesis using fin(2) by (intro wakeups_ok_same [OF assms(2)]) (simp_all add: a_finish(1))
  qed
qed

lemma asteps_wakeups: "(astep D)\<^sup>*\<^sup>* A A' \<Longrightarrow> wakeups_ok A \<Longrightarrow> wakeups_ok A'"
  by (induction rule: rtranclp_induct) (blast intro: astep_wakeups)+

end
