(* ===== verification/Devices.thy ===== *)
theory Devices
  imports ThreadSpec
begin

text \<open>
  The timer, console and disk devices (\<open>machine/timer.cc\<close>, \<open>machine/console.cc\<close>, \<open>machine/disk.cc\<close>) and the synchronous
  drivers on top of them (\<open>threads/synchcons.cc\<close>, \<open>filesys/synchdisk.cc\<close>). Their state extends the state of the thread
  system to the kernel's. A handler is one of four interrupt routines, and \<open>kern_call\<close> runs it. A driver's
  function is the list of frames that a thread runs for it: the requests to the device are actions of type \<open>act\<close>,
  run by \<open>kern_exec\<close>, and the waiting is \<open>P\<close> on the semaphore that the device's handler does \<open>V\<close> on.

  The host is visible in three places: \<open>polls\<close> is what each look at the keyboard finds (a character or nothing),
  \<open>display\<close> is what was written, and \<open>randoms\<close> are the values of \<open>Random()\<close>. The UNIX file behind the disk is the array
  of its sectors. The locks of the drivers are the dummies of \<open>synch.cc\<close>: \<open>Acquire\<close> and \<open>Release\<close> do nothing.

  The interpretation at the end gives the kernel-wide facts of theories \<open>Interrupt\<close>, \<open>Threads\<close> and \<open>ThreadSpec\<close> for this
  kernel.
\<close>

section \<open>State\<close>

datatype dev_handler = HTimer | HConsoleRead | HConsoleWrite | HDisk

datatype 'b act =
    APutChar "8 word"                 \<comment> \<open>\<open>cons->PutChar\<close>\<close>
  | AGetChar nat nat nat              \<comment> \<open>\<open>ch = cons->GetChar()\<close> and what follows, in \<open>SynchConsole::Read\<close>\<close>
  | AWrite "8 word list"              \<comment> \<open>\<open>SynchConsole::Write\<close>\<close>
  | ARead nat nat                     \<comment> \<open>\<open>SynchConsole::Read\<close>\<close>
  | AReadRequest int nat              \<comment> \<open>\<open>disk->ReadRequest\<close>\<close>
  | AWriteRequest int nat             \<comment> \<open>\<open>disk->WriteRequest\<close>\<close>
  | AReadSector int nat               \<comment> \<open>\<open>SynchDisk::ReadSector\<close>\<close>
  | AWriteSector int nat              \<comment> \<open>\<open>SynchDisk::WriteSector\<close>\<close>
  | AReturn nat int                   \<comment> \<open>\<open>return\<close> of \<open>SynchConsole::Read\<close>\<close>
  | ACall 'b                          \<comment> \<open>a step of the code above the drivers\<close>

record Disk =
  active :: bool
  lastSector :: int
  bufferInit :: int
  sectors :: "nat \<Rightarrow> 8 word list"

record Console =
  putBusy :: bool
  incoming :: int
  polls :: "8 word option list"
  display :: "8 word list"

record 'b Kernel = "(dev_handler, 'b act) TSys" +
  timer_randomize :: bool
  randoms :: "nat list"
  disk :: Disk
  console :: Console
  buffers :: "nat \<Rightarrow> 8 word list"
  results :: "nat \<Rightarrow> int"
  junk_char :: int

definition SectorSize :: nat where "SectorSize = 512"
definition SectorsPerTrack :: int where "SectorsPerTrack = 32"
definition NumTracks :: int where "NumTracks = 32"
definition NumSectors :: int where "NumSectors = SectorsPerTrack * NumTracks"

text \<open>\<open>EOF\<close> as a \<open>char\<close>.\<close>

definition EOF_CHAR :: int where "EOF_CHAR = -1"

text \<open>The semaphores of \<open>SynchDisk\<close> and of \<open>SynchConsole\<close>.\<close>

definition disk_sem :: nat where "disk_sem = 0"
definition synchReadAvail :: nat where "synchReadAvail = 1"
definition synchWriteAvail :: nat where "synchWriteAvail = 2"
definition RLineBlock :: nat where "RLineBlock = 3"
definition WLineBlock :: nat where "WLineBlock = 4"

lemmas dev_sems = disk_sem_def synchReadAvail_def synchWriteAvail_def RLineBlock_def WLineBlock_def

definition device_sems :: "nat set" where "device_sems = {0, 1, 2, 3, 4}"

section \<open>The disk\<close>

definition TimeToSeek :: "int \<Rightarrow> int \<Rightarrow> Disk \<Rightarrow> int \<times> int" where
  "TimeToSeek ticks newSector d =
     (let newTrack = newSector sdiv SectorsPerTrack; oldTrack = lastSector d sdiv SectorsPerTrack;
          seek = \<bar>newTrack - oldTrack\<bar> * SeekTime; over = (ticks + seek) smod RotationTime
      in (seek, if over > 0 then RotationTime - over else 0))"

definition ModuloDiff :: "int \<Rightarrow> int \<Rightarrow> int" where
  "ModuloDiff to from =
     (let toOffset = to smod SectorsPerTrack; fromOffset = from smod SectorsPerTrack
      in ((toOffset - fromOffset) + SectorsPerTrack) smod SectorsPerTrack)"

definition ComputeLatency :: "int \<Rightarrow> int \<Rightarrow> bool \<Rightarrow> Disk \<Rightarrow> int" where
  "ComputeLatency ticks newSector writing d =
     (let (seek, rotation) = TimeToSeek ticks newSector d; timeAfter = ticks + seek + rotation in
      if \<not> writing \<and> seek = 0 \<and>
         (timeAfter - bufferInit d) sdiv RotationTime > ModuloDiff newSector (bufferInit d sdiv RotationTime)
      then RotationTime
      else seek + (rotation + ModuloDiff newSector (timeAfter sdiv RotationTime) * RotationTime) + RotationTime)"

definition UpdateLast :: "int \<Rightarrow> int \<Rightarrow> Disk \<Rightarrow> Disk" where
  "UpdateLast ticks newSector d =
     (let (seek, rotate) = TimeToSeek ticks newSector d in
      d\<lparr>bufferInit := (if seek \<noteq> 0 then ticks + seek + rotate else bufferInit d), lastSector := newSector\<rparr>)"

definition ReadRequest :: "int \<Rightarrow> nat \<Rightarrow> ('b, 'z) Kernel_scheme \<Rightarrow> ('b, 'z) Kernel_scheme res" where
  "ReadRequest sectorNumber buf k =
     (let d = disk k; ticks = ComputeLatency (now k) sectorNumber False d in
      ASSERT (\<not> active d) (ASSERT (sectorNumber \<ge> 0 \<and> sectorNumber < NumSectors)
        (let k1 = k\<lparr>buffers := (buffers k)(buf := sectors d (nat sectorNumber)),
                    disk := UpdateLast (now k) sectorNumber (d\<lparr>active := True\<rparr>),
                    stats := (stats k)\<lparr>numDiskReads := numDiskReads (stats k) + 1\<rparr>\<rparr>
         in Schedule HDisk 0 ticks DiskInt k1)))"

definition WriteRequest :: "int \<Rightarrow> nat \<Rightarrow> ('b, 'z) Kernel_scheme \<Rightarrow> ('b, 'z) Kernel_scheme res" where
  "WriteRequest sectorNumber buf k =
     (let d = disk k; ticks = ComputeLatency (now k) sectorNumber True d in
      ASSERT (\<not> active d) (ASSERT (sectorNumber \<ge> 0 \<and> sectorNumber < NumSectors)
        (let k1 = k\<lparr>disk := UpdateLast (now k) sectorNumber
                             (d\<lparr>active := True, sectors := (sectors d)(nat sectorNumber := buffers k buf)\<rparr>),
                    stats := (stats k)\<lparr>numDiskWrites := numDiskWrites (stats k) + 1\<rparr>\<rparr>
         in Schedule HDisk 0 ticks DiskInt k1)))"

text \<open>\<open>Disk::HandleInterrupt\<close> calls \<open>SynchDisk::RequestDone\<close>.\<close>

definition HandleInterrupt :: "('b, 'z) Kernel_scheme \<Rightarrow> ('b, 'z) Kernel_scheme res" where
  "HandleInterrupt k = wake disk_sem (k\<lparr>disk := (disk k)\<lparr>active := False\<rparr>\<rparr>)"

section \<open>The console\<close>

definition CheckCharAvail :: "('b, 'z) Kernel_scheme \<Rightarrow> ('b, 'z) Kernel_scheme res" where
  "CheckCharAvail k =
     res_bind (Schedule HConsoleRead 0 ConsoleTime ConsoleReadInt k) (\<lambda>k1.
       let c = console k1 in
       if incoming c \<noteq> EOF_CHAR then Inr k1
       else (case polls c of
           [] \<Rightarrow> Inr k1
         | None # ps \<Rightarrow> Inr (k1\<lparr>console := c\<lparr>polls := ps\<rparr>\<rparr>)
         | Some ch # ps \<Rightarrow>
             wake synchReadAvail (k1\<lparr>console := c\<lparr>polls := ps, incoming := sint ch\<rparr>,
               stats := (stats k1)\<lparr>numConsoleCharsRead := numConsoleCharsRead (stats k1) + 1\<rparr>\<rparr>)))"

definition WriteDone :: "('b, 'z) Kernel_scheme \<Rightarrow> ('b, 'z) Kernel_scheme res" where
  "WriteDone k = wake synchWriteAvail (k\<lparr>console := (console k)\<lparr>putBusy := False\<rparr>,
     stats := (stats k)\<lparr>numConsoleCharsWritten := numConsoleCharsWritten (stats k) + 1\<rparr>\<rparr>)"

definition GetChar :: "('b, 'z) Kernel_scheme \<Rightarrow> int \<times> ('b, 'z) Kernel_scheme" where
  "GetChar k = (incoming (console k), k\<lparr>console := (console k)\<lparr>incoming := EOF_CHAR\<rparr>\<rparr>)"

definition PutChar :: "8 word \<Rightarrow> ('b, 'z) Kernel_scheme \<Rightarrow> ('b, 'z) Kernel_scheme res" where
  "PutChar ch k = ASSERT (\<not> putBusy (console k))
     (Schedule HConsoleWrite 0 ConsoleTime ConsoleWriteInt
        (k\<lparr>console := (console k)\<lparr>display := display (console k) @ [ch], putBusy := True\<rparr>\<rparr>))"

section \<open>Interrupts\<close>

definition next_random :: "('b, 'z) Kernel_scheme \<Rightarrow> nat \<times> ('b, 'z) Kernel_scheme" where
  "next_random k = (case randoms k of [] \<Rightarrow> (0, k) | r # rs \<Rightarrow> (r, k\<lparr>randoms := rs\<rparr>))"

definition timer_expired :: "('b, 'z) Kernel_scheme \<Rightarrow> ('b, 'z) Kernel_scheme res" where
  "timer_expired k =
     (let (r, k1) = (if timer_randomize k then next_random k else (0, k)) in
      TimerExpired HTimer (timer_randomize k) r k1)"

definition kern_call :: "dev_handler \<Rightarrow> int \<Rightarrow> ('b, 'z) Kernel_scheme \<Rightarrow> ('b, 'z) Kernel_scheme res" where
  "kern_call h a k = (case h of HTimer \<Rightarrow> timer_expired k | HConsoleRead \<Rightarrow> CheckCharAvail k
     | HConsoleWrite \<Rightarrow> WriteDone k | HDisk \<Rightarrow> HandleInterrupt k)"

section \<open>The drivers\<close>

text \<open>\<open>SynchConsole::Write\<close>: the line lock, then each character with its wait.\<close>

definition SynchConsole_Write :: "8 word list \<Rightarrow> 'b act frame list" where
  "SynchConsole_Write from =
     FP WLineBlock # concat (map (\<lambda>ch. [FAct (APutChar ch), FP synchWriteAvail]) from) @ [FV WLineBlock]"

text \<open>\<open>SynchConsole::Read\<close> into buffer \<open>buf\<close>. \<open>read_more\<close> is the head of its outer loop with \<open>n\<close> characters read, \<open>read_end\<close>
  what follows the loops. When no character was asked for, the variable \<open>ch\<close> that decides the result was never set: \<open>junk_char\<close>.\<close>

definition read_end :: "nat \<Rightarrow> int \<Rightarrow> 'b act frame list" where
  "read_end buf r = [FV RLineBlock, FAct (AReturn buf r)]"

definition read_more :: "nat \<Rightarrow> nat \<Rightarrow> nat \<Rightarrow> 'b act frame list" where
  "read_more buf numBytes n =
     (if n < numBytes then [FP synchReadAvail, FAct (AGetChar buf numBytes n)] else read_end buf (int n))"

definition got_char :: "nat \<Rightarrow> nat \<Rightarrow> nat \<Rightarrow> ('b, 'z) Kernel_scheme \<Rightarrow> 'b act frame list \<times> ('b, 'z) Kernel_scheme" where
  "got_char buf numBytes n k =
     (let (ch, k1) = GetChar k in
      if ch = EOF_CHAR then ([FP synchReadAvail, FAct (AGetChar buf numBytes n)], k1)
      else if ch = 10 then (read_end buf (int n), k1)
      else if ch = 1 then (read_end buf (-1), k1)
      else (read_more buf numBytes (n + 1), k1\<lparr>buffers := (buffers k1)(buf := (buffers k1 buf)[n := word_of_int ch])\<rparr>))"

definition SynchConsole_Read :: "nat \<Rightarrow> nat \<Rightarrow> ('b, 'z) Kernel_scheme \<Rightarrow> 'b act frame list \<times> ('b, 'z) Kernel_scheme" where
  "SynchConsole_Read buf numBytes k =
     (FP RLineBlock # (if numBytes = 0 then read_end buf (if junk_char k = 1 then -1 else 0) else read_more buf numBytes 0),
      k\<lparr>buffers := (buffers k)(buf := replicate numBytes 0)\<rparr>)"

text \<open>\<open>SynchDisk\<close>: the dummy lock does nothing.\<close>

definition ReadSector :: "int \<Rightarrow> nat \<Rightarrow> 'b act frame list" where
  "ReadSector sectorNumber buf = [FAct (AReadRequest sectorNumber buf), FP disk_sem]"

definition WriteSector :: "int \<Rightarrow> nat \<Rightarrow> 'b act frame list" where
  "WriteSector sectorNumber buf = [FAct (AWriteRequest sectorNumber buf), FP disk_sem]"

definition kern_exec :: "('b \<Rightarrow> ('b, 'z) Kernel_scheme \<Rightarrow> ('b act frame list \<times> ('b, 'z) Kernel_scheme) res) \<Rightarrow>
    'b act \<Rightarrow> ('b, 'z) Kernel_scheme \<Rightarrow> ('b act frame list \<times> ('b, 'z) Kernel_scheme) res" where
  "kern_exec exec a k = (case a of
       APutChar ch \<Rightarrow> res_bind (PutChar ch k) (\<lambda>k'. Inr ([], k'))
     | AGetChar buf numBytes n \<Rightarrow> Inr (got_char buf numBytes n k)
     | AWrite from \<Rightarrow> Inr (SynchConsole_Write from, k)
     | ARead buf numBytes \<Rightarrow> Inr (SynchConsole_Read buf numBytes k)
     | AReadRequest s buf \<Rightarrow> res_bind (ReadRequest s buf k) (\<lambda>k'. Inr ([], k'))
     | AWriteRequest s buf \<Rightarrow> res_bind (WriteRequest s buf k) (\<lambda>k'. Inr ([], k'))
     | AReadSector s buf \<Rightarrow> Inr (ReadSector s buf, k)
     | AWriteSector s buf \<Rightarrow> Inr (WriteSector s buf, k)
     | AReturn buf r \<Rightarrow> Inr ([], k\<lparr>results := (results k)(buf := r)\<rparr>)
     | ACall b \<Rightarrow> exec b k)"

section \<open>The contracts hold\<close>

lemma Schedule_ok:
  assumes "Schedule h a n t k = Inr k'"
  shows "n > 0" "k' = k\<lparr>pending := pending k'\<rparr>"
    "pending_ok k \<Longrightarrow> pending_ok k'" "due (now k) (pending k') = due (now k) (pending k)"
  using assms by (auto simp: Schedule_def Let_def ASSERT_Inr_iff pending_ok_def sorted_ins_sorted due_ins_sorted)

text \<open>What every handler and every request to a device keeps.\<close>

definition dev_step :: "('b, 'z) Kernel_scheme \<Rightarrow> ('b, 'z) Kernel_scheme \<Rightarrow> bool" where
  "dev_step k k' = (level k' = level k \<and> machine k' = machine k \<and> status k' = status k \<and> inHandler k' = inHandler k \<and>
     same_clock k k' \<and> (pending_ok k \<longrightarrow> pending_ok k' \<and> due (now k) (pending k') = due (now k) (pending k)))"

lemma dev_step_refl: "dev_step k k"
  by (simp add: dev_step_def same_clock_def)

lemma dev_step_trans: "dev_step k k' \<Longrightarrow> dev_step k' k'' \<Longrightarrow> dev_step k k''"
  by (auto simp: dev_step_def same_clock_def)

lemma dev_step_Schedule:
  assumes "Schedule h a n t k = Inr k'"
  shows "dev_step k k' \<and> kview k' = kview k"
proof -
  note s = Schedule_ok [OF assms]
  have "level k' = level k" "machine k' = machine k" "status k' = status k" "inHandler k' = inHandler k" "stats k' = stats k"
    "kview k' = kview k" by (subst s(2), simp add: kview_def)+
  with s(3,4) show ?thesis by (simp add: dev_step_def same_clock_def)
qed

lemma dev_step_wake: "wake s k = Inr k' \<Longrightarrow> dev_step k k'"
  using wake_same [of s k k'] by (simp add: dev_step_def same_clock_def pending_ok_def)

text \<open>A handler is a change of device state, and then at most one \<open>V\<close>.\<close>

lemma kern_call_cases:
  assumes "kern_call h a k = Inr k'"
  obtains k1 where "dev_step k k1" "kview k1 = kview k" "k' = k1 \<or> (\<exists>s \<in> device_sems. wake s k1 = Inr k')"
    | k1 where "dev_step k k1" "kview k1 = kview k" "k' = k1\<lparr>yieldOnReturn := True\<rparr>"
proof (cases h)
  case HTimer
  define k0 where "k0 = snd (if timer_randomize k then next_random k else (0, k))"
  have k0: "dev_step k k0 \<and> kview k0 = kview k"
    by (auto simp: k0_def next_random_def dev_step_def same_clock_def kview_def pending_ok_def split: list.split)
  from assms HTimer obtain r k1 where k1: "Schedule HTimer 0 (TimeOfNextInterrupt (timer_randomize k) r) TimerInt k0 = Inr k1"
    "TimerInterruptHandler k1 = Inr k'"
    by (auto simp: kern_call_def timer_expired_def TimerExpired_def res_bind_Inr_iff k0_def case_prod_unfold Let_def split: if_splits)
  from dev_step_Schedule [OF k1(1)] k0 have d: "dev_step k k1" "kview k1 = kview k" by (auto intro: dev_step_trans)
  from k1(2) have "k' = k1 \<or> k' = k1\<lparr>yieldOnReturn := True\<rparr>"
    by (auto simp: TimerInterruptHandler_def YieldOnReturn_def ASSERT_Inr_iff split: if_splits)
  then show ?thesis
  proof
    assume "k' = k1"
    with d show ?thesis by (intro that(1) [of k1]) simp_all
  next
    assume "k' = k1\<lparr>yieldOnReturn := True\<rparr>"
    with d show ?thesis by (intro that(2) [of k1])
  qed
next
  case HConsoleRead
  with assms obtain k1 where k1: "Schedule HConsoleRead 0 ConsoleTime ConsoleReadInt k = Inr k1"
    and r: "(let c = console k1 in if incoming c \<noteq> EOF_CHAR then Inr k1
       else (case polls c of [] \<Rightarrow> Inr k1 | None # ps \<Rightarrow> Inr (k1\<lparr>console := c\<lparr>polls := ps\<rparr>\<rparr>)
         | Some ch # ps \<Rightarrow> wake synchReadAvail (k1\<lparr>console := c\<lparr>polls := ps, incoming := sint ch\<rparr>,
             stats := (stats k1)\<lparr>numConsoleCharsRead := numConsoleCharsRead (stats k1) + 1\<rparr>\<rparr>))) = Inr k'"
    by (auto simp: kern_call_def CheckCharAvail_def res_bind_Inr_iff)
  have d1: "dev_step k k1" "kview k1 = kview k" using dev_step_Schedule [OF k1] by blast+
  show ?thesis
  proof (cases "incoming (console k1) \<noteq> EOF_CHAR \<or> polls (console k1) = []")
    case True
    with r have "k' = k1" by (auto simp: Let_def split: if_splits)
    with d1 show ?thesis by (intro that(1) [of k1]) simp_all
  next
    case False
    then obtain p ps where p: "polls (console k1) = p # ps" by (cases "polls (console k1)") auto
    show ?thesis
    proof (cases p)
      case None
      with r False p have k': "k' = k1\<lparr>console := (console k1)\<lparr>polls := ps\<rparr>\<rparr>" by (simp add: Let_def)
      have "dev_step k k'" "kview k' = kview k" using d1 by (simp_all add: k' dev_step_def same_clock_def kview_def pending_ok_def)
      then show ?thesis by (intro that(1) [of k']) simp_all
    next
      case (Some ch)
      let ?k = "k1\<lparr>console := (console k1)\<lparr>polls := ps, incoming := sint ch\<rparr>,
             stats := (stats k1)\<lparr>numConsoleCharsRead := numConsoleCharsRead (stats k1) + 1\<rparr>\<rparr>"
      have "wake synchReadAvail ?k = Inr k'" using r False p Some by (simp add: Let_def)
      moreover have "dev_step k ?k" "kview ?k = kview k" using d1 by (simp_all add: dev_step_def same_clock_def kview_def pending_ok_def)
      moreover have "synchReadAvail \<in> device_sems" by (simp add: dev_sems device_sems_def)
      ultimately show ?thesis by (intro that(1) [of ?k] disjI2 bexI)
    qed
  qed
next
  case HConsoleWrite
  let ?k = "k\<lparr>console := (console k)\<lparr>putBusy := False\<rparr>,
     stats := (stats k)\<lparr>numConsoleCharsWritten := numConsoleCharsWritten (stats k) + 1\<rparr>\<rparr>"
  have "wake synchWriteAvail ?k = Inr k'" using assms HConsoleWrite by (simp add: kern_call_def WriteDone_def)
  moreover have "dev_step k ?k" "kview ?k = kview k" by (simp_all add: dev_step_def same_clock_def kview_def pending_ok_def)
  moreover have "synchWriteAvail \<in> device_sems" by (simp add: dev_sems device_sems_def)
  ultimately show ?thesis by (intro that(1) [of ?k] disjI2 bexI)
next
  case HDisk
  let ?k = "k\<lparr>disk := (disk k)\<lparr>active := False\<rparr>\<rparr>"
  have "wake disk_sem ?k = Inr k'" using assms HDisk by (simp add: kern_call_def HandleInterrupt_def)
  moreover have "dev_step k ?k" "kview ?k = kview k" by (simp_all add: dev_step_def same_clock_def kview_def pending_ok_def)
  moreover have "disk_sem \<in> device_sems" by (simp add: dev_sems device_sems_def)
  ultimately show ?thesis by (intro that(1) [of ?k] disjI2 bexI)
qed

lemma kern_call_step:
  assumes "kern_call h a k = Inr k'"
  shows "dev_step k k' \<and> woken device_sems k k'"
  using assms
proof (cases rule: kern_call_cases)
  case (1 k1)
  have w: "woken device_sems k k1" by (rule woken_view [OF 1(2)])
  from 1(3) show ?thesis
  proof
    assume "\<exists>s \<in> device_sems. wake s k1 = Inr k'"
    then obtain s where "s \<in> device_sems" "wake s k1 = Inr k'" by blast
    then have "dev_step k1 k'" "woken device_sems k1 k'" using dev_step_wake [of s k1 k'] woken_wake [of s k1 k' device_sems] by blast+
    with dev_step_trans [OF 1(1)] woken_trans [OF w] show ?thesis by simp
  qed (use 1(1) w in simp)
next
  case (2 k1)
  then have "kview k' = kview k" by (simp add: kview_def)
  moreover have "dev_step k k'" using 2 by (simp add: dev_step_def same_clock_def pending_ok_def)
  ultimately show ?thesis using woken_view by blast
qed

lemma kern_call_total:
  assumes "tinv (Some (currentThread k)) k" "inHandler k"
  shows "\<exists>k'. kern_call h a k = Inr k'"
proof -
  have w: "\<exists>k'. wake s k1 = Inr k'" if "kview k1 = kview k" for s k1
  proof -
    have "tview k1 = tview k" "currentThread k1 = currentThread k" using that by (simp_all add: kview_def tview_def)
    then have "tinv (Some (currentThread k)) k1" using assms(1) tinv_cong by metis
    then show ?thesis using wake_tinv by blast
  qed
  show ?thesis
  proof (cases h)
    case HTimer
    define p where "p = (if timer_randomize k then next_random k else (0, k))"
    have "inHandler (snd p)" using assms(2) by (auto simp: p_def next_random_def split: list.split)
    with HTimer show ?thesis
      using TimeOfNextInterrupt_pos
      by (simp add: kern_call_def timer_expired_def Let_def p_def [symmetric] case_prod_unfold TimerExpired_def Schedule_def
          TimerInterruptHandler_def YieldOnReturn_def)
  next
    case HConsoleRead
    obtain k1 where k1: "Schedule HConsoleRead 0 ConsoleTime ConsoleReadInt k = Inr k1"
      by (simp add: Schedule_def Let_def ConsoleTime_def)
    then have v: "kview k1 = kview k" using dev_step_Schedule by blast
    have "\<exists>k'. wake synchReadAvail (k1\<lparr>console := (console k1)\<lparr>polls := ps, incoming := sint ch\<rparr>,
             stats := (stats k1)\<lparr>numConsoleCharsRead := numConsoleCharsRead (stats k1) + 1\<rparr>\<rparr>) = Inr k'" for ps ch
      by (rule w) (use v in \<open>simp add: kview_def\<close>)
    with HConsoleRead k1 show ?thesis
      by (auto simp: kern_call_def CheckCharAvail_def Let_def split: list.split option.split)
  next
    case HConsoleWrite
    then show ?thesis by (simp add: kern_call_def WriteDone_def) (rule w, simp add: kview_def)
  next
    case HDisk
    then show ?thesis by (simp add: kern_call_def HandleInterrupt_def) (rule w, simp add: kview_def)
  qed
qed

lemma wake_fuel: "wake s k \<noteq> Inl OutOfFuel"
  by (auto simp: wake_def res_bind_def ReadyToRun_def deref_def split: list.splits sum.splits option.splits)

lemma kern_call_fuel: "kern_call h a k \<noteq> Inl OutOfFuel"
  by (auto simp: kern_call_def timer_expired_def TimerExpired_def Schedule_def TimerInterruptHandler_def YieldOnReturn_def
      CheckCharAvail_def WriteDone_def HandleInterrupt_def ASSERT_def Let_def wake_fuel res_bind_def
      split: dev_handler.splits if_splits list.splits option.splits sum.splits prod.splits)

text \<open>The requests: only device state, the pending interrupts and the statistics change.\<close>

text \<open>A driver's step changes the device only, and the frames it pushes touch the device's semaphores only.\<close>

definition dev_exec :: "('b, 'z) Kernel_scheme \<Rightarrow> 'b act frame list \<times> ('b, 'z) Kernel_scheme \<Rightarrow> bool" where
  "dev_exec k r = (dev_step k (snd r) \<and> kview (snd r) = kview k \<and> list_all plain (fst r) \<and>
     (\<forall>s. s \<notin> device_sems \<longrightarrow> avoids s (fst r)))"

lemma dev_exec_from: "dev_exec k1 r \<Longrightarrow> dev_step k k1 \<Longrightarrow> kview k1 = kview k \<Longrightarrow> dev_exec k r"
  unfolding dev_exec_def using dev_step_trans by metis

lemma dev_exec_frames: "list_all plain fs \<Longrightarrow> \<forall>s. s \<notin> device_sems \<longrightarrow> avoids s fs \<Longrightarrow> dev_exec k (fs, k)"
  by (simp add: dev_exec_def dev_step_refl)

lemma dev_quiet:
  "dev_step k (k\<lparr>buffers := b\<rparr>) \<and> kview (k\<lparr>buffers := b\<rparr>) = kview k"
  "dev_step k (k\<lparr>results := rs\<rparr>) \<and> kview (k\<lparr>results := rs\<rparr>) = kview k"
  "dev_step k (k\<lparr>console := c\<rparr>) \<and> kview (k\<lparr>console := c\<rparr>) = kview k"
  by (simp_all add: dev_step_def same_clock_def kview_def pending_ok_def)

lemma dev_exec_update:
  "dev_exec (k\<lparr>buffers := b\<rparr>) r \<Longrightarrow> dev_exec k r"
  "dev_exec (k\<lparr>console := c\<rparr>) r \<Longrightarrow> dev_exec k r"
  using dev_exec_from dev_quiet by blast+

lemma read_exec: "dev_exec k (read_end buf r, k)" "dev_exec k (read_more buf n i, k)"
  by (auto intro!: dev_exec_frames simp: read_more_def read_end_def avoids_def dev_sems device_sems_def)

lemma got_char_exec: "dev_exec k (got_char buf n i k)"
proof -
  let ?k = "k\<lparr>console := (console k)\<lparr>incoming := EOF_CHAR\<rparr>\<rparr>"
  let ?k2 = "?k\<lparr>buffers := (buffers ?k)(buf := (buffers ?k buf)[i := word_of_int (incoming (console k))])\<rparr>"
  have wait: "dev_exec ?k ([FP synchReadAvail, FAct (AGetChar buf n i)], ?k)"
    by (rule dev_exec_frames) (simp_all add: avoids_def dev_sems device_sems_def)
  have "dev_exec ?k (read_more buf n (i + 1), ?k2)" by (rule dev_exec_update(1) [OF read_exec(2)])
  with wait read_exec(1) [of ?k] have "dev_exec ?k (got_char buf n i k)"
    by (simp add: got_char_def GetChar_def)
  then show ?thesis by (rule dev_exec_update(2))
qed

lemma SynchConsole_Read_exec: "dev_exec k (SynchConsole_Read buf n k)"
proof -
  let ?k = "k\<lparr>buffers := (buffers k)(buf := replicate n 0)\<rparr>"
  let ?fs = "if n = 0 then read_end buf (if junk_char k = 1 then -1 else 0) else read_more buf n 0"
  have "dev_exec ?k (?fs, ?k)" by (simp add: read_exec)
  then have "dev_exec ?k (FP RLineBlock # ?fs, ?k)" by (simp add: dev_exec_def avoids_def dev_sems device_sems_def)
  then show ?thesis unfolding SynchConsole_Read_def by (rule dev_exec_update(1))
qed

lemma Schedule_exec:
  assumes "Schedule h b n t k1 = Inr k'" "dev_step k k1" "kview k1 = kview k"
  shows "dev_exec k ([], k')"
proof -
  have "dev_exec k1 ([], k')" using dev_step_Schedule [OF assms(1)] by (simp add: dev_exec_def avoids_def)
  then show ?thesis using assms(2,3) by (rule dev_exec_from)
qed

lemma PutChar_exec:
  assumes "PutChar ch k = Inr k'" shows "dev_exec k ([], k')"
proof -
  from assms have "Schedule HConsoleWrite 0 ConsoleTime ConsoleWriteInt
      (k\<lparr>console := (console k)\<lparr>display := display (console k) @ [ch], putBusy := True\<rparr>\<rparr>) = Inr k'"
    unfolding PutChar_def ASSERT_Inr_iff by (rule conjunct2)
  then show ?thesis by (rule Schedule_exec) (simp_all add: dev_quiet)
qed

lemma ReadRequest_exec:
  assumes "ReadRequest s buf k = Inr k'" shows "dev_exec k ([], k')"
proof -
  let ?k = "k\<lparr>buffers := (buffers k)(buf := sectors (disk k) (nat s)), disk := UpdateLast (now k) s ((disk k)\<lparr>active := True\<rparr>),
        stats := (stats k)\<lparr>numDiskReads := numDiskReads (stats k) + 1\<rparr>\<rparr>"
  from assms have "Schedule HDisk 0 (ComputeLatency (now k) s False (disk k)) DiskInt ?k = Inr k'"
    unfolding ReadRequest_def Let_def ASSERT_Inr_iff by blast
  moreover have "dev_step k ?k" "kview ?k = kview k" by (simp_all add: dev_step_def same_clock_def kview_def pending_ok_def)
  ultimately show ?thesis by (rule Schedule_exec)
qed

lemma WriteRequest_exec:
  assumes "WriteRequest s buf k = Inr k'" shows "dev_exec k ([], k')"
proof -
  let ?k = "k\<lparr>disk := UpdateLast (now k) s ((disk k)\<lparr>active := True, sectors := (sectors (disk k))(nat s := buffers k buf)\<rparr>),
        stats := (stats k)\<lparr>numDiskWrites := numDiskWrites (stats k) + 1\<rparr>\<rparr>"
  from assms have "Schedule HDisk 0 (ComputeLatency (now k) s True (disk k)) DiskInt ?k = Inr k'"
    unfolding WriteRequest_def Let_def ASSERT_Inr_iff by blast
  moreover have "dev_step k ?k" "kview ?k = kview k" by (simp_all add: dev_step_def same_clock_def kview_def pending_ok_def)
  ultimately show ?thesis by (rule Schedule_exec)
qed

lemma driver_frames_ok:
  "dev_exec k (SynchConsole_Write from, k)" "dev_exec k (ReadSector s buf, k)" "dev_exec k (WriteSector s buf, k)"
  by (auto intro!: dev_exec_frames simp: SynchConsole_Write_def ReadSector_def WriteSector_def list_all_iff avoids_def
      dev_sems device_sems_def)

lemma kern_exec_step: "kern_exec exec a k = Inr r \<Longrightarrow> dev_exec k r \<or> (\<exists>b. a = ACall b \<and> exec b k = Inr r)"
  by (cases a)
    (auto simp: kern_exec_def res_bind_Inr_iff got_char_exec SynchConsole_Read_exec driver_frames_ok
      dev_exec_def [of _ "([], _\<lparr>results := _\<rparr>)"] dev_quiet avoids_def
      intro: PutChar_exec ReadRequest_exec WriteRequest_exec)

lemma dev_exec_kinv:
  assumes "kinv k" "running k" "dev_exec k (fs, k')"
  shows "kinv k' \<and> running k' \<and> list_all plain fs"
proof -
  have e: "dev_step k k'" "kview k' = kview k" "list_all plain fs" using assms(3) by (simp_all add: dev_exec_def)
  have v: "tview k' = tview k" "threads k' = threads k" "currentThread k' = currentThread k"
    using e(2) by (simp_all add: kview_def tview_def)
  then have "running k'" using assms(2) by (simp add: running_def)
  moreover have "hinv k'" using hinv_cong [OF v(1,3)] e(1) assms(1) by (simp add: kinv_def hinv_def dev_step_def)
  moreover have "status k' \<noteq> IdleMode" using e(1) assms(1) by (simp add: dev_step_def kinv_def)
  ultimately show ?thesis using e(3) by (simp add: kinv_running_iff)
qed

text \<open>The handlers meet their contract. The drivers meet theirs when the code above them does.\<close>

interpretation handlers: kernel_handlers "kern_call :: dev_handler \<Rightarrow> int \<Rightarrow> ('b, 'z) Kernel_scheme \<Rightarrow> ('b, 'z) Kernel_scheme res"
  device_sems
proof (unfold_locales)
  fix h :: dev_handler and a :: int and k k' :: "('b, 'z) Kernel_scheme"
  show "kern_call h a k \<noteq> Inl OutOfFuel" by (rule kern_call_fuel)
  show "tinv (Some (currentThread k)) k \<Longrightarrow> inHandler k \<Longrightarrow> \<exists>k'. kern_call h a k = Inr k'" by (rule kern_call_total)
  assume "kern_call h a k = Inr k'"
  from kern_call_step [OF this] show "inHandler k \<Longrightarrow> level k' = level k" "same_clock k k'" "pending_ok k \<Longrightarrow> pending_ok k'"
    "pending_ok k \<Longrightarrow> due (now k) (pending k') = due (now k) (pending k)" "woken device_sems k k' \<and> machine k' = machine k"
    by (simp_all add: dev_step_def)
qed

locale driver_clients =
  fixes exec :: "'b \<Rightarrow> ('b, 'z) Kernel_scheme \<Rightarrow> ('b act frame list \<times> ('b, 'z) Kernel_scheme) res"
  assumes client_kinv: "kinv k \<Longrightarrow> running k \<Longrightarrow> exec b k = Inr (fs, k') \<Longrightarrow> kinv k' \<and> running k' \<and> list_all plain fs"

sublocale driver_clients \<subseteq> kern: kernel_clients kern_call device_sems "kern_exec exec"
  by unfold_locales (use kern_exec_step dev_exec_kinv client_kinv in blast)

locale driver_sync = driver_clients exec
  for exec :: "'b \<Rightarrow> ('b, 'z) Kernel_scheme \<Rightarrow> ('b act frame list \<times> ('b, 'z) Kernel_scheme) res" +
  assumes client_abs: "exec b k = Inr (fs, k') \<Longrightarrow> abs_k k' = abs_k k \<and> (\<forall>s. s \<notin> device_sems \<longrightarrow> avoids s fs)"

sublocale driver_sync \<subseteq> sync: kernel_sync kern_call device_sems "kern_exec exec"
proof (unfold_locales)
  fix a k fs k'
  assume "kern_exec exec a k = Inr (fs, k')"
  then show "abs_k k' = abs_k k \<and> (\<forall>s. s \<notin> device_sems \<longrightarrow> avoids s fs)"
    using kern_exec_step [of exec a k "(fs, k')"] abs_kview [of k' k] client_abs by (auto simp: dev_exec_def)
qed

section \<open>The disk's timing\<close>

lemma sdiv_smod_nonneg: "0 \<le> a \<Longrightarrow> 0 < b \<Longrightarrow> (a :: int) sdiv b = a div b" "0 \<le> a \<Longrightarrow> 0 < b \<Longrightarrow> a smod b = a mod b"
  by (cases "a = 0"; simp add: signed_divide_int_def signed_modulo_int_def minus_mult_div_eq_mod)+

lemma ModuloDiff_eq: "0 \<le> a \<Longrightarrow> 0 \<le> b \<Longrightarrow> ModuloDiff a b = (a - b) mod SectorsPerTrack"
proof -
  assume "0 \<le> a" "0 \<le> b"
  moreover have "0 \<le> a mod 32 - b mod 32 + 32" using pos_mod_bound [of 32 b] pos_mod_sign [of 32 a] by linarith
  ultimately show ?thesis
    by (simp add: ModuloDiff_def SectorsPerTrack_def sdiv_smod_nonneg Let_def mod_diff_eq)
qed

lemma ModuloDiff_range: "0 \<le> a \<Longrightarrow> 0 \<le> b \<Longrightarrow> 0 \<le> ModuloDiff a b \<and> ModuloDiff a b < SectorsPerTrack"
  by (simp add: ModuloDiff_eq SectorsPerTrack_def)

lemma TimeToSeek_range:
  assumes "0 \<le> t" "0 \<le> s" "s < NumSectors" "0 \<le> lastSector d" "lastSector d < NumSectors"
  shows "0 \<le> fst (TimeToSeek t s d)" "fst (TimeToSeek t s d) \<le> (NumTracks - 1) * SeekTime"
    "0 \<le> snd (TimeToSeek t s d)" "snd (TimeToSeek t s d) < RotationTime"
    "(t + fst (TimeToSeek t s d) + snd (TimeToSeek t s d)) mod RotationTime = 0"
proof -
  let ?seek = "\<bar>s div 32 - lastSector d div 32\<bar> * 500"
  let ?over = "(t + ?seek) mod 500"
  have e: "TimeToSeek t s d = (?seek, if ?over > 0 then 500 - ?over else 0)"
    using assms by (simp add: TimeToSeek_def SectorsPerTrack_def SeekTime_def RotationTime_def sdiv_smod_nonneg Let_def)
  have "0 \<le> s div 32" "s div 32 \<le> 31" "0 \<le> lastSector d div 32" "lastSector d div 32 \<le> 31"
    using assms by (simp_all add: NumSectors_def SectorsPerTrack_def NumTracks_def)
  then show "0 \<le> fst (TimeToSeek t s d)" "fst (TimeToSeek t s d) \<le> (NumTracks - 1) * SeekTime"
    unfolding e by (simp_all add: NumTracks_def SeekTime_def)
  show "0 \<le> snd (TimeToSeek t s d)" "snd (TimeToSeek t s d) < RotationTime"
    unfolding e by (simp_all add: RotationTime_def less_imp_le)
  show "(t + fst (TimeToSeek t s d) + snd (TimeToSeek t s d)) mod RotationTime = 0"
  proof -
    have "(x + (if x mod 500 > 0 then 500 - x mod 500 else 0)) mod 500 = 0" for x :: int by presburger
    from this [of "t + ?seek"] show ?thesis unfolding e fst_conv snd_conv RotationTime_def by (simp only: add.assoc)
  qed
qed

lemma ComputeLatency_bounds:
  assumes "0 \<le> t" "0 \<le> s" "s < NumSectors" "0 \<le> lastSector d" "lastSector d < NumSectors"
  shows "RotationTime \<le> ComputeLatency t s w d \<and> ComputeLatency t s w d < 32000"
proof -
  obtain seek rot where e: "TimeToSeek t s d = (seek, rot)" by (cases "TimeToSeek t s d")
  note r = TimeToSeek_range [OF assms, unfolded e fst_conv snd_conv]
  have "0 \<le> (t + seek + rot) sdiv RotationTime" using r assms(1) by (simp add: sdiv_smod_nonneg RotationTime_def)
  from ModuloDiff_range [OF assms(2) this] r show ?thesis
    by (auto simp: ComputeLatency_def e Let_def NumTracks_def SeekTime_def RotationTime_def SectorsPerTrack_def)
qed

text \<open>C17. Disk timing: for sectors on the disk, the latency that \<open>ComputeLatency\<close> gives is at least one sector's transfer and less than
  32000 ticks, so scheduling the completion never fails. A write starts its transfer exactly at a sector boundary at which
  the wanted sector is under the head.\<close>

theorem disk_latency_bounds:
  assumes "0 \<le> t" "0 \<le> s" "s < NumSectors" "0 \<le> lastSector d" "lastSector d < NumSectors"
  shows "RotationTime \<le> ComputeLatency t s w d \<and> ComputeLatency t s w d < 32000 \<and>
    (w \<longrightarrow> (let start = t + ComputeLatency t s w d - RotationTime in
        start mod RotationTime = 0 \<and> (start div RotationTime) mod SectorsPerTrack = s mod SectorsPerTrack))"
proof -
  obtain seek rot where e: "TimeToSeek t s d = (seek, rot)" by (cases "TimeToSeek t s d")
  note r = TimeToSeek_range [OF assms, unfolded e fst_conv snd_conv]
  define q where "q = (t + seek + rot) div 500"
  have q: "t + seek + rot = 500 * q" "0 \<le> q" using r assms(1) by (auto simp: q_def RotationTime_def)
  then have "ComputeLatency t s True d = seek + rot + ((s - q) mod 32) * 500 + 500"
    using assms(2) by (simp add: ComputeLatency_def e Let_def RotationTime_def sdiv_smod_nonneg ModuloDiff_eq SectorsPerTrack_def)
  then have st: "t + ComputeLatency t s True d - 500 = 500 * (q + (s - q) mod 32)" using q(1) by simp
  have "(q + (s - q) mod 32) mod 32 = s mod 32" by (simp add: mod_add_right_eq)
  then show ?thesis
    using ComputeLatency_bounds [OF assms, of w] st by (auto simp: Let_def RotationTime_def SectorsPerTrack_def)
qed

theorem disk_latency_bounds_witness:
  "ComputeLatency 1234 700 True \<lparr>active = False, lastSector = 3, bufferInit = 0, sectors = \<lambda>_. []\<rparr> < 32000"
  using disk_latency_bounds [of 1234 700 "\<lparr>active = False, lastSector = 3, bufferInit = 0, sectors = \<lambda>_. []\<rparr>" True]
  by (simp add: NumSectors_def SectorsPerTrack_def NumTracks_def)

end
