(* ===== verification/ThreadTest.thy ===== *)
theory ThreadTest
  imports Devices
begin

text \<open>
  The kernel without user programs: the first part of \<open>Initialize\<close> (\<open>threads/system.cc\<close>) and the thread test of
  \<open>threads/threadtest.cc\<close>, whose \<open>printf\<close> is the only action above the drivers. \<open>printed\<close> is its output. The contracts
  of theory \<open>Devices\<close> hold for it, and the facts about threads, semaphores and devices are stated for any
  thread program of this kernel.
\<close>

section \<open>The test\<close>

datatype test_act = APrint int int     \<comment> \<open>\<open>printf("*** thread %d looped %d times\n", which, num)\<close>\<close>

record TestK = "test_act Kernel" +
  printed :: "(int \<times> int) list"

definition test_exec :: "test_act \<Rightarrow> TestK \<Rightarrow> (test_act act frame list \<times> TestK) res" where
  "test_exec b k = (case b of APrint which num \<Rightarrow> Inr ([], k\<lparr>printed := printed k @ [(which, num)]\<rparr>))"

definition SimpleThread :: "int \<Rightarrow> test_act act frame list" where
  "SimpleThread which = concat (map (\<lambda>num. [FAct (ACall (APrint which num)), FYield]) [0, 1, 2, 3, 4])"

definition ThreadTest1 :: "test_act act frame list" where
  "ThreadTest1 = FFork (SimpleThread 1) # SimpleThread 0"

section \<open>Starting the kernel\<close>

text \<open>The objects that every build creates, in memory that held \<open>k\<close>. \<open>randomYield\<close> is the flag \<open>-rs\<close>.\<close>

definition Initialize :: "bool \<Rightarrow> 'b act frame list \<Rightarrow> ('b, 'z) Kernel_scheme \<Rightarrow> ('b, 'z) Kernel_scheme res" where
  "Initialize randomYield main k =
     (let k1 = (Interrupt_init (k\<lparr>stats := Statistics_new\<rparr>))\<lparr>readyList := [], halted := False\<rparr>;
          (r, k2) = (if randomYield then next_random k1 else (0, k1))
      in res_bind (if randomYield then Timer_start HTimer True r (k2\<lparr>timer_randomize := True\<rparr>) else Inr k2) (\<lambda>k3.
           let k4 = k3\<lparr>threadToBeDestroyed := None, threads := [0 \<mapsto> main_thread main], next_thread := 1, currentThread := 0\<rparr>
           in res_bind (Enable kern_call k4) (\<lambda>(y, k5). Inr (push (yield_frames y) k5))))"

text \<open>Running the kernel for at most \<open>n\<close> steps.\<close>

fun krun :: "('h, 'a, 'z) tcaller \<Rightarrow> ('h, 'a, 'z) texec \<Rightarrow> nat \<Rightarrow> ('h, 'a, 'z) TSys_scheme \<Rightarrow> ('h, 'a, 'z) TSys_scheme res" where
  "krun call exec 0 k = Inr k"
| "krun call exec (Suc n) k = (if halted k then Inr k else res_bind (kstep call exec k) (krun call exec n))"

lemma krun_kreach: "krun call exec n k = Inr k' \<Longrightarrow> kreach call exec k0 k \<Longrightarrow> kreach call exec k0 k'"
proof (induction n arbitrary: k)
  case (Suc n)
  show ?case
  proof (cases "halted k")
    case False
    with Suc.prems(1) obtain k1 where "kstep call exec k = Inr k1" "krun call exec n k1 = Inr k'"
      by (auto simp: res_bind_Inr_iff)
    with Suc.IH [OF this(2)] Suc.prems(2) False show ?thesis by (blast intro: kreach_step)
  qed (use Suc.prems in simp)
qed simp

text \<open>Memory before \<open>Initialize\<close>.\<close>

definition blank_disk :: Disk where
  "blank_disk = \<lparr>active = False, lastSector = 0, bufferInit = 0, sectors = (\<lambda>_. replicate 512 0)\<rparr>"

definition blank_console :: Console where
  "blank_console = \<lparr>putBusy = False, incoming = EOF_CHAR, polls = [], display = []\<rparr>"

definition blank_test :: TestK where
  "blank_test = \<lparr>level = IntOff, pending = [], inHandler = False, yieldOnReturn = False, status = SystemMode,
     stats = Statistics_new, machine = None, threads = Map.empty, currentThread = 0, readyList = [],
     threadToBeDestroyed = None, sems = (\<lambda>_. Semaphore_new 0), next_thread = 0, halted = False, timer_randomize = False,
     randoms = [], disk = blank_disk, console = blank_console, buffers = (\<lambda>_. []), results = (\<lambda>_. 0), junk_char = 0,
     printed = []\<rparr>"

definition test_run :: "nat \<Rightarrow> test_act act frame list \<Rightarrow> TestK res" where
  "test_run n main = res_bind (Initialize False main blank_test) (krun kern_call (kern_exec test_exec) n)"

lemmas run_defs = kstep_def deref_def run_frame_def set_level_def SetLevel_def OneTick_def ChangeLevel_def tick_stats_def
  fire_due.simps CheckIfDue_def yield_frames_def push_def set_thread_def Run_def save_user_def CheckOverflow_def Run_tail_def
  Thread_Yield_def disable_def FindNextToRun_def ReadyToRun_def Thread_Sleep_def Sleep_loop_def Thread_Finish_def Idle_def
  Thread_delete_def StackAllocate_def Thread_Fork_def new_thread_def fork_new_def Thread_new_def Let_def

text \<open>An action fails only as a device request that its device's assertions refuse.\<close>

lemma test_exec_Inr: "\<exists>r. test_exec b k = Inr r"
  by (cases b) (simp add: test_exec_def)

lemma kern_exec_test_fails:
  assumes "kern_exec test_exec a k = Inl e"
  shows "e = AssertFail \<and> ((\<exists>ch. a = APutChar ch \<and> putBusy (console k)) \<or>
     (\<exists>s buf. (a = AReadRequest s buf \<or> a = AWriteRequest s buf) \<and>
        (active (disk k) \<or> s < 0 \<or> s \<ge> NumSectors \<or> ComputeLatency (now k) s (a = AWriteRequest s buf) (disk k) \<le> 0)))"
proof (cases a)
  case (ACall b)
  with assms test_exec_Inr [of b k] show ?thesis by (auto simp: kern_exec_def)
qed (use assms in \<open>auto simp: kern_exec_def PutChar_def ReadRequest_def WriteRequest_def Let_def ASSERT_def Schedule_def
    ConsoleTime_def split: if_splits\<close>)

interpretation test: driver_sync test_exec
proof (unfold_locales)
  fix k k' :: TestK and b fs
  assume e: "test_exec b k = Inr (fs, k')"
  then obtain ps where k': "fs = []" "k' = k\<lparr>printed := ps\<rparr>" by (cases b) (auto simp: test_exec_def)
  show "abs_k k' = abs_k k \<and> (\<forall>s. s \<notin> device_sems \<longrightarrow> avoids s fs)" by (simp add: k' abs_k_def avoids_def)
  assume "kinv k" "running k"
  moreover have "dev_exec k (fs, k')"
    by (simp add: k' dev_exec_def dev_step_def same_clock_def kview_def pending_ok_def avoids_def)
  ultimately show "kinv k' \<and> running k' \<and> list_all plain fs" by (rule dev_exec_kinv)
qed

lemma wake_halted: "wake s k = Inr k' \<Longrightarrow> halted k' = halted k"
  by (auto simp: wake_def res_bind_Inr_iff ReadyToRun_def deref_def set_sem_def set_thread_def split: list.splits option.splits)

lemma woken_halted: "woken D k k' \<Longrightarrow> halted k' = halted k"
proof -
  have "res_fold wake ss k = Inr k1 \<Longrightarrow> halted k1 = halted k" for ss k1
    by (induction ss arbitrary: k) (auto simp: res_bind_Inr_iff dest: wake_halted)
  then show "woken D k k' \<Longrightarrow> halted k' = halted k" by (auto simp: woken_def kview_def)
qed

lemma push_halted [simp]: "halted (push fs k) = halted k"
  by (simp add: push_def set_thread_def split: option.split)

lemma set_level_halted:
  assumes "set_level kern_call l k = Inr k'" shows "halted k' = halted k"
  using assms
  by (auto simp: set_level_def SetLevel_def res_bind_Inr_iff ChangeLevel_def Let_def ASSERT_Inr_iff split: if_splits
      dest!: handlers.OneTick_woken woken_halted)

text \<open>\<open>Initialize\<close> establishes the invariant.\<close>

lemma main_thread_kinv:
  assumes "list_all plain main" "threads k = [0 \<mapsto> main_thread main]" "currentThread k = 0" "next_thread k = 1"
    "readyList k = []" "\<forall>s. sem_queue (sems k s) = []" "threadToBeDestroyed k = None" "machine k = None"
    "pending_ok k" "\<not> inHandler k" "status k \<noteq> IdleMode"
  shows "kinv k \<and> running k"
proof -
  have b: "body (main @ [FFinish])" using assms(1) by (intro body_append) simp_all
  then have r: "running k" using assms(2,3) by (simp add: running_def main_thread_def)
  have "tinv (Some 0) k" using assms b
    by (auto simp: tinv_def thread_ok_def stack_ok_def waits_for_def main_thread_def Thread_new_def resume_ok_def split: if_splits)
  moreover have "cpu_inv k" using assms(2,8) by (auto simp: cpu_inv_def saved_ok_def main_thread_def Thread_new_def split: if_splits)
  ultimately show ?thesis using r assms by (simp add: kinv_running_iff hinv_def)
qed

lemma Initialize_kinv:
  assumes "machine k = None" "\<forall>s. sem_queue (sems k s) = []" "list_all plain main"
  shows "\<exists>k'. Initialize r main k = Inr k' \<and> kinv k' \<and> running k' \<and> \<not> halted k'"
proof -
  define k1 where "k1 = (Interrupt_init (k\<lparr>stats := Statistics_new\<rparr>))\<lparr>readyList := [], halted := False\<rparr>"
  define k2 where "k2 = (if r then (snd (next_random k1))\<lparr>timer_randomize := True\<rparr> else k1)"
  define k3 where "k3 = (if r then k2\<lparr>pending := [(now k1 + TimeOfNextInterrupt True (fst (next_random k1)),
      PendingInterrupt_new HTimer 0 (now k1 + TimeOfNextInterrupt True (fst (next_random k1))) TimerInt)]\<rparr> else k2)"
  define k4 where "k4 = k3\<lparr>threadToBeDestroyed := None, threads := [0 \<mapsto> main_thread main], next_thread := 1, currentThread := 0\<rparr>"
  have n: "pending (snd (next_random k1)) = []" "now (snd (next_random k1)) = now k1" "inHandler (snd (next_random k1)) = False"
    "status (snd (next_random k1)) = SystemMode" "readyList (snd (next_random k1)) = []" "machine (snd (next_random k1)) = None"
    "sems (snd (next_random k1)) = sems k" "sems k1 = sems k"
    using assms(1) by (auto simp: next_random_def k1_def Interrupt_init_def split: list.split)
  have k: "kinv k4 \<and> running k4"
    using assms n by (intro main_thread_kinv [of main])
      (auto simp: k4_def k3_def k2_def k1_def Interrupt_init_def pending_ok_def)
  have e: "(if r then Timer_start HTimer True (fst (next_random k1)) ((snd (next_random k1))\<lparr>timer_randomize := True\<rparr>) else Inr k1) = Inr k3"
    using n TimeOfNextInterrupt_pos by (simp add: k3_def k2_def Timer_start_def Schedule_def Let_def)
  have "Initialize r main k = set_level kern_call IntOn k4"
    using e unfolding Initialize_def k1_def [symmetric] Let_def
    by (cases r) (auto simp: case_prod_unfold k4_def set_level_def Enable_def res_bind_def split: sum.splits)
  moreover obtain k' where k': "set_level kern_call IntOn k4 = Inr k'" "kinv k'" "running k'"
    using handlers.set_level_kinv k by blast
  moreover have "\<not> halted k4"
    by (auto simp: k4_def k3_def k2_def k1_def next_random_def Interrupt_init_def split: list.split)
  ultimately show ?thesis using set_level_halted [OF k'(1)] by simp
qed

section \<open>Properties of the kernel\<close>

text \<open>C1. Safety of the thread system: from the state that \<open>Initialize\<close> leaves, with or without the random timer and with any
  main program, every reachable state has a next step. No assertion of the threads, the scheduler, the semaphores or the interrupt
  simulation fails and no dangling or null pointer is followed. The only step that fails is a device request that the device refuses:
  a character written while the console is busy, or a disk request with another one active or a bad sector or latency.\<close>

theorem kernel_never_faults:
  assumes "machine k = None" "\<forall>s. sem_queue (sems k s) = []" "list_all plain main"
  shows "\<exists>k0. Initialize r main k = Inr k0 \<and>
    (\<forall>k1. kreach kern_call (kern_exec test_exec) k0 k1 \<and> \<not> halted k1 \<longrightarrow>
       (\<exists>k2. kstep kern_call (kern_exec test_exec) k1 = Inr k2) \<or>
       kstep kern_call (kern_exec test_exec) k1 = Inl AssertFail \<and>
         ((\<exists>ch fs. cur_frames k1 = FAct (APutChar ch) # fs) \<or> (\<exists>s buf fs. cur_frames k1 = FAct (AReadRequest s buf) # fs \<or>
            cur_frames k1 = FAct (AWriteRequest s buf) # fs)))"
proof -
  from Initialize_kinv [OF assms] obtain k0 where k0: "Initialize r main k = Inr k0" "kinv k0" "\<not> halted k0" by blast
  have "(\<exists>k2. kstep kern_call (kern_exec test_exec) k1 = Inr k2) \<or>
       kstep kern_call (kern_exec test_exec) k1 = Inl AssertFail \<and>
         ((\<exists>ch fs. cur_frames k1 = FAct (APutChar ch) # fs) \<or> (\<exists>s buf fs. cur_frames k1 = FAct (AReadRequest s buf) # fs \<or>
            cur_frames k1 = FAct (AWriteRequest s buf) # fs))"
    if "kreach kern_call (kern_exec test_exec) k0 k1" "\<not> halted k1" for k1
  proof -
    from test.kern.kreach_kinv [OF that(1) k0(2,3)] that(2) have "kinv k1" by simp
    from test.kern.kstep_ok [OF this] show ?thesis using kern_exec_test_fails by blast
  qed
  with k0(1) show ?thesis by blast
qed

lemma kernel_never_faults_witness:
  "\<exists>k0. Initialize True [FYield] blank_test = Inr k0 \<and>
    (\<forall>k1. kreach kern_call (kern_exec test_exec) k0 k1 \<and> \<not> halted k1 \<longrightarrow>
       (\<exists>k2. kstep kern_call (kern_exec test_exec) k1 = Inr k2) \<or>
       kstep kern_call (kern_exec test_exec) k1 = Inl AssertFail \<and>
         ((\<exists>ch fs. cur_frames k1 = FAct (APutChar ch) # fs) \<or> (\<exists>s buf fs. cur_frames k1 = FAct (AReadRequest s buf) # fs \<or>
            cur_frames k1 = FAct (AWriteRequest s buf) # fs)))"
  by (rule kernel_never_faults) (simp_all add: blank_test_def Semaphore_new_def)

text \<open>C2. Threads, scheduler and semaphores implement their specification: every run of the kernel, with its interrupt levels,
  clock, timer and device handlers, is a run of the abstract system in which a running thread is preempted at any moment and
  a device does \<open>V\<close> on one of its semaphores at any moment.\<close>

theorem kernel_refines_spec:
  assumes "kinv k" "\<not> halted k" "kreach kern_call (kern_exec test_exec) k k'"
  shows "(astep device_sems)\<^sup>*\<^sup>* (abs_k k) (abs_k k')"
  by (rule test.sync.kreach_refines [OF assms(3,1,2)])

text \<open>A run of \<open>ThreadTest1\<close> from \<open>Initialize\<close> to the halt.\<close>

lemma test1_run:
  "\<exists>k0 k'. Initialize False ThreadTest1 blank_test = Inr k0 \<and> kinv k0 \<and> \<not> halted k0 \<and>
     krun kern_call (kern_exec test_exec) 60 k0 = Inr k' \<and> halted k' \<and> now k' = 130 \<and>
     printed k' = [(0, 0), (1, 0), (0, 1), (1, 1), (0, 2), (1, 2), (0, 3), (1, 3), (0, 4), (1, 4)]"
proof -
  have "list_all plain ThreadTest1" by (simp add: ThreadTest1_def SimpleThread_def)
  with Initialize_kinv [of blank_test ThreadTest1 False] obtain k0 where
    k0: "Initialize False ThreadTest1 blank_test = Inr k0" "kinv k0" "\<not> halted k0"
    by (auto simp: blank_test_def Semaphore_new_def)
  have "res_bind (Initialize False ThreadTest1 blank_test)
      (\<lambda>k. res_bind (krun kern_call (kern_exec test_exec) 60 k) (\<lambda>k. Inr (printed k, halted k, now k))) =
    Inr ([(0, 0), (1, 0), (0, 1), (1, 1), (0, 2), (1, 2), (0, 3), (1, 3), (0, 4), (1, 4)], True, 130)"
    by (simp add: Initialize_def blank_test_def Interrupt_init_def main_thread_def Enable_def run_defs ThreadTest1_def
        SimpleThread_def kern_exec_def test_exec_def eval_nat_numeral SystemTick_def Statistics_new_def)
  with k0 show ?thesis by (auto simp: res_bind_Inr_iff)
qed

theorem kernel_refines_spec_witness:
  "\<exists>k0 k'. Initialize False ThreadTest1 blank_test = Inr k0 \<and> krun kern_call (kern_exec test_exec) 60 k0 = Inr k' \<and>
     halted k' \<and> (astep device_sems)\<^sup>*\<^sup>* (abs_k k0) (abs_k k')"
proof -
  from test1_run obtain k0 k' where k: "Initialize False ThreadTest1 blank_test = Inr k0" "kinv k0" "\<not> halted k0"
    "krun kern_call (kern_exec test_exec) 60 k0 = Inr k'" "halted k'" by blast
  from kernel_refines_spec [OF k(2,3) krun_kreach [OF k(4) kreach_refl]] k show ?thesis by blast
qed


text \<open>The threads of the abstract state are below the next free number.\<close>

lemma abs_afin: "kinv k \<Longrightarrow> afin (abs_k k)"
  using tinvD(5) by (fastforce simp: kinv_def afin_def thread_ok_def tsig_def)

text \<open>C3. Mutual exclusion: when the threads use a semaphore as a lock (\<open>P\<close> and \<open>V\<close> alternate in each of them, and in those they
  fork) and it is free with value 1 or held once, then in every reachable state at most one thread is between its \<open>P\<close> and its
  \<open>V\<close>, whatever preemption by the timer and wake-ups by devices happened in between, and the value is 0 exactly then.\<close>

theorem semaphore_mutual_exclusion:
  assumes "kinv k" "\<not> halted k" "kreach kern_call (kern_exec test_exec) k k'" "m \<notin> device_sems"
    "lock_users m (abs_k k)" "\<forall>s. 0 \<le> sem_value (sems k s)" "sem_value (sems k m) + int (card (holders m (abs_k k))) = 1"
  shows "card (holders m (abs_k k')) \<le> 1 \<and> sem_value (sems k' m) = 1 - int (card (holders m (abs_k k')))"
proof -
  have "lock_inv m 1 (abs_k k)" using assms abs_afin by (simp add: lock_inv_def)
  from asteps_lock_inv [OF test.sync.kreach_refines [OF assms(3,1,2)] this assms(4)]
  have "0 \<le> sem_value (sems k' m)" "sem_value (sems k' m) + int (card (holders m (abs_k k'))) = 1"
    by (simp_all add: lock_inv_def)
  then show ?thesis by linarith
qed

text \<open>Two threads that increment under a lock: the semaphore 7.\<close>

definition locked_main :: "test_act act frame list" where
  "locked_main = [FFork [FP 7, FAct (ACall (APrint 1 0)), FYield, FV 7], FP 7, FAct (ACall (APrint 0 0)), FYield, FV 7]"

definition lock_memory :: TestK where
  "lock_memory = blank_test\<lparr>sems := (\<lambda>_. Semaphore_new 0)(7 := Semaphore_new 1)\<rparr>"

lemma locked_boot:
  obtains k0 where "Initialize False locked_main lock_memory = Inr k0" "kinv k0" "\<not> halted k0"
    "sems k0 = sems lock_memory" "threads k0 = [0 \<mapsto> main_thread locked_main]"
proof -
  have "list_all plain locked_main" by (simp add: locked_main_def)
  moreover have "machine lock_memory = None" "\<forall>s. sem_queue (sems lock_memory s) = []"
    by (simp_all add: lock_memory_def blank_test_def Semaphore_new_def)
  ultimately obtain k0 where k0: "Initialize False locked_main lock_memory = Inr k0" "kinv k0" "\<not> halted k0"
    using Initialize_kinv by blast
  moreover have "sems k0 = sems lock_memory \<and> threads k0 = [0 \<mapsto> main_thread locked_main]"
    using k0(1) by (auto simp: Initialize_def lock_memory_def blank_test_def Interrupt_init_def main_thread_def Enable_def run_defs
        eval_nat_numeral SystemTick_def Statistics_new_def)
  ultimately show thesis using that by blast
qed

theorem semaphore_mutual_exclusion_witness:
  "\<exists>k0. Initialize False locked_main lock_memory = Inr k0 \<and>
     (\<forall>k'. kreach kern_call (kern_exec test_exec) k0 k' \<longrightarrow> card (holders 7 (abs_k k')) \<le> 1)"
proof -
  obtain k0 where k0: "Initialize False locked_main lock_memory = Inr k0" "kinv k0" "\<not> halted k0"
    "sems k0 = sems lock_memory" "threads k0 = [0 \<mapsto> main_thread locked_main]" by (rule locked_boot)
  have l: "lock_ok 7 b (frames_of (main_thread locked_main)) = (\<not> b)" for b
    by (simp add: main_thread_def locked_main_def)
  then have "holders 7 (abs_k k0) = {}" "lock_users 7 (abs_k k0)"
    using k0(5) by (auto simp: holders_def lock_users_def tsig_def split: if_splits)
  then have "card (holders 7 (abs_k k')) \<le> 1" if "kreach kern_call (kern_exec test_exec) k0 k'" for k'
    by (intro conjunct1 [OF semaphore_mutual_exclusion [OF k0(2,3) that]])
      (simp_all add: k0(4) lock_memory_def Semaphore_new_def device_sems_def)
  with k0(1) show ?thesis by blast
qed

text \<open>The threads that will look at the value of \<open>s\<close> as soon as they run.\<close>

definition retrying :: "nat \<Rightarrow> ('h, 'a, 'z) TSys_scheme \<Rightarrow> nat set" where
  "retrying s k = {t. \<exists>x. threads k t = Some x \<and> t_status x \<noteq> BLOCKED \<and> trying s (frames_of x)}"

lemma tsum_retrying:
  assumes "kinv k"
  shows "tsum (tries s) (abs_k k) = int (card (retrying s k))"
proof -
  have "contrib (tries s) (tsig (threads k t)) = of_bool (t \<in> retrying s k)" for t
    by (cases "threads k t") (simp_all add: retrying_def tries_def)
  then have "tsum (tries s) (abs_k k) = (\<Sum>t<next_thread k. of_bool (t \<in> retrying s k))" by (simp add: tsum_def)
  also have "\<dots> = int (card ({..<next_thread k} \<inter> {t. t \<in> retrying s k}))" by (simp add: sum_of_bool_eq)
  finally have "tsum (tries s) (abs_k k) = int (card ({..<next_thread k} \<inter> {t. t \<in> retrying s k}))" .
  moreover have "retrying s k \<subseteq> {..<next_thread k}"
    using abs_afin [OF assms] by (auto simp: afin_def retrying_def)
  ultimately show ?thesis by (simp add: Int_absorb1 Int_commute)
qed

text \<open>C4. No wake-up is lost: when a thread waits in the queue of a semaphore, every unit of the semaphore's value is matched by
  a thread that \<open>V\<close> has already made ready and that will look at the value when it runs. So when all the threads sleep and
  the processor is idle, a semaphore with a waiting thread has the value 0.\<close>

theorem no_lost_wakeups:
  assumes "kinv k" "\<not> halted k" "\<forall>s. sem_queue (sems k s) = [] \<and> 0 \<le> sem_value (sems k s)"
    "kreach kern_call (kern_exec test_exec) k k'" "\<not> halted k'" "sem_queue (sems k' s) \<noteq> []"
  shows "0 \<le> sem_value (sems k' s) \<and> sem_value (sems k' s) \<le> int (card (retrying s k')) \<and>
    ((\<forall>t x. threads k' t = Some x \<longrightarrow> t_status x = BLOCKED) \<longrightarrow> sem_value (sems k' s) = 0)"
proof -
  have "wakeups_ok (abs_k k)" using assms(3) abs_afin [OF assms(1)] by (simp add: wakeups_ok_def)
  from asteps_wakeups [OF test.sync.kreach_refines [OF assms(4,1,2)] this] assms(6)
  have w: "0 \<le> sem_value (sems k' s)" "sem_value (sems k' s) \<le> tsum (tries s) (abs_k k')" by (auto simp: wakeups_ok_def)
  have "kinv k'" using test.kern.kreach_kinv [OF assms(4,1,2)] assms(5) by simp
  with w have "sem_value (sems k' s) \<le> int (card (retrying s k'))" by (simp add: tsum_retrying)
  moreover have "retrying s k' = {}" if "\<forall>t x. threads k' t = Some x \<longrightarrow> t_status x = BLOCKED"
    using that by (auto simp: retrying_def)
  ultimately show ?thesis using w(1) by fastforce
qed

theorem no_lost_wakeups_witness:
  "\<exists>k0 k'. Initialize False [FP 9] blank_test = Inr k0 \<and> krun kern_call (kern_exec test_exec) 2 k0 = Inr k' \<and>
     sem_queue (sems k' 9) = [0] \<and> sem_value (sems k' 9) = 0"
proof -
  obtain k0 where k0: "Initialize False [FP 9] blank_test = Inr k0" "kinv k0" "\<not> halted k0"
    using Initialize_kinv [of blank_test "[FP 9]" False] by (auto simp: blank_test_def Semaphore_new_def)
  note ev = Initialize_def blank_test_def Interrupt_init_def main_thread_def Enable_def run_defs Semaphore_P_def P_loop_def
    set_sem_def Semaphore_new_def eval_nat_numeral SystemTick_def Statistics_new_def
  from k0(1) have s: "\<forall>s. sem_queue (sems k0 s) = [] \<and> 0 \<le> sem_value (sems k0 s)" by (auto simp: ev)
  have "res_bind (Initialize False [FP 9] blank_test) (\<lambda>k. res_bind (krun kern_call (kern_exec test_exec) 2 k)
      (\<lambda>k. Inr (sem_queue (sems k 9), halted k, map_option t_status (threads k 0), dom (threads k)))) = Inr ([0], False, Some BLOCKED, {0})"
    by (simp add: ev)
  with k0(1) obtain k' where k': "krun kern_call (kern_exec test_exec) 2 k0 = Inr k'" "sem_queue (sems k' 9) = [0]" "\<not> halted k'"
    "map_option t_status (threads k' 0) = Some BLOCKED" "dom (threads k') = {0}" by (auto simp: res_bind_Inr_iff)
  have "t_status x = BLOCKED" if "threads k' t = Some x" for t x
    using k'(4,5) that by (metis domI map_option_eq_Some option.sel singletonD)
  with no_lost_wakeups [OF k0(2,3) s krun_kreach [OF k'(1) kreach_refl] k'(3), of 9] k' k0(1) show ?thesis by auto
qed

text \<open>C13. The lock of \<open>SynchDisk\<close> does not exclude: \<open>Lock::Acquire\<close> is the dummy of \<open>synch.cc\<close>. When two threads ask for a sector,
  the second request reaches the disk while the first one is active, and the disk's assertion aborts Nachos.\<close>

theorem concurrent_disk_requests_abort:
  assumes "0 \<le> s" "s < NumSectors" "0 \<le> s'" "s' < NumSectors"
  shows "test_run 20 [FFork [FAct (AReadSector s' 1)], FAct (AReadSector s 0)] = Inl AssertFail"
proof -
  have l: "0 < ComputeLatency t s False blank_disk \<and> 10 < ComputeLatency t s False blank_disk" if "0 \<le> t" for t
    using ComputeLatency_bounds [of t s blank_disk False] assms that by (simp add: blank_disk_def NumSectors_def
        SectorsPerTrack_def NumTracks_def RotationTime_def)
  have a: "\<not> active blank_disk" by (simp add: blank_disk_def)
  have u: "active (UpdateLast t s (blank_disk\<lparr>active := True\<rparr>))" for t by (simp add: UpdateLast_def case_prod_unfold Let_def)
  show ?thesis using assms a
    by (simp add: test_run_def Initialize_def blank_test_def Interrupt_init_def main_thread_def Enable_def run_defs Semaphore_P_def
        P_loop_def set_sem_def Semaphore_new_def eval_nat_numeral SystemTick_def Statistics_new_def kern_exec_def ReadSector_def
        ReadRequest_def Schedule_def l u ASSERT_def)
qed

theorem concurrent_disk_requests_abort_witness:
  "test_run 20 [FFork [FAct (AReadSector 5 1)], FAct (AReadSector 900 0)] = Inl AssertFail"
  by (rule concurrent_disk_requests_abort) (simp_all add: NumSectors_def SectorsPerTrack_def NumTracks_def)

text \<open>C14. The clock: with the kernel's handlers, a tick in user or system mode always ends. It advances the time by one user or ten system
  ticks, fires the interrupts that have come due in the order of their times and no others, leaves none due, and keeps the total
  time equal to the sum of idle, system and user time.\<close>

theorem one_tick_fires_due:
  fixes k :: "('b, 'z) Kernel_scheme"
  assumes "hinv k" "status k \<noteq> IdleMode"
  shows "\<exists>y k'. OneTick kern_call k = Inr (y, k') \<and> due (now k') (pending k') = [] \<and> pending_ok k' \<and>
    now k' = now k + (if status k = SystemMode then SystemTick else UserTick) \<and> (clock_ok k \<longrightarrow> clock_ok k') \<and>
    (\<exists>k1. res_fold (fire_next kern_call) (due (now k') (pending k)) (k\<lparr>stats := tick_stats k, level := IntOff\<rparr>) = Inr k1 \<and>
       threads k' = threads k1 \<and> sems k' = sems k1 \<and> readyList k' = readyList k1)"
proof -
  have p: "pending_ok k" using assms(1) by (simp add: hinv_def)
  from handlers.OneTick_kernel [OF assms] obtain y k' where o: "OneTick kern_call k = Inr (y, k')" by blast
  note ok = handlers.OneTick_ok [OF o p assms(2)]
  define k1 where "k1 = k\<lparr>stats := tick_stats k, level := IntOff\<rparr>"
  have now: "now k1 = now k'" using ok(4) by (simp add: k1_def tick_stats_def)
  have f: "fire_due kern_call (Suc (length (pending k))) k1 =
      res_bind (res_fold (fire_next kern_call) (due (now k1) (pending k)) k1) (\<lambda>k2. Inr (put_back k2))"
    using handlers.fire_due_eq [of k1 "Suc (length (pending k))"] p assms(2)
    by (simp add: k1_def pending_ok_def due_def less_Suc_eq_le)
  from o obtain k2 where k2: "fire_due kern_call (Suc (length (pending k))) k1 = Inr k2"
    "threads k' = threads k2 \<and> sems k' = sems k2 \<and> readyList k' = readyList k2"
    by (auto simp: OneTick_def ChangeLevel_def Let_def k1_def res_bind_Inr_iff split: if_splits)
  from f [symmetric, unfolded k2(1) res_bind_Inr_iff] obtain k3 where
    "res_fold (fire_next kern_call) (due (now k1) (pending k)) k1 = Inr k3" "k2 = put_back k3" by auto
  moreover have "threads (put_back k3) = threads k3 \<and> sems (put_back k3) = sems k3 \<and> readyList (put_back k3) = readyList k3" for k3 :: "('b, 'z) Kernel_scheme"
    by (auto simp: put_back_def split: list.split)
  ultimately show ?thesis using o ok k2(2) now unfolding k1_def [symmetric] by auto
qed

lemma boot_hinv:
  obtains k0 where "Initialize True [FYield] blank_test = Inr k0" "hinv k0" "status k0 \<noteq> IdleMode"
proof -
  obtain k0 where "Initialize True [FYield] blank_test = Inr k0" "kinv k0"
    using Initialize_kinv [of blank_test "[FYield]" True] by (auto simp: blank_test_def Semaphore_new_def)
  then show thesis using that by (simp add: kinv_def hinv_def)
qed

theorem one_tick_fires_due_witness:
  "\<exists>k0 y k'. Initialize True [FYield] blank_test = Inr k0 \<and> OneTick kern_call k0 = Inr (y, k') \<and>
     due (now k') (pending k') = []"
proof -
  obtain k0 where k0: "Initialize True [FYield] blank_test = Inr k0" "hinv k0" "status k0 \<noteq> IdleMode" by (rule boot_hinv)
  from one_tick_fires_due [OF k0(2,3)] k0(1) show ?thesis by blast
qed

text \<open>C15. Idling ends: with nothing to run and something pending besides the timer, \<open>Idle\<close> always returns. The clock has moved to
  the first pending interrupt or was there already, the difference counts as idle time, and the system is ready to look for a thread again.
  With nothing pending, or the timer only, it halts the machine.\<close>

theorem idle_resumes_or_halts:
  fixes k :: "('b, 'z) Kernel_scheme"
  assumes "hinv k" "level k = IntOff"
  shows "if pending k = [] \<or> (\<exists>w p. pending k = [(w, p)] \<and> itype p = TimerInt)
    then \<exists>k'. Idle kern_call k = Inr (False, k') \<and> pending k' = pending k
    else \<exists>k'. Idle kern_call k = Inr (True, k') \<and> now k' = max (now k) (fst (hd (pending k))) \<and> level k' = IntOff \<and>
      status k' = SystemMode \<and> (clock_ok k \<longrightarrow> clock_ok k')"
proof (cases "pending k = [] \<or> (\<exists>w p. pending k = [(w, p)] \<and> itype p = TimerInt)")
  case True
  from handlers.Idle_halts [OF assms(2) this] True show ?thesis by simp
next
  case False
  then obtain w p rest where q: "pending k = (w, p) # rest" "itype p \<noteq> TimerInt \<or> rest \<noteq> []"
    by (cases "pending k") force+
  from handlers.Idle_kernel [OF assms] obtain b k' where i: "Idle kern_call k = Inr (b, k')" by blast
  have "pending_ok k" using assms(1) by (simp add: hinv_def)
  from handlers.Idle_resumes [OF assms(2) this q i] i q(1) False show ?thesis by (auto simp: max_def)
qed

theorem idle_resumes_or_halts_witness:
  "\<exists>k0 k'. Initialize True [FYield] blank_test = Inr k0 \<and> Idle kern_call (k0\<lparr>level := IntOff, pending := []\<rparr>) = Inr (False, k')"
proof -
  obtain k0 where k0: "Initialize True [FYield] blank_test = Inr k0" "hinv k0" by (rule boot_hinv)
  let ?k = "k0\<lparr>level := IntOff, pending := []\<rparr>"
  have "hinv ?k"
    using k0(2) tinv_cong [of ?k k0] by (simp add: hinv_def tview_def cpu_inv_def pending_ok_def)
  from idle_resumes_or_halts [OF this] k0(1) show ?thesis by auto
qed

end
