(* ===== verification/HostFile.thy ===== *)
theory HostFile
  imports Prelude
begin

text \<open>
  The file system of the user-program build (\<open>FILESYS_STUB\<close>): the classes \<open>OpenFile\<close> and \<open>FileSystem\<close> of \<open>filesys/openfile.h\<close>
  and \<open>filesys/filesys.h\<close>, which pass the work to UNIX through the wrappers of \<open>machine/sysdep.cc\<close>. UNIX is modelled by what the
  code uses of it: a file is the sequence of its bytes under a path, a descriptor is a path with an offset, \<open>lseek\<close> refuses
  negative offsets only, \<open>read\<close> gives the bytes that are there, \<open>write\<close> writes all of them and fills a gap with zeros, \<open>open\<close> finds
  the files that exist, and creating succeeds for the paths in \<open>creatable\<close>. A descriptor belongs to one \<open>OpenFile\<close>, so its offset
  is a field of it.
\<close>

type_synonym cstr = "8 word list"

section \<open>The wrappers of UNIX\<close>

record OpenFile =
  of_name :: cstr
  fd_pos :: nat
  currentOffset :: int
  of_type :: int

definition Lseek :: "int \<Rightarrow> 8 word list \<Rightarrow> int \<Rightarrow> OpenFile \<Rightarrow> OpenFile res" where
  "Lseek offset contents whence f =
     (let p = (if whence = 2 then int (length contents) + offset else offset) in
      ASSERT (p \<ge> 0) (Inr (f\<lparr>fd_pos := nat p\<rparr>)))"

definition Tell :: "OpenFile \<Rightarrow> int" where
  "Tell f = int (fd_pos f)"

definition ReadPartial :: "8 word list \<Rightarrow> int \<Rightarrow> OpenFile \<Rightarrow> int \<times> 8 word list \<times> OpenFile" where
  "ReadPartial contents nBytes f =
     (if nBytes < 0 then (-1, [], f)
      else let bs = take (nat nBytes) (drop (fd_pos f) contents)
           in (int (length bs), bs, f\<lparr>fd_pos := fd_pos f + length bs\<rparr>))"

definition overwrite :: "nat \<Rightarrow> 8 word list \<Rightarrow> 8 word list \<Rightarrow> 8 word list" where
  "overwrite pos bs contents =
     (if bs = [] then contents
      else take pos contents @ replicate (pos - length contents) 0 @ bs @ drop (pos + length bs) contents)"

text \<open>\<open>write\<close> of a negative number of bytes returns -1.\<close>

definition WriteFile :: "8 word list \<Rightarrow> 8 word list \<Rightarrow> int \<Rightarrow> OpenFile \<Rightarrow> (8 word list \<times> OpenFile) res" where
  "WriteFile contents buffer nBytes f =
     (let bs = take (nat nBytes) buffer in
      ASSERT (nBytes \<ge> -1) (Inr (overwrite (fd_pos f) bs contents, f\<lparr>fd_pos := fd_pos f + length bs\<rparr>)))"

section \<open>\<open>OpenFile\<close>\<close>

definition OpenFile_new :: "cstr \<Rightarrow> int \<Rightarrow> OpenFile" where
  "OpenFile_new name t = \<lparr>of_name = name, fd_pos = 0, currentOffset = 0, of_type = t\<rparr>"

definition OpenFile_readAt :: "8 word list \<Rightarrow> int \<Rightarrow> int \<Rightarrow> OpenFile \<Rightarrow> (int \<times> 8 word list \<times> OpenFile) res" where
  "OpenFile_readAt contents numBytes position f =
     res_bind (Lseek position contents 0 f) (\<lambda>f1. Inr (ReadPartial contents numBytes f1))"

definition OpenFile_Seek :: "8 word list \<Rightarrow> int \<Rightarrow> OpenFile \<Rightarrow> (int \<times> OpenFile) res" where
  "OpenFile_Seek contents pos f =
     res_bind (Lseek pos contents 0 f) (\<lambda>f1. let f2 = f1\<lparr>currentOffset := Tell f1\<rparr> in Inr (currentOffset f2, f2))"

definition OpenFile_Length :: "8 word list \<Rightarrow> OpenFile \<Rightarrow> (int \<times> OpenFile) res" where
  "OpenFile_Length contents f =
     res_bind (Lseek 0 contents 2 f) (\<lambda>f1. let len = Tell f1 in
       res_bind (Lseek (currentOffset f1) contents 0 f1) (\<lambda>f2. Inr (len, f2)))"

definition OpenFile_writeAt :: "8 word list \<Rightarrow> 8 word list \<Rightarrow> int \<Rightarrow> int \<Rightarrow> OpenFile \<Rightarrow> (int \<times> 8 word list \<times> OpenFile) res" where
  "OpenFile_writeAt contents buffer numBytes position f =
     res_bind (Lseek position contents 0 f) (\<lambda>f1.
     res_bind (WriteFile contents buffer numBytes f1) (\<lambda>(c, f2). Inr (numBytes, c, f2)))"

definition OpenFile_Read :: "8 word list \<Rightarrow> int \<Rightarrow> OpenFile \<Rightarrow> (int \<times> 8 word list \<times> OpenFile) res" where
  "OpenFile_Read contents numBytes f =
     res_bind (OpenFile_readAt contents numBytes (currentOffset f) f) (\<lambda>(numRead, bs, f1).
       Inr (numRead, bs, f1\<lparr>currentOffset := currentOffset f1 + numRead\<rparr>))"

definition OpenFile_Write :: "8 word list \<Rightarrow> 8 word list \<Rightarrow> int \<Rightarrow> OpenFile \<Rightarrow> (int \<times> 8 word list \<times> OpenFile) res" where
  "OpenFile_Write contents buffer numBytes f =
     res_bind (OpenFile_writeAt contents buffer numBytes (currentOffset f) f) (\<lambda>(numWritten, c, f1).
       Inr (numWritten, c, f1\<lparr>currentOffset := currentOffset f1 + numWritten\<rparr>))"

definition GetCurrentPos :: "OpenFile \<Rightarrow> int \<times> OpenFile" where
  "GetCurrentPos f = (Tell f, f\<lparr>currentOffset := Tell f\<rparr>)"

section \<open>\<open>FileSystem\<close>\<close>

record FileSystem =
  openfile :: "OpenFile option list"
  ufiles :: "cstr \<rightharpoonup> 8 word list"
  creatable :: "cstr \<Rightarrow> bool"

definition OpenForWrite :: "cstr \<Rightarrow> FileSystem \<Rightarrow> FileSystem res" where
  "OpenForWrite name fs = ASSERT (creatable fs name) (Inr (fs\<lparr>ufiles := (ufiles fs)(name \<mapsto> [])\<rparr>))"

definition OpenForReadWrite :: "cstr \<Rightarrow> FileSystem \<Rightarrow> bool" where
  "OpenForReadWrite name fs = (ufiles fs name \<noteq> None)"

definition FileSystem_Create :: "cstr \<Rightarrow> FileSystem \<Rightarrow> (bool \<times> FileSystem) res" where
  "FileSystem_Create name fs = res_bind (OpenForWrite name fs) (\<lambda>fs1. Inr (True, fs1))"

definition FileSystem_Open :: "cstr \<Rightarrow> int \<Rightarrow> FileSystem \<Rightarrow> OpenFile option" where
  "FileSystem_Open name t fs = (if OpenForReadWrite name fs then Some (OpenFile_new name t) else None)"

definition FindFreeSlot :: "FileSystem \<Rightarrow> int" where
  "FindFreeSlot fs = (case filter (\<lambda>i. openfile fs ! i = None) [2..<15] of [] \<Rightarrow> -1 | i # _ \<Rightarrow> int i)"

definition stdin_name :: cstr where "stdin_name = [0x73, 0x74, 0x64, 0x69, 0x6e]"
definition stdout_name :: cstr where "stdout_name = [0x73, 0x74, 0x64, 0x6f, 0x75, 0x74]"

text \<open>The constructor, with UNIX as \<open>fs\<close> has it.\<close>

definition FileSystem_new :: "FileSystem \<Rightarrow> FileSystem res" where
  "FileSystem_new fs =
     res_bind (FileSystem_Create stdin_name (fs\<lparr>openfile := replicate 15 None\<rparr>)) (\<lambda>(_, fs1).
     res_bind (FileSystem_Create stdout_name fs1) (\<lambda>(_, fs2).
       let fs3 = fs2\<lparr>openfile := (openfile fs2)[0 := FileSystem_Open stdin_name 2 fs2]\<rparr>
       in Inr (fs3\<lparr>openfile := (openfile fs3)[1 := FileSystem_Open stdout_name 3 fs3]\<rparr>)))"

definition FileSystem_Remove :: "cstr \<Rightarrow> FileSystem \<Rightarrow> bool \<times> FileSystem" where
  "FileSystem_Remove name fs =
     (if ufiles fs name \<noteq> None then (True, fs\<lparr>ufiles := (ufiles fs)(name := None)\<rparr>) else (False, fs))"

section \<open>What the operations do\<close>

text \<open>The object's offset is the descriptor's.\<close>

definition of_ok :: "OpenFile \<Rightarrow> bool" where
  "of_ok f = (currentOffset f = int (fd_pos f))"

lemma OpenFile_new_ok: "of_ok (OpenFile_new name t)"
  by (simp add: of_ok_def OpenFile_new_def)

lemma length_overwrite: "bs \<noteq> [] \<Longrightarrow> length (overwrite pos bs c) = max (length c) (pos + length bs)"
  by (auto simp: overwrite_def)

lemma drop_overwrite: "take (length bs) (drop pos (overwrite pos bs c)) = bs"
proof (cases "bs = []")
  case False
  have l: "length (take pos c @ replicate (pos - length c) 0) = pos" by simp
  have "overwrite pos bs c = (take pos c @ replicate (pos - length c) 0) @ bs @ drop (pos + length bs) c"
    using False by (simp add: overwrite_def)
  then show ?thesis using l by (metis append_eq_conv_conj)
qed (simp add: overwrite_def)

lemma OpenFile_Read_eq:
  assumes "of_ok f" "0 \<le> n"
  shows "OpenFile_Read c n f = (let bs = take (nat n) (drop (fd_pos f) c) in
     Inr (int (length bs), bs, f\<lparr>fd_pos := fd_pos f + length bs, currentOffset := currentOffset f + int (length bs)\<rparr>))"
  using assms by (simp add: OpenFile_Read_def OpenFile_readAt_def Lseek_def ReadPartial_def of_ok_def Let_def)

lemma OpenFile_Write_eq:
  assumes "of_ok f"
  shows "OpenFile_Write c bs (int (length bs)) f = Inr (int (length bs), overwrite (fd_pos f) bs c,
     f\<lparr>fd_pos := fd_pos f + length bs, currentOffset := currentOffset f + int (length bs)\<rparr>)"
  using assms by (simp add: OpenFile_Write_def OpenFile_writeAt_def Lseek_def WriteFile_def of_ok_def Let_def)

lemma OpenFile_Length_eq:
  assumes "of_ok f"
  shows "OpenFile_Length c f = Inr (int (length c), f)"
  using assms by (simp add: OpenFile_Length_def Lseek_def Tell_def of_ok_def Let_def)

lemma OpenFile_Seek_eq:
  "0 \<le> pos \<Longrightarrow> OpenFile_Seek c pos f = Inr (pos, f\<lparr>fd_pos := nat pos, currentOffset := pos\<rparr>)"
  by (simp add: OpenFile_Seek_def Lseek_def Tell_def Let_def)

lemma GetCurrentPos_eq: "of_ok f \<Longrightarrow> GetCurrentPos f = (currentOffset f, f)"
  by (simp add: GetCurrentPos_def Tell_def of_ok_def)

text \<open>The table of open files: 15 slots.\<close>

definition fs_ok :: "FileSystem \<Rightarrow> bool" where
  "fs_ok fs = (length (openfile fs) = 15 \<and>
     (\<forall>f. Some f \<in> set (openfile fs) \<longrightarrow> of_ok f \<and> ufiles fs (of_name f) \<noteq> None))"

lemma FindFreeSlot_ok:
  "if \<exists>i \<in> {2..<15}. openfile fs ! i = None
   then \<exists>i \<in> {2..<15}. FindFreeSlot fs = int i \<and> openfile fs ! i = None \<and> (\<forall>j \<in> {2..<i}. openfile fs ! j \<noteq> None)
   else FindFreeSlot fs = -1"
proof (cases "filter (\<lambda>i. openfile fs ! i = None) [2..<15]")
  case Nil
  then have "\<forall>i \<in> set [2..<15]. openfile fs ! i \<noteq> None" by (simp only: filter_empty_conv)
  then have "\<not> (\<exists>i \<in> {2..<15}. openfile fs ! i = None)" by (simp only: set_upt) blast
  with Nil show ?thesis by (simp add: FindFreeSlot_def)
next
  case (Cons i js)
  from this [unfolded filter_eq_Cons_iff] obtain us vs where
    u: "[2..<15] = us @ i # vs" "\<forall>j \<in> set us. openfile fs ! j \<noteq> None" "openfile fs ! i = None" by blast
  have i: "i \<in> {2..<15}" by (metis (no_types) u(1) atLeastLessThan_upt in_set_conv_decomp)
  have "j \<in> set us" if "j \<in> {2..<i}" for j
  proof -
    have "j \<in> set [2..<15]" unfolding set_upt using that i by simp
    then have "j \<in> set us \<or> j = i \<or> j \<in> set vs" unfolding u(1) by auto
    moreover have "sorted (us @ i # vs)" by (metis u(1) sorted_upt)
    ultimately show ?thesis using that by (auto simp: sorted_append)
  qed
  with u i Cons show ?thesis by (auto simp: FindFreeSlot_def)
qed

lemma fs_ok_set:
  assumes "fs_ok fs" "of_ok f" "ufiles fs (of_name f) \<noteq> None" "i < 15"
  shows "fs_ok (fs\<lparr>openfile := (openfile fs)[i := Some f]\<rparr>)"
  using assms by (auto simp: fs_ok_def dest!: set_update_subset_insert [THEN subsetD])

lemma FileSystem_new_ok:
  assumes "creatable fs stdin_name" "creatable fs stdout_name"
  shows "\<exists>fs'. FileSystem_new fs = Inr fs' \<and> fs_ok fs' \<and> openfile fs' ! 0 = Some (OpenFile_new stdin_name 2) \<and>
     openfile fs' ! 1 = Some (OpenFile_new stdout_name 3) \<and> (\<forall>i \<in> {2..<15}. openfile fs' ! i = None)"
proof -
  let ?fs = "fs\<lparr>openfile := [Some (OpenFile_new stdin_name 2), Some (OpenFile_new stdout_name 3)] @ replicate 13 None,
      ufiles := (ufiles fs)(stdin_name \<mapsto> [], stdout_name \<mapsto> [])\<rparr>"
  have "FileSystem_new fs = Inr ?fs"
    using assms by (simp add: FileSystem_new_def FileSystem_Create_def OpenForWrite_def FileSystem_Open_def OpenForReadWrite_def
        Let_def eval_nat_numeral)
  moreover have "fs_ok ?fs" by (auto simp: fs_ok_def OpenFile_new_ok OpenFile_new_def of_ok_def)
  ultimately show ?thesis by (intro exI [of _ ?fs]) (auto simp: nth_append less_Suc_eq_le)
qed



end
