(* ===== verification/Process.thy ===== *)
theory Process
  imports Bitmap HostFile
begin

text \<open>
  The tables of the multiprogramming kernel: process control blocks and the process table (\<open>userprog/pcb.cc\<close>,
  \<open>userprog/ptable.cc\<close>) and the table of the user programs' semaphores (\<open>userprog/stable.cc\<close>). Semaphores and threads are named by
  numbers here, and control blocks live in a heap, so a block that was deleted leaves a dangling pointer behind. The operations that
  wait on a semaphore are in theory \<open>Syscalls\<close>; this theory has what they do to the tables.
\<close>

section \<open>Process control blocks\<close>

record PCB =
  joinsem :: nat
  exitsem :: nat
  multex :: nat
  exitcode :: int
  numwait :: int
  pcb_thread :: "nat option"
  FileName :: cstr
  parentID :: int
  isBGprocess :: bool

definition PCB_new :: "int \<Rightarrow> nat \<Rightarrow> nat \<Rightarrow> nat \<Rightarrow> PCB" where
  "PCB_new pid join_s exit_s mutex_s = \<lparr>joinsem = join_s, exitsem = exit_s, multex = mutex_s, exitcode = 0, numwait = 0,
     pcb_thread = None, FileName = [], parentID = (if pid \<noteq> 0 then pid else -1), isBGprocess = False\<rparr>"

text \<open>\<open>strcpy\<close> into an array of \<open>n\<close> bytes: the name and its terminating zero must fit.\<close>

definition strcpy :: "nat \<Rightarrow> cstr \<Rightarrow> cstr res" where
  "strcpy n s = (if length s < n then Inr s else Inl OutOfBounds)"

definition SetFileName :: "cstr \<Rightarrow> PCB \<Rightarrow> PCB res" where
  "SetFileName fn p = res_bind (strcpy 32 fn) (\<lambda>s. Inr (p\<lparr>FileName := s\<rparr>))"

definition SetExitCode :: "int \<Rightarrow> PCB \<Rightarrow> PCB" where
  "SetExitCode ec p = p\<lparr>exitcode := ec\<rparr>"

text \<open>\<open>IncNumWait\<close> and \<open>DecNumWait\<close> inside their critical section.\<close>

definition inc_numwait :: "PCB \<Rightarrow> PCB" where
  "inc_numwait p = p\<lparr>numwait := numwait p + 1\<rparr>"

definition dec_numwait :: "PCB \<Rightarrow> PCB" where
  "dec_numwait p = (if numwait p > 0 then p\<lparr>numwait := numwait p - 1\<rparr> else p)"

section \<open>The process table\<close>

definition MAX_PROCESS :: nat where "MAX_PROCESS = 10"

record PTable =
  pt_bm :: BitMap
  pcbs :: "nat option list"
  psize :: int
  bmsem :: nat
  pcb_heap :: "nat \<rightharpoonup> PCB"
  pcb_next :: nat

definition new_pcb :: "PCB \<Rightarrow> PTable \<Rightarrow> nat \<times> PTable" where
  "new_pcb p t = (pcb_next t, t\<lparr>pcb_heap := (pcb_heap t)(pcb_next t \<mapsto> p), pcb_next := pcb_next t + 1\<rparr>)"

text \<open>\<open>pcb[id]->\<close>.\<close>

definition pcb_at :: "int \<Rightarrow> PTable \<Rightarrow> (nat \<times> PCB) res" where
  "pcb_at i t =
     (if i < 0 \<or> i \<ge> int (length (pcbs t)) then Inl OutOfBounds
      else case pcbs t ! nat i of None \<Rightarrow> Inl NullDeref
        | Some a \<Rightarrow> (case pcb_heap t a of None \<Rightarrow> Inl DanglingPtr | Some p \<Rightarrow> Inr (a, p)))"

definition set_pcb :: "nat \<Rightarrow> PCB \<Rightarrow> PTable \<Rightarrow> PTable" where
  "set_pcb a p t = t\<lparr>pcb_heap := (pcb_heap t)(a \<mapsto> p)\<rparr>"

definition scheduler_name :: cstr where
  "scheduler_name = [0x2e, 0x2f, 0x74, 0x65, 0x73, 0x74, 0x2f, 0x73, 0x63, 0x68, 0x65, 0x64, 0x75, 0x6c, 0x65, 0x72]"

text \<open>The constructor; \<open>bs\<close>, \<open>js\<close>, \<open>es\<close> and \<open>ms\<close> are the semaphores it creates, and \<open>t\<close> is the object before. It is the first to create a control block.\<close>

definition PTable_new :: "int \<Rightarrow> (nat \<Rightarrow> 32 word) \<Rightarrow> nat \<Rightarrow> nat \<Rightarrow> nat \<Rightarrow> nat \<Rightarrow> PTable \<Rightarrow> PTable res" where
  "PTable_new size' garbage bs js es ms t =
     (if size' < 0 then Inr t
      else res_bind (BitMap_new size' garbage) (\<lambda>b.
        res_bind (BitMap_Mark 0 b) (\<lambda>b1.
        res_bind (SetFileName scheduler_name (PCB_new 0 js es ms)) (\<lambda>p.
          let (a, t1) = new_pcb (p\<lparr>parentID := -1\<rparr>)
             \<lparr>pt_bm = b1, pcbs = replicate MAX_PROCESS None, psize = size', bmsem = bs, pcb_heap = Map.empty, pcb_next = 0\<rparr>
          in Inr (t1\<lparr>pcbs := (pcbs t1)[0 := Some a]\<rparr>)))))"

definition GetFreeSlot :: "PTable \<Rightarrow> (int \<times> PTable) res" where
  "GetFreeSlot t = res_bind (BitMap_Find (pt_bm t)) (\<lambda>(i, b). Inr (i, t\<lparr>pt_bm := b\<rparr>))"

definition IsExist :: "int \<Rightarrow> PTable \<Rightarrow> bool res" where
  "IsExist pid t = BitMap_Test pid (pt_bm t)"

definition GetFileName :: "int \<Rightarrow> PTable \<Rightarrow> cstr res" where
  "GetFileName pid t = res_bind (pcb_at pid t) (\<lambda>(_, p). Inr (FileName p))"

section \<open>The semaphore table\<close>

definition MAX_SEMAPHORE :: nat where "MAX_SEMAPHORE = 10"

record Sem =
  sem_name :: cstr
  sem_id :: nat

record STable =
  st_bm :: BitMap
  semTab :: "Sem option list"

definition Sem_new :: "cstr \<Rightarrow> nat \<Rightarrow> Sem res" where
  "Sem_new na s = res_bind (strcpy 50 na) (\<lambda>n. Inr \<lparr>sem_name = n, sem_id = s\<rparr>)"

definition STable_new :: "(nat \<Rightarrow> 32 word) \<Rightarrow> STable res" where
  "STable_new garbage = res_bind (BitMap_new (int MAX_SEMAPHORE) garbage) (\<lambda>b.
     Inr \<lparr>st_bm = b, semTab = replicate MAX_SEMAPHORE None\<rparr>)"

text \<open>The loop that \<open>Create\<close>, \<open>Wait\<close> and \<open>Signal\<close> share: the first used entry with the name.\<close>

fun st_scan :: "cstr \<Rightarrow> STable \<Rightarrow> nat list \<Rightarrow> Sem option res" where
  "st_scan name st [] = Inr None"
| "st_scan name st (i # is') = res_bind (BitMap_Test (int i) (st_bm st)) (\<lambda>used.
     if used then (case semTab st ! i of None \<Rightarrow> Inl NullDeref
                   | Some s \<Rightarrow> if sem_name s = name then Inr (Some s) else st_scan name st is')
     else st_scan name st is')"

definition STable_FindFreeSlot :: "STable \<Rightarrow> (int \<times> STable) res" where
  "STable_FindFreeSlot st = res_bind (BitMap_Find (st_bm st)) (\<lambda>(i, b). Inr (i, st\<lparr>st_bm := b\<rparr>))"

text \<open>\<open>new_sem\<close> is the semaphore that \<open>new Semaphore(name, init)\<close> gives.\<close>

definition STable_Create :: "cstr \<Rightarrow> nat \<Rightarrow> STable \<Rightarrow> (int \<times> STable) res" where
  "STable_Create name new_sem st =
     res_bind (st_scan name st [0..<MAX_SEMAPHORE]) (\<lambda>r.
       case r of Some _ \<Rightarrow> Inr (-1, st)
       | None \<Rightarrow> res_bind (STable_FindFreeSlot st) (\<lambda>(i, st1).
           if i < 0 then Inr (-1, st1)
           else res_bind (Sem_new name new_sem) (\<lambda>s. Inr (0, st1\<lparr>semTab := (semTab st1)[nat i := Some s]\<rparr>))))"

text \<open>\<open>Wait\<close> and \<open>Signal\<close>: the semaphore to wait on or to signal, if there is one.\<close>

definition STable_find :: "cstr \<Rightarrow> STable \<Rightarrow> nat option res" where
  "STable_find name st = res_bind (st_scan name st [0..<MAX_SEMAPHORE]) (\<lambda>r. Inr (map_option sem_id r))"

section \<open>What the semaphore table promises\<close>

text \<open>The contract that the system calls rely on: a finite map from names to semaphores with at most \<open>cap\<close> entries.\<close>

locale sem_names =
  fixes inv :: "'s \<Rightarrow> bool"
    and contents :: "'s \<Rightarrow> cstr \<rightharpoonup> nat"
    and cap :: nat
    and create :: "cstr \<Rightarrow> nat \<Rightarrow> 's \<Rightarrow> (int \<times> 's) res"
    and find :: "cstr \<Rightarrow> 's \<Rightarrow> nat option res"
  assumes find_ok: "inv s \<Longrightarrow> find n s = Inr (contents s n)"
    and create_new: "inv s \<Longrightarrow> length n < 50 \<Longrightarrow> contents s n = None \<Longrightarrow> card (dom (contents s)) < cap \<Longrightarrow>
      \<exists>s'. create n q s = Inr (0, s') \<and> inv s' \<and> contents s' = (contents s)(n \<mapsto> q)"
    and create_fails: "inv s \<Longrightarrow> contents s n \<noteq> None \<or> card (dom (contents s)) \<ge> cap \<Longrightarrow>
      \<exists>s'. create n q s = Inr (-1, s') \<and> inv s' \<and> contents s' = contents s"
    and contents_finite: "inv s \<Longrightarrow> finite (dom (contents s))"
begin

text \<open>Creating several semaphores with different names: all of them are there, and the others still are.\<close>

lemma create_many:
  "inv s \<Longrightarrow> distinct (map fst ns) \<Longrightarrow> set (map fst ns) \<inter> dom (contents s) = {} \<Longrightarrow> \<forall>n \<in> set (map fst ns). length n < 50 \<Longrightarrow>
   card (dom (contents s)) + length ns \<le> cap \<Longrightarrow>
   \<exists>s'. res_fold (\<lambda>(n, q) s. res_bind (create n q s) (\<lambda>(r, s'). Inr s')) ns s = Inr s' \<and> inv s' \<and>
     contents s' = (contents s)(map fst ns [\<mapsto>] map snd ns)"
proof (induction ns arbitrary: s)
  case (Cons x ns)
  obtain n q where x: "x = (n, q)" by (cases x)
  with Cons.prems have new: "length n < 50" "contents s n = None" "card (dom (contents s)) < cap" by (auto simp: domIff)
  from create_new [OF Cons.prems(1) new] obtain s1 where
    s1: "create n q s = Inr (0, s1)" "inv s1" "contents s1 = (contents s)(n \<mapsto> q)" by blast
  have "card (dom (contents s1)) = Suc (card (dom (contents s)))"
    using s1(3) new(2) contents_finite [OF Cons.prems(1)] by (simp add: domIff)
  moreover have "set (map fst ns) \<inter> dom (contents s1) = {}" using Cons.prems(2,3) x s1(3) by auto
  ultimately have "\<exists>s'. res_fold (\<lambda>(n, q) s. res_bind (create n q s) (\<lambda>(r, s'). Inr s')) ns s1 = Inr s' \<and> inv s' \<and>
     contents s' = (contents s1)(map fst ns [\<mapsto>] map snd ns)"
    using Cons.prems x by (intro Cons.IH [OF s1(2)]) simp_all
  with x s1 show ?case by auto
qed simp

end

section \<open>The table keeps it\<close>

definition st_used :: "STable \<Rightarrow> nat list" where
  "st_used st = filter (bm_bit (st_bm st)) [0..<10]"

definition st_entries :: "STable \<Rightarrow> (cstr \<times> nat) list" where
  "st_entries st = map (\<lambda>i. (sem_name (the (semTab st ! i)), sem_id (the (semTab st ! i)))) (st_used st)"

definition st_ok :: "STable \<Rightarrow> bool" where
  "st_ok st = (bm_ok (st_bm st) \<and> bm_cap (st_bm st) = 10 \<and> length (semTab st) = 10 \<and>
     (\<forall>i \<in> set (st_used st). semTab st ! i \<noteq> None) \<and> distinct (map fst (st_entries st)))"

definition st_contents :: "STable \<Rightarrow> cstr \<rightharpoonup> nat" where
  "st_contents st = map_of (st_entries st)"

lemma st_used_set: "st_ok st \<Longrightarrow> set (st_used st) = bm_used (st_bm st)"
  by (auto simp: st_ok_def st_used_def bm_used_def)

lemma st_card: "st_ok st \<Longrightarrow> card (dom (st_contents st)) = card (bm_used (st_bm st))"
proof -
  assume ok: "st_ok st"
  have "card (dom (st_contents st)) = length (st_entries st)"
    using ok distinct_card [of "map fst (st_entries st)"] by (simp add: st_contents_def st_ok_def dom_map_of_conv_image_fst)
  also have "\<dots> = card (set (st_used st))" using distinct_card [of "st_used st"] by (simp add: st_entries_def) (simp add: st_used_def)
  finally show ?thesis by (simp add: st_used_set [OF ok])
qed

lemma st_scan_ok:
  assumes "bm_ok (st_bm st)" "bm_cap (st_bm st) = 10" "\<forall>i \<in> set js. i < 10 \<and> (bm_bit (st_bm st) i \<longrightarrow> semTab st ! i \<noteq> None)"
  shows "\<exists>r. st_scan n st js = Inr r \<and> map_option sem_id r =
    map_of (map (\<lambda>i. (sem_name (the (semTab st ! i)), sem_id (the (semTab st ! i)))) (filter (bm_bit (st_bm st)) js)) n"
  using assms(3)
proof (induction js)
  case (Cons i js)
  have t: "BitMap_Test (int i) (st_bm st) = Inr (bm_bit (st_bm st) i)"
    using BitMap_Test_eq [of "st_bm st" i] Cons.prems assms(1,2) by simp
  from Cons obtain r where "st_scan n st js = Inr r" "map_option sem_id r =
    map_of (map (\<lambda>i. (sem_name (the (semTab st ! i)), sem_id (the (semTab st ! i)))) (filter (bm_bit (st_bm st)) js)) n" by auto
  with Cons.prems t show ?case by (cases "semTab st ! i") auto
qed simp

lemma st_find_ok: "st_ok st \<Longrightarrow> STable_find n st = Inr (st_contents st n)"
  using st_scan_ok [of st "[0..<10]" n]
  by (auto simp: st_ok_def STable_find_def MAX_SEMAPHORE_def st_contents_def st_entries_def st_used_def simp del: upt_rec_numeral)

lemma st_create_fails:
  assumes ok: "st_ok st" and "st_contents st n \<noteq> None \<or> card (dom (st_contents st)) \<ge> 10"
  shows "STable_Create n q st = Inr (-1, st)"
proof -
  from st_find_ok [OF ok, of n] obtain r where
    r: "st_scan n st [0..<MAX_SEMAPHORE] = Inr r" "map_option sem_id r = st_contents st n"
    by (auto simp: STable_find_def res_bind_Inr_iff)
  show ?thesis
  proof (cases "st_contents st n")
    case (Some v)
    with r show ?thesis by (auto simp: STable_Create_def)
  next
    case None
    with assms(2) have "card (bm_used (st_bm st)) \<ge> 10" by (simp add: st_card [OF ok])
    moreover have b: "bm_used (st_bm st) \<subseteq> {..<10}" using ok by (auto simp: st_ok_def bm_used_def)
    ultimately have "bm_used (st_bm st) = {..<10}" by (intro card_subset_eq) (auto dest: card_mono [rotated])
    then have "BitMap_Find (st_bm st) = Inr (-1, st_bm st)"
      using bitmap_alloc.find_full ok by (simp add: st_ok_def)
    with None r show ?thesis by (simp add: STable_Create_def STable_FindFreeSlot_def)
  qed
qed

lemma st_contents_iff:
  assumes "st_ok st"
  shows "st_contents st m = Some v \<longleftrightarrow> (\<exists>i \<in> bm_used (st_bm st). \<exists>s. semTab st ! i = Some s \<and> sem_name s = m \<and> sem_id s = v)"
proof -
  have "st_contents st m = Some v \<longleftrightarrow> (m, v) \<in> set (st_entries st)"
    using assms by (simp add: st_contents_def st_ok_def map_of_eq_Some_iff)
  also have "\<dots> \<longleftrightarrow> (\<exists>i \<in> bm_used (st_bm st). m = sem_name (the (semTab st ! i)) \<and> v = sem_id (the (semTab st ! i)))"
    by (auto simp: st_entries_def st_used_set [OF assms])
  also have "\<dots> \<longleftrightarrow> (\<exists>i \<in> bm_used (st_bm st). \<exists>s. semTab st ! i = Some s \<and> sem_name s = m \<and> sem_id s = v)"
    using assms by (auto simp: st_ok_def st_used_set [OF assms]) (metis option.sel)+
  finally show ?thesis .
qed

lemma st_create_new:
  assumes ok: "st_ok st" and n: "length n < 50" "st_contents st n = None" and room: "card (dom (st_contents st)) < 10"
  shows "\<exists>st'. STable_Create n q st = Inr (0, st') \<and> st_ok st' \<and> st_contents st' = (st_contents st)(n \<mapsto> q)"
proof -
  let ?used = "bm_used (st_bm st)"
  from st_find_ok [OF ok, of n] n(2) have r: "st_scan n st [0..<MAX_SEMAPHORE] = Inr None"
    by (auto simp: STable_find_def res_bind_Inr_iff)
  have bm: "bm_ok (st_bm st)" "bm_cap (st_bm st) = 10" using ok by (simp_all add: st_ok_def)
  have "?used \<noteq> {..<10}" using room unfolding st_card [OF ok] by (metis card_lessThan less_irrefl)
  with bitmap_alloc.find_free [OF bm(1)] bm(2) obtain j b where
    j: "BitMap_Find (st_bm st) = Inr (int j, b)" "j < 10" "j \<notin> ?used" "bm_ok b" "bm_cap b = 10" "bm_used b = insert j ?used" by metis
  let ?s = "\<lparr>sem_name = n, sem_id = q\<rparr>"
  define st' where "st' = \<lparr>st_bm = b, semTab = (semTab st)[j := Some ?s]\<rparr>"
  have c: "STable_Create n q st = Inr (0, st')"
    using r j(1) n(1) by (simp add: STable_Create_def STable_FindFreeSlot_def Sem_new_def strcpy_def st'_def)
  have len: "length (semTab st) = 10" using ok by (simp add: st_ok_def)
  have tab: "semTab st' ! i = (if i = j then Some ?s else semTab st ! i)" for i
    using j(2) len by (cases "i = j") (simp_all add: st'_def)
  have us: "set (st_used st') = insert j ?used" using j(5,6) by (auto simp: st_used_def st'_def bm_used_def)
  have ne: "\<forall>i \<in> insert j ?used. semTab st' ! i \<noteq> None" using ok by (auto simp: tab st_ok_def st_used_set [OF ok])
  have "inj_on (\<lambda>i. sem_name (the (semTab st ! i))) ?used"
    using ok by (auto simp: st_ok_def st_entries_def st_used_set [OF ok] distinct_map comp_def)
  moreover have "\<forall>i \<in> ?used. sem_name (the (semTab st ! i)) \<noteq> n"
  proof
    fix i assume "i \<in> ?used"
    moreover from this obtain s where "semTab st ! i = Some s" using ok by (auto simp: st_ok_def st_used_set [OF ok])
    ultimately show "sem_name (the (semTab st ! i)) \<noteq> n" using n(2) st_contents_iff [OF ok, of n "sem_id s"] by auto
  qed
  ultimately have "inj_on (\<lambda>i. sem_name (the (semTab st' ! i))) (insert j ?used)"
    using j(3) by (auto simp: inj_on_def tab)
  moreover have "distinct (st_used st')" by (simp add: st_used_def)
  ultimately have "distinct (map fst (st_entries st'))"
    by (simp only: st_entries_def map_map distinct_map us comp_def fst_conv)
  with ne us j(4,5) len have ok': "st_ok st'" by (simp add: st_ok_def) (simp add: st'_def)
  have "st_contents st' m = ((st_contents st)(n \<mapsto> q)) m" for m
  proof -
    have "st_contents st' m = Some v \<longleftrightarrow> ((st_contents st)(n \<mapsto> q)) m = Some v" for v
    proof -
      have "st_contents st' m = Some v \<longleftrightarrow> (m = n \<and> v = q) \<or> st_contents st m = Some v"
        unfolding st_contents_iff [OF ok'] st_contents_iff [OF ok] using j(3,6) by (auto simp: tab) (auto simp: st'_def)
      then show ?thesis using n(2) by auto
    qed
    then show ?thesis by (metis option.exhaust)
  qed
  with c ok' show ?thesis by blast
qed

interpretation stab: sem_names st_ok st_contents 10 STable_Create STable_find
proof (unfold_locales, goal_cases)
  case (1 s n)
  then show ?case by (rule st_find_ok)
next
  case (2 s n q)
  then show ?case by (rule st_create_new)
next
  case (3 s n q)
  with st_create_fails [OF 3] show ?case by blast
next
  case (4 s)
  show ?case by (simp add: st_contents_def finite_dom_map_of)
qed

lemma STable_new_ok: "\<exists>st. STable_new garbage = Inr st \<and> st_ok st \<and> st_contents st = Map.empty"
proof -
  obtain b where b: "BitMap_new 10 garbage = Inr b" "bm_ok b" "numBits b = 10" "bm_used b = {}" using BitMap_new_ok [of 10] by auto
  let ?st = "\<lparr>st_bm = b, semTab = replicate 10 None\<rparr>"
  have "st_used ?st = []" using b(3,4) by (auto simp: st_used_def bm_used_def bm_cap_def filter_empty_conv simp del: upt_rec_numeral)
  then have "st_ok ?st" "st_contents ?st = Map.empty" using b by (simp_all add: st_ok_def st_contents_def st_entries_def bm_cap_def)
  with b(1) show ?thesis by (auto simp: STable_new_def MAX_SEMAPHORE_def)
qed

lemma map_upds_map_of: "distinct (map fst ns) \<Longrightarrow> m(map fst ns [\<mapsto>] map snd ns) = m ++ map_of ns"
proof (induction ns arbitrary: m)
  case (Cons x ns)
  then have "map_of ns (fst x) = None" by (auto simp: map_of_eq_None_iff)
  with Cons show ?case by (auto simp: map_add_def fun_eq_iff split: option.split)
qed simp

text \<open>C8. The semaphore table of the user programs is a map from names to semaphores with room for ten: starting from a new table, creating
  up to ten semaphores with different names of less than fifty bytes succeeds, and afterwards \<open>Wait\<close> and \<open>Signal\<close> find exactly these
  semaphores under their names and nothing under any other; creating one under a name in use, or an eleventh, returns -1 and changes nothing.\<close>

theorem semaphore_table_is_map:
  assumes "distinct (map fst ns)" "\<forall>n \<in> set (map fst ns). length n < 50" "length ns \<le> 10"
  shows "\<exists>st st'. STable_new garbage = Inr st \<and>
    res_fold (\<lambda>(n, q) s. res_bind (STable_Create n q s) (\<lambda>(r, s'). Inr s')) ns st = Inr st' \<and>
    (\<forall>n. STable_find n st' = Inr (map_of ns n)) \<and>
    (\<forall>n q. n \<in> set (map fst ns) \<or> length ns = 10 \<longrightarrow> STable_Create n q st' = Inr (-1, st'))"
proof -
  obtain st where st: "STable_new garbage = Inr st" "st_ok st" "st_contents st = Map.empty" using STable_new_ok by blast
  have "\<exists>st'. res_fold (\<lambda>(n, q) s. res_bind (STable_Create n q s) (\<lambda>(r, s'). Inr s')) ns st = Inr st' \<and> st_ok st' \<and>
     st_contents st' = (st_contents st)(map fst ns [\<mapsto>] map snd ns)"
    using assms by (intro stab.create_many [OF st(2)]) (simp_all add: st(3))
  then obtain st' where st': "res_fold (\<lambda>(n, q) s. res_bind (STable_Create n q s) (\<lambda>(r, s'). Inr s')) ns st = Inr st'" "st_ok st'"
    "st_contents st' = [map fst ns [\<mapsto>] map snd ns]" using st(3) by auto
  have "[map fst ns [\<mapsto>] map snd ns] = map_of ns" using map_upds_map_of [OF assms(1), of Map.empty] by simp
  then have c: "st_contents st' = map_of ns" using st'(3) by simp
  have "card (dom (st_contents st')) = length ns"
    using assms(1) distinct_card [of "map fst ns"] by (simp add: c dom_map_of_conv_image_fst)
  then have "STable_Create n q st' = Inr (-1, st')" if "n \<in> set (map fst ns) \<or> length ns = 10" for n q
    using that by (intro st_create_fails [OF st'(2)]) (auto simp: c map_of_eq_None_iff)
  moreover have "STable_find n st' = Inr (map_of ns n)" for n using st_find_ok [OF st'(2)] c by simp
  ultimately show ?thesis using st(1) st'(1) by blast
qed

theorem semaphore_table_is_map_witness:
  "\<exists>st st'. STable_new (\<lambda>_. 0) = Inr st \<and> res_fold (\<lambda>(n, q) s. res_bind (STable_Create n q s) (\<lambda>(r, s'). Inr s')) [([97], 11), ([98], 12)] st = Inr st' \<and>
     STable_find [98] st' = Inr (Some 12) \<and> STable_find [99] st' = Inr None"
proof -
  have "distinct (map fst [([97], 11), ([98], 12 :: nat)] :: cstr list)" "\<forall>n \<in> set (map fst [([97], 11), ([98], 12 :: nat)]). length n < 50"
    "length [([97], 11), ([98], 12 :: nat)] \<le> 10" by simp_all
  from semaphore_table_is_map [OF this, of "\<lambda>_. 0"] show ?thesis by (elim exE conjE, intro exI conjI) (assumption | simp)+
qed

end
