(* ===== verification/Syscalls.thy ===== *)
theory Syscalls
  imports ThreadTest Process MipsCorrect
begin

text \<open>
  The kernel above the drivers, as user programs see it: the exception handler and the system calls (\<open>userprog/exception.cc\<close>), starting a
  process (\<open>userprog/progtest.cc\<close>), \<open>Exec\<close>, \<open>Join\<close> and \<open>Exit\<close> through the process table, and the loop that runs a user program
  (\<open>Machine::Run\<close>). The state \<open>Sys\<close> extends the kernel of theory \<open>Devices\<close>. A system call runs in its thread: it
  is a list of frames, in which the waiting is \<open>P\<close> on a semaphore and the code between two waits is an action \<open>sys_act\<close>, run by \<open>sys_exec\<close>.

  A buffer for the console is named by the thread that uses it. What C++ leaves uninitialised is in the state: \<open>garbage\<close>,
  \<open>junk_space\<close>, and \<open>stale_name\<close> for a thread name that was freed. Messages that \<open>printf\<close> writes to the host's terminal are left out.
  An array is allocated whenever its size is not negative.
\<close>

section \<open>State\<close>

datatype sys_act =
    UBoot                                  \<comment> \<open>\<open>Initialize\<close>, the objects of the user-program build\<close>
  | UInstr                                 \<comment> \<open>the loop of \<open>Machine::Run\<close>\<close>
  | UIncreasePC                            \<comment> \<open>\<open>IncreasePC()\<close> at the end of \<open>ExceptionHandler\<close>\<close>
  | UResult "32 word"                      \<comment> \<open>\<open>machine->WriteRegister(2, result)\<close>\<close>
  | UReadInt                               \<comment> \<open>the system calls after \<open>gSynchConsole->Read\<close>\<close>
  | UReadChar
  | UReadString "32 word" "32 word"
  | UReadStdin "32 word"
  | UStart cstr                            \<comment> \<open>\<open>StartProcess\<close>\<close>
  | UStartID int                           \<comment> \<open>\<open>StartProcessID\<close>\<close>
  | USetup cstr bool                       \<comment> \<open>\<open>AddrSpace\<close>'s constructors with \<open>addrLock\<close> held\<close>
  | ULoad cstr NoffHeader "int list"
  | UDeleteAgain
  | UEnter AddrSpace                       \<comment> \<open>what follows \<open>new AddrSpace\<close>\<close>
  | UExecUpdate cstr                       \<comment> \<open>\<open>PTable::ExecUpdate\<close> with \<open>bmsem\<close> held\<close>
  | UExecFork nat cstr int                 \<comment> \<open>\<open>PCB::Exec\<close> with \<open>multex\<close> held\<close>
  | UExecEnd nat int
  | UIncNumWait nat
  | UDecNumWait nat
  | UJoinWait int                          \<comment> \<open>\<open>PTable::JoinUpdate\<close>\<close>
  | UJoined int
  | UJoinRelease int                       \<comment> \<open>\<open>PTable::ExitUpdate\<close>\<close>
  | URemove int
  | UFinish                                \<comment> \<open>\<open>currentThread->Finish()\<close>\<close>

record Sys = "sys_act Kernel" +
  big_endian :: bool
  next_sem :: nat
  phys_map :: BitMap
  te_fresh :: nat
  pTab :: PTable
  semTable :: STable
  fileSystem :: FileSystem
  thread_name :: "nat \<Rightarrow> cstr option"
  stale_name :: cstr
  garbage :: "nat \<Rightarrow> 8 word"
  junk_space :: AddrSpace

type_synonym sframes = "sys_act act frame list"

abbreviation ucall :: "sys_act \<Rightarrow> sys_act act frame" where
  "ucall b \<equiv> FAct (ACall b)"

definition addr_sem :: nat where "addr_sem = 5"

text \<open>\<open>new Semaphore(name, v)\<close>. The queue of a semaphore that was never used is empty.\<close>

definition new_semaphore :: "int \<Rightarrow> Sys \<Rightarrow> nat \<times> Sys" where
  "new_semaphore v k = (next_sem k,
     k\<lparr>sems := (sems k)(next_sem k := (sems k (next_sem k))\<lparr>sem_value := v\<rparr>), next_sem := next_sem k + 1\<rparr>)"

definition with_machine :: "Sys \<Rightarrow> (Machine \<Rightarrow> 'r res) \<Rightarrow> 'r res" where
  "with_machine k f = (case machine k of None \<Rightarrow> Inl NullDeref | Some m \<Rightarrow> f m)"

text \<open>\<open>machine->ReadRegister(n)\<close> and then the rest.\<close>

definition read_reg :: "int \<Rightarrow> Sys \<Rightarrow> (32 word \<Rightarrow> 'r res) \<Rightarrow> 'r res" where
  "read_reg n k f = with_machine k (\<lambda>m. res_bind (ReadRegister n m) f)"

text \<open>\<open>machine->WriteRegister(2, v)\<close>, and the system call is over.\<close>

definition result :: "32 word \<Rightarrow> Sys \<Rightarrow> (sframes \<times> Sys) res" where
  "result v k = with_machine k (\<lambda>m. res_bind (WriteRegister 2 v m) (\<lambda>m'. Inr ([], k\<lparr>machine := Some m'\<rparr>)))"

text \<open>\<open>Interrupt::Halt\<close> never returns.\<close>

definition Halt :: "Sys \<Rightarrow> sframes \<times> Sys" where
  "Halt k = ([], k\<lparr>halted := True\<rparr>)"

section \<open>Between user memory and the kernel\<close>

definition IncreasePC :: "Machine \<Rightarrow> Machine res" where
  "IncreasePC m =
     res_bind (ReadRegister (int PCReg) m) (\<lambda>counter.
     res_bind (WriteRegister (int PrevPCReg) counter m) (\<lambda>m1.
     res_bind (ReadRegister (int NextPCReg) m1) (\<lambda>counter'.
     res_bind (WriteRegister (int PCReg) counter' m1) (\<lambda>m2.
     WriteRegister (int NextPCReg) (counter' + 4) m2))))"

text \<open>The bytes up to the first zero, at most \<open>n\<close>; the rest of the kernel's buffer is zero.\<close>

fun u2s_loop :: "bool \<Rightarrow> 32 word \<Rightarrow> nat \<Rightarrow> Machine \<Rightarrow> (cstr trapped \<times> Machine) res" where
  "u2s_loop big va 0 m = Inr (Done [], m)"
| "u2s_loop big va (Suc n) m = res_bind (ReadMem big va 1 m) (\<lambda>(t, m1).
     case t of Trap e \<Rightarrow> Inr (Trap e, m1)
     | Done oneChar \<Rightarrow>
         if oneChar = 0 then Inr (Done [], m1)
         else res_bind (u2s_loop big (va + 1) n m1) (\<lambda>(r, m2).
           case r of Trap e \<Rightarrow> Inr (Trap e, m2) | Done cs \<Rightarrow> Inr (Done (ucast oneChar # cs), m2)))"

definition User2System :: "bool \<Rightarrow> 32 word \<Rightarrow> 32 word \<Rightarrow> Machine \<Rightarrow> (cstr trapped \<times> Machine) res" where
  "User2System big virtAddr limit m =
     (if sint (limit + 1) < 0 then Inl BadAlloc else u2s_loop big virtAddr (nat (sint limit)) m)"

fun s2u_loop :: "bool \<Rightarrow> 32 word \<Rightarrow> 8 word list \<Rightarrow> int \<Rightarrow> Machine \<Rightarrow> (int trapped \<times> Machine) res" where
  "s2u_loop big va [] i m = Inr (Done i, m)"
| "s2u_loop big va (b # bs) i m = res_bind (WriteMem big va 1 (scast b) m) (\<lambda>(t, m1).
     case t of Trap e \<Rightarrow> Inr (Trap e, m1)
     | Done _ \<Rightarrow> if b = 0 then Inr (Done (i + 1), m1) else s2u_loop big (va + 1) bs (i + 1) m1)"

definition System2User :: "bool \<Rightarrow> 32 word \<Rightarrow> int \<Rightarrow> 8 word list \<Rightarrow> Machine \<Rightarrow> (int trapped \<times> Machine) res" where
  "System2User big virtAddr len buffer m =
     (if len < 0 then Inr (Done (-1), m)
      else if len = 0 then Inr (Done len, m)
      else s2u_loop big virtAddr (take (nat len) buffer) 0 m)"

text \<open>An exception that a memory access of the kernel raises goes to \<open>ExceptionHandler\<close> too, and that one halts for each of them.\<close>

definition fatal_exception :: "ExceptionType \<Rightarrow> Sys \<Rightarrow> (sframes \<times> Sys) res" where
  "fatal_exception which k = Inr (Halt k)"

definition user2system :: "32 word \<Rightarrow> 32 word \<Rightarrow> Sys \<Rightarrow> (cstr \<Rightarrow> Sys \<Rightarrow> (sframes \<times> Sys) res) \<Rightarrow> (sframes \<times> Sys) res" where
  "user2system va limit k f = with_machine k (\<lambda>m.
     res_bind (User2System (big_endian k) va limit m) (\<lambda>(t, m').
       case t of Trap e \<Rightarrow> fatal_exception e (k\<lparr>machine := Some m'\<rparr>) | Done s \<Rightarrow> f s (k\<lparr>machine := Some m'\<rparr>)))"

definition system2user :: "32 word \<Rightarrow> int \<Rightarrow> 8 word list \<Rightarrow> Sys \<Rightarrow> (Sys \<Rightarrow> (sframes \<times> Sys) res) \<Rightarrow> (sframes \<times> Sys) res" where
  "system2user va len buffer k f = with_machine k (\<lambda>m.
     res_bind (System2User (big_endian k) va len buffer m) (\<lambda>(t, m').
       case t of Trap e \<Rightarrow> fatal_exception e (k\<lparr>machine := Some m'\<rparr>) | Done _ \<Rightarrow> f (k\<lparr>machine := Some m'\<rparr>)))"

section \<open>Console system calls\<close>

definition SubFunction :: "Sys \<Rightarrow> (sframes \<times> Sys) res" where
  "SubFunction k = read_reg 4 k (\<lambda>op1. read_reg 5 k (\<lambda>op2. result (op1 - op2) k))"

definition ReadIntFunction :: "Sys \<Rightarrow> (sframes \<times> Sys) res" where
  "ReadIntFunction k = Inr ([FAct (ARead (currentThread k) 255), ucall UReadInt], k)"

text \<open>The number in the buffer after \<open>Read\<close> returned \<open>size\<close>. The branch for a decimal point is behind the test for
  digits, so no character reaches it.\<close>

definition parse_int :: "8 word list \<Rightarrow> int \<Rightarrow> 32 word" where
  "parse_int buffer size' =
     (let neg = (buffer ! 0 = 0x2d); startPos = (if neg then 1 else 0 :: nat) in
      if list_ex (\<lambda>i. sint (buffer ! i) < 48 \<or> sint (buffer ! i) > 57) [startPos..<nat size'] then 0
      else let endPos = (if int startPos < size' then nat size' - 1 else startPos);
               res = fold (\<lambda>i res. res * 10 + (scast (buffer ! i) - 48)) [startPos..<endPos + 1] 0
           in if neg then - res else res)"

text \<open>The decimal digits that \<open>PrintInt\<close> counts and writes, with C's division.\<close>

function count_digits :: "int \<Rightarrow> nat" where
  "count_digits n = (if n = 0 then 0 else Suc (count_digits (n sdiv 10)))"
  by pat_completeness auto
termination
proof (relation "measure (\<lambda>n. nat \<bar>n\<bar>)")
  fix n :: int
  assume "n \<noteq> 0"
  then have "\<bar>n\<bar> div 10 < \<bar>n\<bar>" by (intro int_div_less_self) auto
  then show "(n sdiv 10, n) \<in> measure (\<lambda>n. nat \<bar>n\<bar>)" by (auto simp: signed_divide_int_def abs_mult sgn_if split: if_splits)
qed simp

declare count_digits.simps [simp del]

fun put_digits :: "nat \<Rightarrow> int \<Rightarrow> 8 word list" where
  "put_digits 0 tempNum = []"
| "put_digits (Suc n) tempNum = put_digits n (tempNum sdiv 10) @ [word_of_int (tempNum smod 10 + 48)]"

definition print_int :: "(nat \<Rightarrow> 8 word) \<Rightarrow> 32 word \<Rightarrow> 8 word list \<times> bool" where
  "print_int junk num =
     (if num = 0 then ([0x30], False)
      else let len = count_digits (sint num); startPos = (sint num < 0); num' = (if startPos then - num else num);
               digits = put_digits len (sint num)
           in if sint num' < 0 then (0x2d # digits, True)
              else (take len (if startPos then junk 0 # digits else digits), False))"

definition PrintIntFunction :: "Sys \<Rightarrow> (sframes \<times> Sys) res" where
  "PrintIntFunction k = read_reg 4 k (\<lambda>num.
     let (bytes, again) = print_int (garbage k) num in
     Inr (FAct (AWrite bytes) # (if again then [ucall UIncreasePC] else []), k))"

definition ReadCharFunction :: "Sys \<Rightarrow> (sframes \<times> Sys) res" where
  "ReadCharFunction k = Inr ([FAct (ARead (currentThread k) 255), ucall UReadChar], k)"

definition read_char_end :: "Sys \<Rightarrow> (sframes \<times> Sys) res" where
  "read_char_end k =
     (let len = results k (currentThread k); buffer = buffers k (currentThread k) in
      if len = 0 then result 0 k
      else if len > 1 then result 0 k
      else if len = 1 then result (scast (buffer ! 0)) k
      else Inr ([], k))"

definition PrintCharFunction :: "Sys \<Rightarrow> (sframes \<times> Sys) res" where
  "PrintCharFunction k = read_reg 4 k (\<lambda>c. Inr ([FAct (AWrite [ucast c])], k))"

definition ReadStringFunction :: "Sys \<Rightarrow> (sframes \<times> Sys) res" where
  "ReadStringFunction k = read_reg 4 k (\<lambda>va. read_reg 5 k (\<lambda>len.
     user2system va len k (\<lambda>_ k1.
       Inr ([FAct (ARead (currentThread k1) (nat (sint len))), ucall (UReadString va len)], k1))))"

definition read_string_end :: "32 word \<Rightarrow> 32 word \<Rightarrow> Sys \<Rightarrow> (sframes \<times> Sys) res" where
  "read_string_end va len k = system2user va (sint len) (buffers k (currentThread k)) k (\<lambda>k1. Inr ([], k1))"

definition PrintStringFunction :: "Sys \<Rightarrow> (sframes \<times> Sys) res" where
  "PrintStringFunction k = read_reg 4 k (\<lambda>va.
     user2system va 255 k (\<lambda>s k1. Inr ([FAct (AWrite (s @ [0]))], k1)))"

section \<open>File system calls\<close>

definition MAX_LENGTH :: "32 word" where "MAX_LENGTH = 32"

definition set_file :: "nat \<Rightarrow> OpenFile option \<Rightarrow> FileSystem \<Rightarrow> FileSystem" where
  "set_file i f fs = fs\<lparr>openfile := (openfile fs)[i := f]\<rparr>"

definition contents :: "OpenFile \<Rightarrow> FileSystem \<Rightarrow> 8 word list" where
  "contents f fs = (case ufiles fs (of_name f) of None \<Rightarrow> [] | Some c \<Rightarrow> c)"

definition CreateFileFunction :: "Sys \<Rightarrow> (sframes \<times> Sys) res" where
  "CreateFileFunction k = read_reg 4 k (\<lambda>va. user2system va (MAX_LENGTH + 1) k (\<lambda>name k1.
     if length name = 0 then result (-1) k1
     else res_bind (FileSystem_Create name (fileSystem k1)) (\<lambda>(ok, fs).
       if \<not> ok then result (-1) (k1\<lparr>fileSystem := fs\<rparr>) else result 0 (k1\<lparr>fileSystem := fs\<rparr>))))"

definition OpenFunction :: "Sys \<Rightarrow> (sframes \<times> Sys) res" where
  "OpenFunction k = read_reg 4 k (\<lambda>va. user2system va MAX_LENGTH k (\<lambda>name k1.
     let freeSlot = FindFreeSlot (fileSystem k1) in
     read_reg 5 k1 (\<lambda>type.
       if freeSlot \<noteq> -1
       then if type = 0 \<or> type = 1
            then let f = FileSystem_Open name (sint type) (fileSystem k1);
                     k2 = k1\<lparr>fileSystem := set_file (nat freeSlot) f (fileSystem k1)\<rparr>
                 in if f \<noteq> None then result (word_of_int freeSlot) k2 else Inr ([], k2)
            else if type = 2 then result 0 k1
            else if type = 3 then result 1 k1
            else Inr ([], k1)
       else result (-1) k1)))"

definition CloseFunction :: "Sys \<Rightarrow> (sframes \<times> Sys) res" where
  "CloseFunction k = read_reg 4 k (\<lambda>w.
     let fileID = sint w in
     if fileID \<ge> 0 \<and> fileID \<le> 14 \<and> openfile (fileSystem k) ! nat fileID \<noteq> None
     then result 0 (k\<lparr>fileSystem := set_file (nat fileID) None (fileSystem k)\<rparr>)
     else result (-1) k)"

text \<open>The table entry \<open>openfile[id]\<close>, when \<open>id\<close> passes the test that \<open>Read\<close>, \<open>Write\<close> and \<open>Seek\<close> share.\<close>

definition open_file :: "int \<Rightarrow> Sys \<Rightarrow> OpenFile option" where
  "open_file i k = (if i < 0 \<or> i > 9 then None else openfile (fileSystem k) ! nat i)"

definition ReadFunction :: "Sys \<Rightarrow> (sframes \<times> Sys) res" where
  "ReadFunction k = read_reg 4 k (\<lambda>va. read_reg 5 k (\<lambda>charcount. read_reg 6 k (\<lambda>w.
     let i = sint w in
     case open_file i k of None \<Rightarrow> result (-1) k
     | Some f \<Rightarrow>
         if of_type f = 3 then result (-1) k
         else let (oldPos, f1) = GetCurrentPos f; k0 = k\<lparr>fileSystem := set_file (nat i) (Some f1) (fileSystem k)\<rparr> in
           user2system va charcount k0 (\<lambda>_ k1.
             if of_type f1 = 2
             then Inr ([FAct (ARead (currentThread k1) (nat (sint charcount))), ucall (UReadStdin va)], k1)
             else res_bind (OpenFile_Read (contents f1 (fileSystem k1)) (sint charcount) f1) (\<lambda>(n, bs, f2).
               if n > 0
               then let (newPos, f3) = GetCurrentPos f2 in
                    system2user va (newPos - oldPos) bs (k1\<lparr>fileSystem := set_file (nat i) (Some f3) (fileSystem k1)\<rparr>)
                      (result (word_of_int (newPos - oldPos)))
               else result (-2) (k1\<lparr>fileSystem := set_file (nat i) (Some f2) (fileSystem k1)\<rparr>))))))"

definition read_stdin_end :: "32 word \<Rightarrow> Sys \<Rightarrow> (sframes \<times> Sys) res" where
  "read_stdin_end va k =
     (let size' = results k (currentThread k) in
      system2user va size' (buffers k (currentThread k)) k (result (word_of_int size')))"

text \<open>The kernel's buffer of \<open>charcount\<close> bytes; for \<open>stdout\<close> the line that is written, character by character.\<close>

definition padded :: "nat \<Rightarrow> cstr \<Rightarrow> 8 word list" where
  "padded n s = s @ replicate (n - length s) 0"

definition write_stdout :: "cstr \<Rightarrow> Sys \<Rightarrow> (sframes \<times> Sys) res" where
  "write_stdout s k =
     (let line = takeWhile (\<lambda>c. c \<noteq> 0 \<and> c \<noteq> 10) s in
      Inr (map (\<lambda>c. FAct (AWrite [c])) line @ [FAct (AWrite [10]), ucall (UResult (word_of_int (int (length line) - 1)))], k))"

definition WriteFunction :: "Sys \<Rightarrow> (sframes \<times> Sys) res" where
  "WriteFunction k = read_reg 4 k (\<lambda>va. read_reg 5 k (\<lambda>charcount. read_reg 6 k (\<lambda>w.
     let i = sint w in
     case open_file i k of None \<Rightarrow> result (-1) k
     | Some f \<Rightarrow>
         if of_type f = 1 \<or> of_type f = 2 then result (-1) k
         else let (oldPos, f1) = GetCurrentPos f; k0 = k\<lparr>fileSystem := set_file (nat i) (Some f1) (fileSystem k)\<rparr> in
           user2system va charcount k0 (\<lambda>s k1.
             if of_type f1 = 0
             then res_bind (OpenFile_Write (contents f1 (fileSystem k1)) (padded (nat (sint charcount)) s) (sint charcount) f1) (\<lambda>(n, c, f2).
               let fs = fileSystem k1; fs' = fs\<lparr>ufiles := (ufiles fs)(of_name f1 \<mapsto> c)\<rparr>; (newPos, f3) = GetCurrentPos f2 in
               if n > 0 then result (word_of_int (newPos - oldPos)) (k1\<lparr>fileSystem := set_file (nat i) (Some f3) fs'\<rparr>)
               else Inr ([], k1\<lparr>fileSystem := set_file (nat i) (Some f2) fs'\<rparr>))
             else if of_type f1 = 3 then write_stdout s k1
             else Inr ([], k1)))))"

definition SeekFunction :: "Sys \<Rightarrow> (sframes \<times> Sys) res" where
  "SeekFunction k = read_reg 4 k (\<lambda>p. read_reg 5 k (\<lambda>w.
     let i = sint w in
     case (if i = 0 \<or> i = 1 then None else open_file i k) of None \<Rightarrow> Inr ([], k)
     | Some f \<Rightarrow> let c = contents f (fileSystem k) in
         res_bind (if sint p = -1 then OpenFile_Length c f else Inr (sint p, f)) (\<lambda>(pos, f1).
         res_bind (if pos < 0 then Inr (0, f1) else OpenFile_Length c f1) (\<lambda>(len, f2).
           if pos < 0 \<or> pos > len then Inr ([], k\<lparr>fileSystem := set_file (nat i) (Some f2) (fileSystem k)\<rparr>)
           else res_bind (OpenFile_Seek c pos f2) (\<lambda>(_, f3).
             result (word_of_int pos) (k\<lparr>fileSystem := set_file (nat i) (Some f3) (fileSystem k)\<rparr>))))))"

section \<open>Semaphore system calls\<close>

definition CreateSemaphoreFunction :: "Sys \<Rightarrow> (sframes \<times> Sys) res" where
  "CreateSemaphoreFunction k = read_reg 4 k (\<lambda>va. read_reg 5 k (\<lambda>semval.
     user2system va (MAX_LENGTH + 1) k (\<lambda>name k1.
       res_bind (STable_Create name (next_sem k1) (semTable k1)) (\<lambda>(r, st).
         let k2 = k1\<lparr>semTable := st\<rparr> in
         if r = -1 then result (-1) k2
         else result (word_of_int r) (snd (new_semaphore (sint semval) k2))))))"

definition WaitFunction :: "Sys \<Rightarrow> (sframes \<times> Sys) res" where
  "WaitFunction k = read_reg 4 k (\<lambda>va. user2system va (MAX_LENGTH + 1) k (\<lambda>name k1.
     res_bind (STable_find name (semTable k1)) (\<lambda>r.
       case r of None \<Rightarrow> result (-1) k1 | Some s \<Rightarrow> Inr ([FP s, ucall (UResult 0)], k1))))"

definition SignalFunction :: "Sys \<Rightarrow> (sframes \<times> Sys) res" where
  "SignalFunction k = read_reg 4 k (\<lambda>va. user2system va (MAX_LENGTH + 1) k (\<lambda>name k1.
     res_bind (STable_find name (semTable k1)) (\<lambda>r.
       case r of None \<Rightarrow> result (-1) k1 | Some s \<Rightarrow> Inr ([FV s, ucall (UResult 0)], k1))))"

section \<open>Address spaces and starting a program\<close>

definition amem :: "Machine \<Rightarrow> Sys \<Rightarrow> AMem" where
  "amem m k = \<lparr>gPhysPageBitMap = phys_map k, addrLock = 0, am_machine = m, te_next = te_fresh k\<rparr>"

definition put_amem :: "AMem \<Rightarrow> Sys \<Rightarrow> Sys" where
  "put_amem a k = k\<lparr>phys_map := gPhysPageBitMap a, machine := Some (am_machine a), te_fresh := te_next a\<rparr>"

text \<open>\<open>Thread::FreeSpace\<close> deletes the address space and keeps the pointer.\<close>

definition FreeSpace :: "nat \<Rightarrow> Sys \<Rightarrow> Sys res" where
  "FreeSpace t k = deref t k (\<lambda>x. case space x of None \<Rightarrow> Inr k
     | Some sp \<Rightarrow> with_machine k (\<lambda>m. res_bind (AddrSpace_delete sp (amem m k)) (\<lambda>a. Inr (put_amem a k))))"

text \<open>\<open>Thread::Finish\<close> never returns, so that the rest of the stack is never run.\<close>

definition finish_current :: "Sys \<Rightarrow> (sframes \<times> Sys) res" where
  "finish_current k = deref (currentThread k) k (\<lambda>x. Inr ([], set_thread (currentThread k) (x\<lparr>frames_of := [FFinish]\<rparr>) k))"

text \<open>Opening an executable; \<open>named\<close> says that the constructor was given its name.\<close>

definition open_exe :: "cstr \<Rightarrow> bool \<Rightarrow> exefile \<Rightarrow> Sys \<Rightarrow> (sframes \<times> Sys) res" where
  "open_exe name named f k =
     ASSERT (noffMagic (get_header (big_endian k) f (garbage k)) = NOFFMAGIC) (Inr ([FP addr_sem, ucall (USetup name named)], k))"

definition StartProcess :: "cstr \<Rightarrow> Sys \<Rightarrow> (sframes \<times> Sys) res" where
  "StartProcess filename k = (case ufiles (fileSystem k) filename of None \<Rightarrow> Inr ([], k)
     | Some f \<Rightarrow> open_exe filename False f k)"

definition StartProcessID :: "int \<Rightarrow> Sys \<Rightarrow> (sframes \<times> Sys) res" where
  "StartProcessID pid k = res_bind (GetFileName pid (pTab k)) (\<lambda>filename.
     case ufiles (fileSystem k) filename of None \<Rightarrow> Inr ([ucall (UEnter (junk_space k))], k)
     | Some f \<Rightarrow> open_exe filename True f k)"

text \<open>The constructors between \<open>addrLock->P()\<close> and \<open>addrLock->V()\<close>. When there are not enough frames each deletes the
  executable, which is deleted again: by \<open>StartProcess\<close>, or by the constructor from a name, which goes on, with a second \<open>V\<close>.\<close>

definition setup_space :: "cstr \<Rightarrow> bool \<Rightarrow> Sys \<Rightarrow> (sframes \<times> Sys) res" where
  "setup_space name named k = with_machine k (\<lambda>m.
     let f = (case ufiles (fileSystem k) name of None \<Rightarrow> [] | Some f \<Rightarrow> f);
         h = get_header (big_endian k) f (garbage k); n = num_pages h in
     ASSERT (named \<or> n \<le> NumPhysPages)
       (res_bind (BitMap_NumClear (phys_map k)) (\<lambda>c.
          if n > word_of_int c
          then if named
               then res_bind (setup_table 0 (amem m k)) (\<lambda>(fs, a). Inr ([FV addr_sem, FV addr_sem, ucall UDeleteAgain], put_amem a k))
               else Inr ([FV addr_sem, ucall UDeleteAgain], k)
          else res_bind (setup_table n (amem m k)) (\<lambda>(fs, a).
                 let sp = \<lparr>as_pageTable = Some (te_fresh k), as_numPages = n\<rparr> in
                 Inr ([FV addr_sem, ucall (ULoad name h fs), ucall (UEnter sp)], put_amem a k)))))"

definition load_space :: "cstr \<Rightarrow> NoffHeader \<Rightarrow> int list \<Rightarrow> Sys \<Rightarrow> (sframes \<times> Sys) res" where
  "load_space name h fs k = with_machine k (\<lambda>m.
     let f = (case ufiles (fileSystem k) name of None \<Rightarrow> [] | Some f \<Rightarrow> f) in
     res_bind (load_image f h fs (amem m k)) (\<lambda>a. Inr ([], put_amem a k)))"

text \<open>\<open>currentThread->space = space\<close>, the registers, the page table, and \<open>machine->Run()\<close>.\<close>

definition enter_space :: "AddrSpace \<Rightarrow> Sys \<Rightarrow> (sframes \<times> Sys) res" where
  "enter_space sp k = with_machine k (\<lambda>m. deref (currentThread k) k (\<lambda>x.
     res_bind (InitRegisters sp m) (\<lambda>m1.
       Inr ([FStatus UserMode, ucall UInstr],
         (set_thread (currentThread k) (x\<lparr>space := Some sp\<rparr>) k)\<lparr>machine := Some (RestoreState sp m1)\<rparr>))))"

section \<open>Process system calls\<close>

definition ExecFunction :: "Sys \<Rightarrow> (sframes \<times> Sys) res" where
  "ExecFunction k = read_reg 4 k (\<lambda>va. user2system va (MAX_LENGTH + 1) k (\<lambda>progName k1.
     if \<not> OpenForReadWrite progName (fileSystem k1) then result (-1) k1
     else Inr ([FP (bmsem (pTab k1)), ucall (UExecUpdate progName)], k1)))"

definition getName :: "Sys \<Rightarrow> cstr" where
  "getName k = (case thread_name k (currentThread k) of Some n \<Rightarrow> n | None \<Rightarrow> stale_name k)"

definition processID_of :: "Sys \<Rightarrow> (int \<Rightarrow> 'r res) \<Rightarrow> 'r res" where
  "processID_of k f = deref (currentThread k) k (\<lambda>x. f (processID x))"

text \<open>\<open>new PCB(index)\<close> with its three semaphores.\<close>

definition create_pcb :: "int \<Rightarrow> cstr \<Rightarrow> int \<Rightarrow> Sys \<Rightarrow> (nat \<times> PCB \<times> Sys) res" where
  "create_pcb index name parent k =
     (let (js, k1) = new_semaphore 0 k; (es, k2) = new_semaphore 0 k1; (ms, k3) = new_semaphore 1 k2 in
      res_bind (SetFileName name (PCB_new index js es ms)) (\<lambda>p.
        let p1 = p\<lparr>parentID := parent\<rparr>; (a, t) = new_pcb p1 (pTab k3) in
        Inr (a, p1, k3\<lparr>pTab := t\<lparr>pcbs := (pcbs t)[nat index := Some a]\<rparr>\<rparr>)))"

definition ExecUpdate :: "cstr \<Rightarrow> Sys \<Rightarrow> (sframes \<times> Sys) res" where
  "ExecUpdate name k = res_bind (GetFreeSlot (pTab k)) (\<lambda>(index, t).
     let k1 = k\<lparr>pTab := t\<rparr> in
     if index < 0 \<or> name = scheduler_name \<or> name = getName k1
     then Inr ([FV (bmsem t), ucall (UResult (-1))], k1)
     else processID_of k1 (\<lambda>parent. res_bind (create_pcb index name parent k1) (\<lambda>(a, p, k2).
       Inr ([FP (multex p), ucall (UExecFork a name index), FV (multex p), FV (bmsem t), ucall (UExecEnd a index)], k2))))"

text \<open>\<open>PCB::Exec\<close> with the block's \<open>multex\<close> held.\<close>

definition PCB_Exec :: "nat \<Rightarrow> cstr \<Rightarrow> int \<Rightarrow> Sys \<Rightarrow> (sframes \<times> Sys) res" where
  "PCB_Exec a filename pid k = processID_of k (\<lambda>parent.
     case pcb_heap (pTab k) a of None \<Rightarrow> Inl DanglingPtr
     | Some p \<Rightarrow>
         let t = next_thread k;
             k1 = (set_thread t ((Thread_new (\<lambda>_. 0))\<lparr>processID := pid\<rparr>) k)\<lparr>next_thread := t + 1\<rparr>;
             k2 = k1\<lparr>pTab := set_pcb a (p\<lparr>pcb_thread := Some t, parentID := parent\<rparr>) (pTab k1),
                     thread_name := (thread_name k1)(t := Some filename)\<rparr>
         in res_bind (Thread_Fork t [ucall (UStartID pid)] k2) (\<lambda>k3. Inr ([], k3)))"

text \<open>The end of \<open>ExecFunction\<close> frees the name that the new thread uses.\<close>

definition exec_end :: "nat \<Rightarrow> int \<Rightarrow> Sys \<Rightarrow> (sframes \<times> Sys) res" where
  "exec_end a pid k = result (word_of_int pid)
     (k\<lparr>thread_name := (case pcb_heap (pTab k) a of Some p \<Rightarrow> (case pcb_thread p of Some t \<Rightarrow> (thread_name k)(t := None)
         | None \<Rightarrow> thread_name k) | None \<Rightarrow> thread_name k)\<rparr>)"

definition num_wait :: "(PCB \<Rightarrow> PCB) \<Rightarrow> nat \<Rightarrow> Sys \<Rightarrow> (sframes \<times> Sys) res" where
  "num_wait f a k = (case pcb_heap (pTab k) a of None \<Rightarrow> Inl DanglingPtr
     | Some p \<Rightarrow> Inr ([], k\<lparr>pTab := set_pcb a (f p) (pTab k)\<rparr>))"

definition JoinUpdate :: "int \<Rightarrow> Sys \<Rightarrow> (sframes \<times> Sys) res" where
  "JoinUpdate i k =
     (if i < 0 then result (-1) k
      else res_bind (pcb_at i (pTab k)) (\<lambda>(a, p). processID_of k (\<lambda>me.
        if me \<noteq> parentID p then result (-1) k
        else res_bind (pcb_at (parentID p) (pTab k)) (\<lambda>(pa, pp).
          Inr ([FP (multex pp), ucall (UIncNumWait pa), FV (multex pp), ucall (UJoinWait i)], k)))))"

definition join_wait :: "int \<Rightarrow> Sys \<Rightarrow> (sframes \<times> Sys) res" where
  "join_wait i k = res_bind (pcb_at i (pTab k)) (\<lambda>(a, p). Inr ([FP (joinsem p), ucall (UJoined i)], k))"

definition joined :: "int \<Rightarrow> Sys \<Rightarrow> (sframes \<times> Sys) res" where
  "joined i k = res_bind (pcb_at i (pTab k)) (\<lambda>(a, p).
     Inr ([FV (exitsem p), ucall (UResult (word_of_int (exitcode p)))], k))"

definition JoinFunction :: "Sys \<Rightarrow> (sframes \<times> Sys) res" where
  "JoinFunction k = read_reg 4 k (\<lambda>w. JoinUpdate (sint w) k)"

definition ExitUpdate :: "int \<Rightarrow> Sys \<Rightarrow> (sframes \<times> Sys) res" where
  "ExitUpdate ec k = processID_of k (\<lambda>i.
     if i = 0 then res_bind (FreeSpace (currentThread k) k) (\<lambda>k1. Inr (Halt k1))
     else res_bind (IsExist i (pTab k)) (\<lambda>ex.
       if \<not> ex then res_bind (result (-1) k) (\<lambda>(_, k1). res_bind (FreeSpace (currentThread k1) k1) (\<lambda>k2. Inr ([ucall UFinish], k2)))
       else res_bind (pcb_at i (pTab k)) (\<lambda>(a, p).
         let t1 = set_pcb a (SetExitCode ec p) (pTab k) in
         res_bind (pcb_at (parentID p) t1) (\<lambda>(pa, pp).
           Inr ([FP (multex pp), ucall (UDecNumWait pa), FV (multex pp), ucall (UJoinRelease i)], k\<lparr>pTab := t1\<rparr>)))))"

definition join_release :: "int \<Rightarrow> Sys \<Rightarrow> (sframes \<times> Sys) res" where
  "join_release i k = res_bind (pcb_at i (pTab k)) (\<lambda>(a, p).
     Inr ([FV (joinsem p), FP (exitsem p), ucall (URemove i)], k))"

text \<open>\<open>PTable::Remove\<close> and the destructor of the control block, which finishes the thread and so never returns.\<close>

definition Remove :: "int \<Rightarrow> Sys \<Rightarrow> (sframes \<times> Sys) res" where
  "Remove pid k = res_bind (BitMap_Clear pid (pt_bm (pTab k))) (\<lambda>b.
     let k1 = k\<lparr>pTab := (pTab k)\<lparr>pt_bm := b\<rparr>\<rparr> in
     res_bind (pcb_at pid (pTab k1)) (\<lambda>(a, p).
       let k2 = k1\<lparr>pTab := (pTab k1)\<lparr>pcb_heap := (pcb_heap (pTab k1))(a := None)\<rparr>\<rparr> in
       case pcb_thread p of
         None \<Rightarrow> res_bind (result (word_of_int (exitcode p)) k2) (\<lambda>(_, k3). res_bind (FreeSpace (currentThread k3) k3) finish_current)
       | Some t \<Rightarrow> res_bind (FreeSpace t k2) (\<lambda>k3. ASSERT (t = currentThread k3) (finish_current k3))))"

definition ExitFunction :: "Sys \<Rightarrow> (sframes \<times> Sys) res" where
  "ExitFunction k = read_reg 4 k (\<lambda>status'. if status' \<noteq> 0 then Inr ([], k) else ExitUpdate (sint status') k)"

section \<open>The exception handler\<close>

definition SC_Halt :: "32 word" where "SC_Halt = 0"
definition SC_Exit :: "32 word" where "SC_Exit = 1"
definition SC_Exec :: "32 word" where "SC_Exec = 2"
definition SC_Join :: "32 word" where "SC_Join = 3"
definition SC_Open :: "32 word" where "SC_Open = 5"
definition SC_Read :: "32 word" where "SC_Read = 6"
definition SC_Write :: "32 word" where "SC_Write = 7"
definition SC_Close :: "32 word" where "SC_Close = 8"
definition SC_ReadInt :: "32 word" where "SC_ReadInt = 11"
definition SC_PrintInt :: "32 word" where "SC_PrintInt = 12"
definition SC_ReadChar :: "32 word" where "SC_ReadChar = 13"
definition SC_PrintChar :: "32 word" where "SC_PrintChar = 14"
definition SC_ReadString :: "32 word" where "SC_ReadString = 15"
definition SC_PrintString :: "32 word" where "SC_PrintString = 16"
definition SC_CreateFile :: "32 word" where "SC_CreateFile = 17"
definition SC_CreateSemaphore :: "32 word" where "SC_CreateSemaphore = 18"
definition SC_Wait :: "32 word" where "SC_Wait = 19"
definition SC_Signal :: "32 word" where "SC_Signal = 20"
definition SC_Seek :: "32 word" where "SC_Seek = 21"
definition SC_Sub :: "32 word" where "SC_Sub = 43"

lemmas SC_defs = SC_Halt_def SC_Exit_def SC_Exec_def SC_Join_def SC_Open_def SC_Read_def SC_Write_def SC_Close_def
  SC_ReadInt_def SC_PrintInt_def SC_ReadChar_def SC_PrintChar_def SC_ReadString_def SC_PrintString_def SC_CreateFile_def
  SC_CreateSemaphore_def SC_Wait_def SC_Signal_def SC_Seek_def SC_Sub_def

definition syscall :: "32 word \<Rightarrow> Sys \<Rightarrow> (sframes \<times> Sys) res" where
  "syscall type k =
     (if type = SC_Halt then Inr (Halt k)
      else if type = SC_Sub then SubFunction k
      else if type = SC_ReadInt then ReadIntFunction k
      else if type = SC_PrintInt then PrintIntFunction k
      else if type = SC_ReadChar then ReadCharFunction k
      else if type = SC_PrintChar then PrintCharFunction k
      else if type = SC_ReadString then ReadStringFunction k
      else if type = SC_PrintString then PrintStringFunction k
      else if type = SC_CreateFile then CreateFileFunction k
      else if type = SC_Open then OpenFunction k
      else if type = SC_Close then CloseFunction k
      else if type = SC_Read then ReadFunction k
      else if type = SC_Write then WriteFunction k
      else if type = SC_Exec then ExecFunction k
      else if type = SC_Join then JoinFunction k
      else if type = SC_Exit then ExitFunction k
      else if type = SC_CreateSemaphore then CreateSemaphoreFunction k
      else if type = SC_Wait then WaitFunction k
      else if type = SC_Signal then SignalFunction k
      else if type = SC_Seek then SeekFunction k
      else Inr ([], k))"

definition ExceptionHandler :: "ExceptionType \<Rightarrow> Sys \<Rightarrow> (sframes \<times> Sys) res" where
  "ExceptionHandler which k = read_reg 2 k (\<lambda>type.
     case which of
       NoException \<Rightarrow> Inr ([], k)
     | SyscallException \<Rightarrow> res_bind (syscall type k) (\<lambda>(fs, k'). Inr (fs @ [ucall UIncreasePC], k'))
     | _ \<Rightarrow> fatal_exception which k)"

text \<open>One round of the loop in \<open>Machine::Run\<close>: the instruction, with \<open>RaiseException\<close>'s call of the handler, and the tick.\<close>

definition Machine_Run :: "Sys \<Rightarrow> (sframes \<times> Sys) res" where
  "Machine_Run k = with_machine k (\<lambda>m. res_bind (OneInstruction (big_endian k) m) (\<lambda>(t, m').
     case t of
       Done _ \<Rightarrow> Inr ([FTick, ucall UInstr], k\<lparr>machine := Some m'\<rparr>)
     | Trap ex \<Rightarrow> res_bind (ExceptionHandler ex (k\<lparr>machine := Some m', status := SystemMode\<rparr>)) (\<lambda>(fs, k').
         Inr (fs @ [FStatus UserMode, FTick, ucall UInstr], k'))))"

section \<open>Starting the system, and running it\<close>

definition SynchConsole_new :: "Sys \<Rightarrow> Sys res" where
  "SynchConsole_new k =
     res_bind (Schedule HConsoleRead 0 ConsoleTime ConsoleReadInt (k\<lparr>console := (console k)\<lparr>putBusy := False, incoming := EOF_CHAR\<rparr>\<rparr>)) (\<lambda>k1.
       Inr (k1\<lparr>sems := (sems k1)(synchReadAvail := (sems k1 synchReadAvail)\<lparr>sem_value := 0\<rparr>,
          synchWriteAvail := (sems k1 synchWriteAvail)\<lparr>sem_value := 0\<rparr>, RLineBlock := (sems k1 RLineBlock)\<lparr>sem_value := 1\<rparr>,
          WLineBlock := (sems k1 WLineBlock)\<lparr>sem_value := 1\<rparr>)\<rparr>))"

definition map_garbage :: "Sys \<Rightarrow> nat \<Rightarrow> 32 word" where
  "map_garbage k i = ucast (garbage k i)"

text \<open>\<open>"main"\<close>\<close>

definition main_name :: cstr where "main_name = [0x6d, 0x61, 0x69, 0x6e]"

definition Initialize_user :: "Sys \<Rightarrow> (sframes \<times> Sys) res" where
  "Initialize_user k =
     res_bind (SynchConsole_new (k\<lparr>machine := Some (Machine_new False)\<rparr>)) (\<lambda>k1.
     res_bind (BitMap_new 256 (map_garbage k1)) (\<lambda>b.
       let (_, k2) = new_semaphore 1 (k1\<lparr>phys_map := b, next_sem := addr_sem, thread_name := [currentThread k1 \<mapsto> main_name]\<rparr>);
           (bs, k3) = new_semaphore 1 k2; (js, k4) = new_semaphore 0 k3; (es, k5) = new_semaphore 0 k4; (ms, k6) = new_semaphore 1 k5
       in res_bind (PTable_new 10 (map_garbage k6) bs js es ms (pTab k6)) (\<lambda>t.
          res_bind (STable_new (map_garbage k6)) (\<lambda>st.
          res_bind (FileSystem_new (fileSystem k6)) (\<lambda>fs.
            Inr ([], k6\<lparr>pTab := t, semTable := st, fileSystem := fs\<rparr>))))))"

definition sys_exec :: "sys_act \<Rightarrow> Sys \<Rightarrow> (sframes \<times> Sys) res" where
  "sys_exec b k = (case b of
       UBoot \<Rightarrow> Initialize_user k
     | UInstr \<Rightarrow> Machine_Run k
     | UIncreasePC \<Rightarrow> with_machine k (\<lambda>m. res_bind (IncreasePC m) (\<lambda>m'. Inr ([], k\<lparr>machine := Some m'\<rparr>)))
     | UResult v \<Rightarrow> result v k
     | UReadInt \<Rightarrow> result (parse_int (buffers k (currentThread k)) (results k (currentThread k))) k
     | UReadChar \<Rightarrow> read_char_end k
     | UReadString va len \<Rightarrow> read_string_end va len k
     | UReadStdin va \<Rightarrow> read_stdin_end va k
     | UStart name \<Rightarrow> StartProcess name k
     | UStartID pid \<Rightarrow> StartProcessID pid k
     | USetup name named \<Rightarrow> setup_space name named k
     | ULoad name h fs \<Rightarrow> load_space name h fs k
     | UDeleteAgain \<Rightarrow> Inl DanglingPtr
     | UEnter sp \<Rightarrow> enter_space sp k
     | UExecUpdate name \<Rightarrow> ExecUpdate name k
     | UExecFork a name pid \<Rightarrow> PCB_Exec a name pid k
     | UExecEnd a pid \<Rightarrow> exec_end a pid k
     | UIncNumWait a \<Rightarrow> num_wait inc_numwait a k
     | UDecNumWait a \<Rightarrow> num_wait dec_numwait a k
     | UJoinWait i \<Rightarrow> join_wait i k
     | UJoined i \<Rightarrow> joined i k
     | UJoinRelease i \<Rightarrow> join_release i k
     | URemove i \<Rightarrow> Remove i k
     | UFinish \<Rightarrow> finish_current k)"

end
