(* ===== verification/UserData.thy ===== *)
theory UserData
  imports Syscalls
begin

text \<open>
  What crosses the border between a user program and the kernel: strings, through \<open>System2User\<close> and \<open>User2System\<close>, and numbers, through the
  text that \<open>PrintInt\<close> writes to the console and \<open>ReadInt\<close> reads from it.
\<close>

section \<open>Strings\<close>

text \<open>The physical addresses of the bytes from virtual address \<open>va\<close> on: mapped, writable, and different from one another.\<close>

fun mapped :: "Machine \<Rightarrow> 32 word \<Rightarrow> nat list \<Rightarrow> bool" where
  "mapped m va [] = True"
| "mapped m va (p # ps) = (translate_spec va 1 True m = Inr p \<and> p \<notin> set ps \<and> mapped m (va + 1) ps)"

lemma mapped_view: "mmu_view m' = mmu_view m \<Longrightarrow> mach_ok m \<Longrightarrow> mapped m' va ps = mapped m va ps"
  by (induction ps arbitrary: va) (simp_all add: translate_spec_view [of m' m])

lemma mapped_read: "translate_spec va 1 True m = Inr p \<Longrightarrow> translate_spec va 1 False m = Inr p"
  by (auto simp: translate_spec_def split: if_splits sum.splits)

lemma ucast_scast: "(ucast (scast (b :: 8 word) :: 32 word) :: 8 word) = b"
  by (rule bit_word_eqI) (simp add: bit_ucast_iff bit_signed_iff)

lemma byte_of_scast: "byte_of 0 (scast (b :: 8 word) :: 32 word) = b"
  by (simp add: byte_of_def ucast_scast)

lemma scast_zero_iff: "(scast (b :: 8 word) :: 32 word) = 0 \<longleftrightarrow> b = 0"
proof
  assume "(scast b :: 32 word) = 0"
  then have "(ucast (scast b :: 32 word) :: 8 word) = 0" by simp
  then show "b = 0" unfolding ucast_scast .
qed simp

lemma store_byte: "store_spec 1 mem p (scast (b :: 8 word)) = mem(p := b)"
  by (auto simp: store_spec_def byte_of_scast le_Suc_eq)

lemma s2u_writes:
  assumes "cpu_ok m" "mapped m va ps" "length ps = length bs" "0 \<notin> set (butlast bs)"
  shows "\<exists>m'. s2u_loop big va bs i m = Inr (Done (i + int (length bs)), m') \<and> cpu_ok m' \<and> mmu_view m' = mmu_view m \<and>
    registers m' = registers m \<and> map (mainMemory m') ps = bs \<and> (\<forall>q. q \<notin> set ps \<longrightarrow> mainMemory m' q = mainMemory m q)"
  using assms
proof (induction bs arbitrary: va ps i m)
  case (Cons b bs)
  then obtain p ps' where ps: "ps = p # ps'" by (cases ps) auto
  have ok: "mach_ok m" using Cons.prems(1) by (simp add: cpu_ok_def)
  from WriteMem_ok [OF Cons.prems(1), where sz = 1 and addr = va and big = big and v = "scast b"] Cons.prems(2) obtain m1 where
    m1: "WriteMem big va 1 (scast b) m = Inr (Done (), m1)" "mmu_view m1 = mmu_view m" "cpu_ok m1" "registers m1 = registers m"
      "mainMemory m1 = (mainMemory m)(p := b)" by (auto simp: store_byte ps)
  show ?case
  proof (cases "b = 0")
    case True
    then have "bs = []" using Cons.prems(4) by (auto split: if_splits)
    then show ?thesis using m1 ps Cons.prems(3) True by (intro exI [of _ m1]) auto
  next
    case False
    have "mapped m1 (va + 1) ps'" using Cons.prems(2) mapped_view [OF m1(2) ok] by (simp add: ps)
    moreover have "0 \<notin> set (butlast bs)" using Cons.prems(4) by (cases bs) auto
    ultimately obtain m' where m': "s2u_loop big (va + 1) bs (i + 1) m1 = Inr (Done (i + 1 + int (length bs)), m')" "cpu_ok m'"
      "mmu_view m' = mmu_view m1" "registers m' = registers m1" "map (mainMemory m') ps' = bs"
      "\<forall>q. q \<notin> set ps' \<longrightarrow> mainMemory m' q = mainMemory m1 q"
      using Cons.IH [OF m1(3), of "va + 1" ps' "i + 1"] Cons.prems(3) ps by auto
    have "mainMemory m' p = b" using m'(6) m1(5) Cons.prems(2) by (simp add: ps)
    with m' m1 False ps show ?thesis by (intro exI [of _ m']) (auto simp: algebra_simps)
  qed
qed simp

lemma u2s_reads:
  assumes "cpu_ok m" "mapped m va ps" "map (mainMemory m) ps = s @ [0]" "0 \<notin> set s" "length s \<le> n"
  shows "\<exists>m'. u2s_loop big va n m = Inr (Done s, m') \<and> mmu_view m' = mmu_view m \<and> registers m' = registers m \<and>
    mainMemory m' = mainMemory m"
  using assms
proof (induction n arbitrary: va ps s m)
  case 0
  then show ?case by auto
next
  case (Suc n)
  from Suc.prems(3) obtain p ps' where ps: "ps = p # ps'" by (cases ps) auto
  have ok: "mach_ok m" using Suc.prems(1) by (simp add: cpu_ok_def)
  have "translate_spec va 1 False m = Inr p" using mapped_read Suc.prems(2) by (simp add: ps)
  with ReadMem_ok [OF Suc.prems(1), where sz = 1 and addr = va and big = big] obtain m1 where
    m1: "ReadMem big va 1 m = Inr (Done (scast (mainMemory m p)), m1)" "mmu_view m1 = mmu_view m" "cpu_ok m1"
      "mainMemory m1 = mainMemory m" "registers m1 = registers m" by (auto simp: load_spec_def)
  show ?case
  proof (cases s)
    case Nil
    with Suc.prems(3) ps have "mainMemory m p = 0" by simp
    with m1 Nil show ?thesis by simp
  next
    case (Cons c s')
    with Suc.prems ps have c: "mainMemory m p = c" "c \<noteq> 0" "map (mainMemory m1) ps' = s' @ [0]" "0 \<notin> set s'" "length s' \<le> n"
      by (auto simp: m1(4))
    have "mapped m1 (va + 1) ps'" using Suc.prems(2) mapped_view [OF m1(2) ok] by (simp add: ps)
    from Suc.IH [OF m1(3) this c(3-5)] obtain m' where "u2s_loop big (va + 1) n m1 = Inr (Done s', m')" "mmu_view m' = mmu_view m1"
      "registers m' = registers m1" "mainMemory m' = mainMemory m1" by blast
    with m1 c Cons show ?thesis by (auto simp: scast_zero_iff ucast_scast)
  qed
qed

text \<open>C9. Strings survive the border between kernel and user memory: a C string that \<open>System2User\<close> copies, with its terminating
  zero, to mapped and writable addresses of the current program is what \<open>User2System\<close> reads there, for any limit that is at least the
  string's length. The copy reports the number of bytes, changes exactly the bytes at those addresses, and neither direction
  changes a register or the address translation.\<close>

theorem user_string_roundtrip:
  assumes "cpu_ok m" "mapped m va ps" "length ps = length s + 1" "0 \<notin> set s" "int (length s) \<le> sint limit" "sint limit < 2 ^ 31 - 1"
  shows "\<exists>m' m''. System2User big va (int (length s) + 1) (s @ 0 # rest) m = Inr (Done (int (length s) + 1), m') \<and>
    User2System big va limit m' = Inr (Done s, m'') \<and>
    (\<forall>q. q \<notin> set ps \<longrightarrow> mainMemory m' q = mainMemory m q) \<and> mainMemory m'' = mainMemory m' \<and>
    registers m'' = registers m \<and> mmu_view m'' = mmu_view m"
proof -
  have t: "take (nat (int (length s) + 1)) (s @ 0 # rest) = s @ [0]" by (simp add: nat_add_distrib)
  from s2u_writes [OF assms(1,2), of "s @ [0]" big 0] assms(3,4) obtain m' where
    m': "s2u_loop big va (s @ [0]) 0 m = Inr (Done (int (length s) + 1), m')" "cpu_ok m'" "mmu_view m' = mmu_view m"
      "registers m' = registers m" "map (mainMemory m') ps = s @ [0]" "\<forall>q. q \<notin> set ps \<longrightarrow> mainMemory m' q = mainMemory m q"
    by (auto simp: algebra_simps)
  have "mapped m' va ps" using mapped_view [OF m'(3)] assms(1,2) by (simp add: cpu_ok_def)
  from u2s_reads [OF m'(2) this m'(5) assms(4), of "nat (sint limit)" big] assms(5) obtain m'' where
    m'': "u2s_loop big va (nat (sint limit)) m' = Inr (Done s, m'')" "mmu_view m'' = mmu_view m'" "registers m'' = registers m'"
      "mainMemory m'' = mainMemory m'" by (auto simp: le_nat_iff)
  have "sint (limit + 1) = sint limit + 1" using sint_add [of limit 1] assms(5,6) by (simp add: wrap32_def)
  with assms(5) have "User2System big va limit m' = Inr (Done s, m'')" using m''(1) by (simp add: User2System_def)
  moreover have "System2User big va (int (length s) + 1) (s @ 0 # rest) m = Inr (Done (int (length s) + 1), m')"
    unfolding System2User_def t using m'(1) by simp
  ultimately show ?thesis using m' m'' by auto
qed

lemma demo_mapped: "mapped demo_machine 0x104 [2820, 2821, 2822]"
  by (simp add: translate_spec_def lookup_page_def aligned_def demo_defs)

theorem user_string_roundtrip_witness:
  "\<exists>m' m''. System2User False 0x104 3 [0x68, 0x69, 0] demo_machine = Inr (Done 3, m') \<and>
     User2System False 0x104 33 m' = Inr (Done [0x68, 0x69], m'')"
  using user_string_roundtrip [OF demo_ok demo_mapped, of "[0x68, 0x69]" 33 False "[]"] by auto

section \<open>Numbers\<close>

definition digit :: "8 word \<Rightarrow> bool" where
  "digit b = (48 \<le> sint b \<and> sint b \<le> 57)"

definition decimal :: "8 word list \<Rightarrow> 32 word \<Rightarrow> 32 word" where
  "decimal = fold (\<lambda>b res. res * 10 + (scast b - 48))"

lemma digit_char:
  assumes "0 \<le> d" "d < 10"
  shows "sint (word_of_int (d + 48) :: 8 word) = d + 48" "(scast (word_of_int (d + 48) :: 8 word) :: 32 word) - 48 = word_of_int d"
proof -
  show s: "sint (word_of_int (d + 48) :: 8 word) = d + 48"
    unfolding int_word_sint using assms by simp
  have "(scast (word_of_int (d + 48) :: 8 word) :: 32 word) = word_of_int (sint (word_of_int (d + 48) :: 8 word))"
    by (rule scast_eq)
  then show "(scast (word_of_int (d + 48) :: 8 word) :: 32 word) - 48 = word_of_int d" unfolding s by simp
qed

lemma of_sint: "word_of_int (sint (w :: 32 word)) = w"
  using scast_eq [of w] by (metis scast_id)

lemma count_digits_pos: "0 < n \<Longrightarrow> count_digits n = Suc (count_digits (n div 10))"
  by (subst count_digits.simps) (simp add: sdiv_nonneg)

lemma count_digits_bound: "0 \<le> n \<Longrightarrow> n < 10 ^ count_digits n"
proof (induction "nat n" arbitrary: n rule: less_induct)
  case less
  show ?case
  proof (cases "n = 0")
    case False
    with less.prems have "0 < n" by simp
    moreover have "n div 10 < 10 ^ count_digits (n div 10)"
      using less.prems False by (intro less.hyps) auto
    ultimately show ?thesis unfolding count_digits_pos [OF \<open>0 < n\<close>] by simp
  qed (simp add: count_digits.simps)
qed

lemma length_put_digits [simp]: "length (put_digits k n) = k"
  by (induction k arbitrary: n) simp_all

lemma put_digits_decimal:
  assumes "0 \<le> n" "n < 10 ^ k"
  shows "decimal (put_digits k n) 0 = word_of_int n \<and> list_all digit (put_digits k n)"
  using assms
proof (induction k arbitrary: n)
  case (Suc k)
  have d: "0 \<le> n mod 10" "n mod 10 < 10" by simp_all
  have "n div 10 < 10 ^ k" using Suc.prems by simp
  with Suc.IH [of "n div 10"] Suc.prems have
    i: "decimal (put_digits k (n div 10)) 0 = word_of_int (n div 10)" "list_all digit (put_digits k (n div 10))" by simp_all
  have "decimal (put_digits (Suc k) n) 0 = word_of_int (n div 10) * 10 + word_of_int (n mod 10)"
    using i(1) digit_char(2) [OF d] Suc.prems(1) by (simp add: decimal_def sdiv_nonneg smod_nonneg)
  also have "\<dots> = (word_of_int (n div 10 * 10 + n mod 10) :: 32 word)" by (simp only: wi_hom_syms) simp
  finally have "decimal (put_digits (Suc k) n) 0 = word_of_int n" by simp
  moreover have "digit (word_of_int (n mod 10 + 48))" using digit_char(1) [OF d] d by (simp add: digit_def)
  ultimately show ?case using i(2) Suc.prems(1) by (simp add: sdiv_nonneg smod_nonneg)
next
  case 0
  then have "n = 0" by simp
  then show ?case by (simp add: decimal_def)
qed

lemma parse_digits:
  assumes "list_all digit ds" "ds \<noteq> []"
  shows "parse_int (ds @ rest) (int (length ds)) = decimal ds 0"
proof -
  have nth: "(ds @ rest) ! i = ds ! i" if "i < length ds" for i using that by (simp add: nth_append)
  have dig: "digit (ds ! i)" if "i < length ds" for i using assms(1) that by (simp add: list_all_length)
  have "(ds @ rest) ! 0 \<noteq> 0x2d" using dig [of 0] assms(2) nth [of 0] by (auto simp: digit_def)
  moreover have "\<not> list_ex (\<lambda>i. sint ((ds @ rest) ! i) < 48 \<or> sint ((ds @ rest) ! i) > 57) [0..<length ds]"
    using dig nth by (auto simp: list_ex_iff digit_def not_less)
  moreover have "fold (\<lambda>i res. res * 10 + (scast ((ds @ rest) ! i) - 48)) [0..<length ds] 0 = decimal ds (0 :: 32 word)"
  proof -
    have "map ((!) (ds @ rest)) [0..<length ds] = ds" by (rule nth_equalityI) (simp_all add: nth)
    then have "decimal ds 0 = fold (\<lambda>b res. res * 10 + (scast b - 48)) (map ((!) (ds @ rest)) [0..<length ds]) (0 :: 32 word)"
      by (simp add: decimal_def)
    then show ?thesis by (simp add: fold_map comp_def)
  qed
  moreover have "nat (int (length ds)) - 1 + 1 = length ds" using assms(2) by (cases ds) simp_all
  ultimately show ?thesis using assms(2) by (simp add: parse_int_def Let_def del: upt_Suc)
qed

text \<open>C11. Numbers round trip through the console: for every number that is not negative, what \<open>PrintInt\<close> writes is a line of digits
  only, and \<open>ReadInt\<close> of that line, whatever the rest of its buffer holds, is the number.\<close>

theorem print_read_int_roundtrip:
  assumes "0 \<le> sint num"
  shows "\<exists>ds. print_int junk num = (ds, False) \<and> list_all digit ds \<and> parse_int (ds @ rest) (int (length ds)) = num"
proof (cases "num = 0")
  case True
  have "list_all digit [0x30]" by (simp add: digit_def)
  with parse_digits [of "[0x30]" rest] True show ?thesis by (auto simp: print_int_def decimal_def)
next
  case False
  then have "0 < sint num" using assms by (metis less_le of_sint word_of_int_0)
  let ?ds = "put_digits (count_digits (sint num)) (sint num)"
  note d = put_digits_decimal [OF assms count_digits_bound [OF assms]]
  have "?ds \<noteq> []" using count_digits_pos [OF \<open>0 < sint num\<close>] by (metis length_put_digits list.size(3) nat.distinct(1))
  with d parse_digits [of ?ds rest] have "parse_int (?ds @ rest) (int (length ?ds)) = num" by (metis of_sint)
  moreover have "print_int junk num = (?ds, False)"
    using False \<open>0 < sint num\<close> by (simp add: print_int_def Let_def)
  ultimately show ?thesis using d by blast
qed

theorem print_read_int_roundtrip_witness:
  "\<exists>ds. print_int (\<lambda>_. 0) 1307 = (ds, False) \<and> parse_int (ds @ [0, 0]) (int (length ds)) = 1307"
  using print_read_int_roundtrip [of 1307 "\<lambda>_. 0" "[0, 0]"] by auto

end
