(* ===== verification/UserKernel.thy ===== *)
theory UserKernel
  imports Syscalls
begin

text \<open>
  The whole system: user programs, their system calls and the kernel below. Every action of theory \<open>Syscalls\<close> meets the contract
  of \<open>driver_clients\<close>, so that the facts about threads, semaphores and interrupts hold while user programs run.
  \<open>keeps P r\<close> says that a system call that returns leaves a state with \<open>P\<close> and pushes frames that a thread may have.
\<close>

section \<open>Partial correctness of a fallible call\<close>

definition post :: "('a \<Rightarrow> bool) \<Rightarrow> 'a res \<Rightarrow> bool" where
  "post Q r = (\<forall>x. r = Inr x \<longrightarrow> Q x)"

lemma postD: "post Q r \<Longrightarrow> r = Inr x \<Longrightarrow> Q x"
  by (simp add: post_def)

lemma post_simps [simp]: "post Q (Inl e)" "post Q (Inr x) = Q x" "post Q (ASSERT c r) = (c \<longrightarrow> post Q r)"
  by (simp_all add: post_def ASSERT_def)

lemma post_bind: "(\<And>x. r = Inr x \<Longrightarrow> post Q (f x)) \<Longrightarrow> post Q (res_bind r f)"
  by (auto simp: post_def res_bind_Inr_iff)

lemma post_bindI: "post R r \<Longrightarrow> (\<And>x. R x \<Longrightarrow> post Q (f x)) \<Longrightarrow> post Q (res_bind r f)"
  by (auto simp: post_def res_bind_Inr_iff)

section \<open>The delayed load stays in range\<close>

text \<open>Every way out of an instruction sets \<open>LoadReg\<close>: to the instruction's target, or to zero in an exception.\<close>

definition loads_ok :: "exec_res \<Rightarrow> bool" where
  "loads_ok r = (\<forall>t m. r = Inr (t, m) \<longrightarrow> (case t of Done (lr, lv, pc) \<Rightarrow> lr < 32 | Trap ex \<Rightarrow> registers m LoadReg = 0))"

definition traps_ok :: "('a trapped \<times> Machine) res \<Rightarrow> bool" where
  "traps_ok r = (\<forall>ex m. r = Inr (Trap ex, m) \<longrightarrow> registers m LoadReg = 0)"

lemma DelayedLoad_reg: "DelayedLoad r v m = Inr m' \<Longrightarrow> registers m' LoadReg = r"
  by (auto simp: DelayedLoad_def Let_def split: if_splits)

lemma raise_traps_ok [simp]: "traps_ok (RaiseException ex a m)"
  by (auto simp: traps_ok_def RaiseException_def res_bind_Inr_iff dest: DelayedLoad_reg)

lemma raise_loads_ok [simp]: "loads_ok (RaiseException ex a m)"
  by (auto simp: loads_ok_def RaiseException_def res_bind_Inr_iff dest: DelayedLoad_reg)

lemma traps_ok_intros [simp]: "traps_ok (Inl e)" "traps_ok (Inr (Done x, m))"
  by (simp_all add: traps_ok_def)

lemma traps_ok_bind: "(\<And>x. traps_ok (f x)) \<Longrightarrow> traps_ok (res_bind r f)"
  unfolding traps_ok_def res_bind_Inr_iff by blast

lemma ReadMem_traps_ok [simp]: "traps_ok (ReadMem big a sz m)"
  by (auto simp: ReadMem_def Let_def intro!: traps_ok_bind split: sum.splits)

lemma WriteMem_traps_ok [simp]: "traps_ok (WriteMem big a sz v m)"
  by (auto simp: WriteMem_def Let_def intro!: traps_ok_bind split: sum.splits)

lemma mem_then_Inr_iff:
  "mem_then r f = Inr (t, m') \<longleftrightarrow>
     (\<exists>x m. r = Inr (Done x, m) \<and> f x m = Inr (t, m')) \<or> (\<exists>ex. r = Inr (Trap ex, m') \<and> t = Trap ex)"
  by (cases r) (auto simp: mem_then_def split: trapped.splits)

lemma mem_then_loads_ok: "traps_ok r \<Longrightarrow> (\<And>x m. loads_ok (f x m)) \<Longrightarrow> loads_ok (mem_then r f)"
  unfolding loads_ok_def traps_ok_def mem_then_Inr_iff by fastforce

lemma loads_ok_intros [simp]:
  "loads_ok (Inl e)" "loads_ok (go_on pc m)" "r < 32 \<Longrightarrow> loads_ok (Inr (Done (r, v, pc), m))"
  "loads_ok (ASSERT c e') = (c \<longrightarrow> loads_ok e')"
  by (auto simp: loads_ok_def go_on_def ASSERT_def)

lemma op_loads [simp]:
  assumes "rt i < 32"
  shows "loads_ok (op_lb big i pc m)" "loads_ok (op_lh big i pc m)" "loads_ok (op_lw big i pc m)"
    "loads_ok (op_lwl big i pc m)" "loads_ok (op_lwr big i pc m)"
  using assms
  by (auto simp: op_lb_def op_lh_def op_lw_def op_lwl_def op_lwr_def Let_def word_of_reg intro!: mem_then_loads_ok)

lemma op_others [simp]:
  "loads_ok (op_add i pc m)" "loads_ok (op_addi i pc m)" "loads_ok (op_sub i pc m)" "loads_ok (op_div i pc m)"
  "loads_ok (op_divu i pc m)" "loads_ok (op_mult sg i pc m)" "loads_ok (op_store big sz i pc m)"
  "loads_ok (op_swl big i pc m)" "loads_ok (op_swr big i pc m)" "loads_ok (branch_if c i pc m)"
  by (auto simp: op_add_def op_addi_def op_sub_def op_div_def op_divu_def op_mult_def op_store_def op_swl_def op_swr_def
      branch_if_def Let_def case_prod_unfold intro!: mem_then_loads_ok)

lemma exec_a_loads_ok: "rt i < 32 \<Longrightarrow> loads_ok (exec_a big i pc m)"
  by (cases "opCode i") (simp_all add: exec_a_def exec_b_def exec_c_def Let_def)

lemma OneInstruction_regs:
  assumes "OneInstruction big m = Inr (t, m')"
  shows "regs_ok (registers m')"
proof -
  have trap: "regs_ok (registers m')" if "registers m' LoadReg = 0" using that by (simp add: regs_ok_def)
  show ?thesis
  proof (cases "\<exists>ex. ReadMem big (registers m PCReg) 4 m = Inr (Trap ex, m')")
    case True
    then have "registers m' LoadReg = 0" using ReadMem_traps_ok [of big "registers m PCReg" 4 m] unfolding traps_ok_def by blast
    then show ?thesis by (rule trap)
  next
    case False
    with assms obtain raw m1 where
      r: "mem_then (exec_a big (Decode raw) (registers m1 NextPCReg + 4) m1)
            (\<lambda>(lr, lv, pc') m2. finish_instr lr lv pc' m2) = Inr (t, m')"
      unfolding OneInstruction_def mem_then_Inr_iff [of "ReadMem _ _ _ _"] Let_def by blast
    have l: "loads_ok (exec_a big (Decode raw) (registers m1 NextPCReg + 4) m1)" by (rule exec_a_loads_ok [OF Decode_regs(2)])
    from r obtain t2 m2 where e: "exec_a big (Decode raw) (registers m1 NextPCReg + 4) m1 = Inr (t2, m2)"
      and c: "(case t2 of Done x \<Rightarrow> (\<lambda>(lr, lv, pc') m2. finish_instr lr lv pc' m2) x m2 | Trap ex \<Rightarrow> Inr (Trap ex, m2)) = Inr (t, m')"
      unfolding mem_then_def res_bind_Inr_iff by auto
    show ?thesis
    proof (cases t2)
      case (Trap ex)
      with l e c trap show ?thesis by (simp add: loads_ok_def)
    next
      case (Done x)
      obtain lr lv pc where x: "x = (lr, lv, pc)" by (cases x)
      from l e Done x have "lr < 32" by (simp add: loads_ok_def)
      moreover from c Done x obtain m3 where "DelayedLoad lr lv m2 = Inr m3" "registers m' LoadReg = registers m3 LoadReg"
        by (auto simp: finish_instr_def res_bind_Inr_iff Let_def)
      ultimately show ?thesis using DelayedLoad_reg [of lr lv m2 m3] by (simp add: regs_ok_def word_less_nat_alt)
    qed
  qed
qed

lemma find_entry_regs: "find_entry vpn m = Inr (Inr (e, put)) \<Longrightarrow> registers (put e') = registers m"
  by (auto simp: find_entry_def split: if_splits option.splits)

lemma Translate_regs: "Translate a sz w m = Inr (r, m') \<Longrightarrow> registers m' = registers m"
proof -
  have "post (\<lambda>(r, m'). registers m' = registers m) (Translate a sz w m)"
    unfolding Translate_def
    by (auto simp: Let_def find_entry_regs split: sum.split intro!: post_bind)
  then show "Translate a sz w m = Inr (r, m') \<Longrightarrow> registers m' = registers m" by (auto dest: postD)
qed

lemma raise_regs: "RaiseException ex a m = Inr (t, m') \<Longrightarrow> regs_ok (registers m')"
  by (auto simp: RaiseException_def res_bind_Inr_iff regs_ok_def dest: DelayedLoad_reg)

lemma ReadMem_regs:
  assumes "ReadMem big a sz m = Inr (t, m')" "regs_ok (registers m)" shows "regs_ok (registers m')"
proof -
  from assms(1) obtain r m1 where r: "Translate a sz False m = Inr (r, m1)"
    by (auto simp: ReadMem_def res_bind_Inr_iff)
  with assms show ?thesis using Translate_regs [OF r] raise_regs [of _ a m1 t m']
    by (cases r) (auto simp: ReadMem_def Let_def split: if_splits)
qed

lemma WriteMem_regs:
  assumes "WriteMem big a sz v m = Inr (t, m')" "regs_ok (registers m)" shows "regs_ok (registers m')"
proof -
  from assms(1) obtain r m1 where r: "Translate a sz True m = Inr (r, m1)"
    by (auto simp: WriteMem_def res_bind_Inr_iff)
  with assms show ?thesis using Translate_regs [OF r] raise_regs [of _ a m1 t m']
    by (cases r) (auto simp: WriteMem_def Let_def split: if_splits)
qed

lemma ReadMem_post: "regs_ok (registers m) \<Longrightarrow> post (\<lambda>x. regs_ok (registers (snd x))) (ReadMem big a sz m)"
  unfolding post_def using ReadMem_regs by (metis prod.collapse)

lemma u2s_post: "regs_ok (registers m) \<Longrightarrow> post (\<lambda>x. regs_ok (registers (snd x))) (u2s_loop big va n m)"
proof (induction n arbitrary: va m)
  case (Suc n)
  show ?case unfolding u2s_loop.simps case_prod_unfold
    by (rule post_bindI [OF ReadMem_post [OF Suc.prems]])
      (auto split: trapped.split intro!: post_bindI [OF Suc.IH])
qed simp

lemma u2s_regs: "u2s_loop big va n m = Inr (t, m') \<Longrightarrow> regs_ok (registers m) \<Longrightarrow> regs_ok (registers m')"
  using postD [OF u2s_post] by fastforce

lemma User2System_regs: "User2System big va n m = Inr (t, m') \<Longrightarrow> regs_ok (registers m) \<Longrightarrow> regs_ok (registers m')"
  by (auto simp: User2System_def split: if_splits intro: u2s_regs)

lemma s2u_regs: "s2u_loop big va bs i m = Inr (t, m') \<Longrightarrow> regs_ok (registers m) \<Longrightarrow> regs_ok (registers m')"
proof (induction bs arbitrary: va i m)
  case (Cons b bs)
  from Cons.prems(1) obtain r m1 where r: "WriteMem big va 1 (scast b) m = Inr (r, m1)" by (auto simp: res_bind_Inr_iff)
  have ok: "regs_ok (registers m1)" by (rule WriteMem_regs [OF r Cons.prems(2)])
  with Cons r show ?case by (cases r) (auto split: if_splits)
qed simp

lemma System2User_regs: "System2User big va n bs m = Inr (t, m') \<Longrightarrow> regs_ok (registers m) \<Longrightarrow> regs_ok (registers m')"
  by (auto simp: System2User_def split: if_splits intro: s2u_regs)

lemma WriteRegister_regs:
  "WriteRegister n v m = Inr m' \<Longrightarrow> regs_ok (registers m) \<Longrightarrow> n \<noteq> int LoadReg \<or> unat v < NumTotalRegs \<Longrightarrow> regs_ok (registers m')"
  by (auto simp: WriteRegister_def ASSERT_Inr_iff regs_ok_def split: if_splits)

lemma IncreasePC_regs: "IncreasePC m = Inr m' \<Longrightarrow> regs_ok (registers m) \<Longrightarrow> regs_ok (registers m')"
  unfolding IncreasePC_def res_bind_Inr_iff by (elim exE conjE) (simp add: WriteRegister_def ASSERT_Inr_iff regs_ok_def, force)

lemma InitRegisters_regs:
  assumes "InitRegisters sp m = Inr m'" "regs_ok (registers m)"
  shows "regs_ok (registers m')"
proof -
  have "res_fold (\<lambda>i. WriteRegister i 0) ns m1 = Inr m2 \<Longrightarrow> regs_ok (registers m1) \<Longrightarrow> regs_ok (registers m2)" for ns m1 m2
    by (induction ns arbitrary: m1) (auto simp: res_bind_Inr_iff dest!: WriteRegister_regs)
  with assms show ?thesis unfolding InitRegisters_def res_bind_Inr_iff
    by (elim exE conjE) (force intro: WriteRegister_regs)
qed

section \<open>The tables of the kernel\<close>

text \<open>No two processes share a control block.\<close>

definition own_pcbs :: "nat option list \<Rightarrow> bool" where
  "own_pcbs ps = (\<forall>i < length ps. \<forall>j < length ps. ps ! i = ps ! j \<and> ps ! i \<noteq> None \<longrightarrow> i = j)"

definition pt_ok :: "PTable \<Rightarrow> bool" where
  "pt_ok t = (bm_ok (pt_bm t) \<and> bm_cap (pt_bm t) = MAX_PROCESS \<and> length (pcbs t) = MAX_PROCESS \<and>
     (\<forall>a p. pcb_heap t a = Some p \<longrightarrow> a < pcb_next t \<and> length (FileName p) < 32 \<and> exitcode p = 0) \<and>
     (\<forall>a. Some a \<in> set (pcbs t) \<longrightarrow> a < pcb_next t) \<and>
     own_pcbs (pcbs t))"

definition ft_ok :: "FileSystem \<Rightarrow> bool" where
  "ft_ok fs = (length (openfile fs) = 15 \<and>
     (\<forall>f. Some f \<in> set (openfile fs) \<longrightarrow> ufiles fs (of_name f) \<noteq> None \<and> of_type f \<in> {0, 1, 2, 3}))"

definition sys_wf :: "Sys \<Rightarrow> bool" where
  "sys_wf k = (ft_ok (fileSystem k) \<and> st_ok (semTable k) \<and> pt_ok (pTab k) \<and> bm_ok (phys_map k) \<and> bm_cap (phys_map k) = 256)"

text \<open>\<open>fine W k\<close>: the thread that runs is between two frames of its stack, and the tables are in order if \<open>W\<close>.\<close>

definition fine :: "bool \<Rightarrow> Sys \<Rightarrow> bool" where
  "fine W k = (kinv k \<and> running k \<and> (W \<longrightarrow> sys_wf k))"

definition keeps :: "bool \<Rightarrow> (sframes \<times> Sys) res \<Rightarrow> bool" where
  "keeps W = post (\<lambda>(fs, k). fine W k \<and> list_all plain fs)"

lemma fine_view:
  assumes "fine W k" "tview k' = tview k" "currentThread k' = currentThread k" "pending k' = pending k" "now k' = now k"
    "inHandler k' = inHandler k" "status k' \<noteq> IdleMode" "\<forall>m. machine k' = Some m \<longrightarrow> regs_ok (registers m)"
    "machine k \<noteq> None \<longrightarrow> machine k' \<noteq> None" "W \<longrightarrow> sys_wf k'"
  shows "fine W k'"
proof -
  have k: "kinv k" "running k" using assms(1) by (simp_all add: fine_def)
  have th: "threads k' = threads k" using assms(2) by (simp add: tview_def)
  have r: "running k'" using k(2) assms(3) th by (simp add: running_def)
  have "tinv (Some (currentThread k')) k'" using k(1) assms(3) tinv_cong [OF assms(2)] by (simp add: kinv_def)
  moreover have "cpu_inv k'" using k(1) assms(8,9) th unfolding kinv_def cpu_inv_def saved_ok_def by metis
  moreover have "pending_ok k'" using k(1) assms(4,5) by (simp add: kinv_def pending_ok_def)
  ultimately have "hinv k'" using k(1) assms(6) by (simp add: hinv_def kinv_def)
  with r assms(7,10) show ?thesis by (simp add: fine_def kinv_running_iff)
qed

lemma fine_regs: "fine W k \<Longrightarrow> machine k = Some m \<Longrightarrow> regs_ok (registers m)"
  by (simp add: fine_def kinv_def cpu_inv_def)

lemma fine_status: "fine W k \<Longrightarrow> status k \<noteq> IdleMode"
  by (simp add: fine_def kinv_def)

lemma fine_wf: "fine W k \<Longrightarrow> W \<Longrightarrow> sys_wf k"
  by (simp add: fine_def)

lemma fine_machine:
  assumes "fine W k" "regs_ok (registers m)"
  shows "fine W (k\<lparr>machine := Some m\<rparr>)"
  using fine_status [OF assms(1)] fine_wf [OF assms(1)] assms(2)
  by (intro fine_view [OF assms(1)]) (auto simp: tview_def sys_wf_def)

lemma fine_quiet:
  assumes "fine W k"
  shows "fine W (k\<lparr>halted := h\<rparr>)" "fine W (k\<lparr>thread_name := ns\<rparr>)" "fine W (k\<lparr>te_fresh := a\<rparr>)" "fine W (k\<lparr>next_sem := s\<rparr>)"
    "st \<noteq> IdleMode \<Longrightarrow> fine W (k\<lparr>status := st\<rparr>)" "(\<And>s. sem_queue (f s) = sem_queue (sems k s)) \<Longrightarrow> fine W (k\<lparr>sems := f\<rparr>)"
  using fine_status [OF assms] fine_wf [OF assms] fine_regs [OF assms]
  by (auto simp: tview_def sys_wf_def intro!: fine_view [OF assms])

lemma fine_tables:
  assumes "fine W k"
  shows "(W \<Longrightarrow> ft_ok (fileSystem k) \<Longrightarrow> ft_ok fs) \<Longrightarrow> fine W (k\<lparr>fileSystem := fs\<rparr>)"
    "(W \<Longrightarrow> st_ok (semTable k) \<Longrightarrow> st_ok st) \<Longrightarrow> fine W (k\<lparr>semTable := st\<rparr>)"
    "(W \<Longrightarrow> pt_ok (pTab k) \<Longrightarrow> pt_ok pt) \<Longrightarrow> fine W (k\<lparr>pTab := pt\<rparr>)"
    "(W \<Longrightarrow> bm_ok (phys_map k) \<Longrightarrow> bm_cap (phys_map k) = 256 \<Longrightarrow> bm_ok b \<and> bm_cap b = 256) \<Longrightarrow> fine W (k\<lparr>phys_map := b\<rparr>)"
  using fine_status [OF assms] fine_wf [OF assms] fine_regs [OF assms]
  by (auto simp: tview_def sys_wf_def intro!: fine_view [OF assms])

lemma new_semaphore_fine: "fine W k \<Longrightarrow> fine W (snd (new_semaphore v k))"
  unfolding new_semaphore_def by (auto intro!: fine_quiet)

section \<open>Rules for system calls\<close>

lemma keeps_simps [simp]: "keeps W (Inl e)" "keeps W (Inr (fs, k)) = (fine W k \<and> list_all plain fs)"
  "keeps W (ASSERT c r) = (c \<longrightarrow> keeps W r)"
  by (simp_all add: keeps_def)

lemma keeps_bind: "(\<And>x. r = Inr x \<Longrightarrow> keeps W (f x)) \<Longrightarrow> keeps W (res_bind r f)"
  unfolding keeps_def by (rule post_bind)

lemma keeps_bindI: "post R r \<Longrightarrow> (\<And>x. R x \<Longrightarrow> keeps W (f x)) \<Longrightarrow> keeps W (res_bind r f)"
  unfolding keeps_def by (rule post_bindI)

lemma keeps_append: "keeps W r \<Longrightarrow> list_all plain gs \<Longrightarrow> keeps W (res_bind r (\<lambda>(fs, k). Inr (fs @ gs, k)))"
  unfolding keeps_def by (erule post_bindI) auto

lemma keeps_machine: "fine W k \<Longrightarrow> (\<And>m. machine k = Some m \<Longrightarrow> regs_ok (registers m) \<Longrightarrow> keeps W (f m)) \<Longrightarrow> keeps W (with_machine k f)"
  by (auto simp: with_machine_def fine_regs split: option.split)

lemma keeps_read_reg: "(\<And>v. keeps W (f v)) \<Longrightarrow> keeps W (read_reg n k f)"
  by (auto simp: read_reg_def with_machine_def split: option.split intro!: keeps_bind)

lemma keeps_deref: "(\<And>x. threads k t = Some x \<Longrightarrow> keeps W (f x)) \<Longrightarrow> keeps W (deref t k f)"
  by (auto simp: deref_def split: option.split)

lemma keeps_option:
  "(x = None \<Longrightarrow> keeps W a) \<Longrightarrow> (\<And>y. x = Some y \<Longrightarrow> keeps W (b y)) \<Longrightarrow> keeps W (case x of None \<Rightarrow> a | Some y \<Rightarrow> b y)"
  by (cases x) simp_all

lemma keeps_processID: "(\<And>i. keeps W (f i)) \<Longrightarrow> keeps W (processID_of k f)"
  unfolding processID_of_def by (rule keeps_deref)

lemma keeps_result: "fine W k \<Longrightarrow> keeps W (result v k)"
  unfolding result_def
proof (rule keeps_machine, assumption, rule keeps_bind)
  fix m m'
  assume "fine W k" "regs_ok (registers m)" "WriteRegister 2 v m = Inr m'"
  then show "keeps W (Inr ([], k\<lparr>machine := Some m'\<rparr>))" using WriteRegister_regs [of 2 v m m'] by (simp add: fine_machine)
qed

lemma Halt_fine: "fine W k \<Longrightarrow> keeps W (Inr (Halt k))"
  by (simp add: Halt_def fine_quiet)

lemma fatal_keeps: "fine W k \<Longrightarrow> keeps W (fatal_exception e k)"
  unfolding fatal_exception_def by (rule Halt_fine)

lemma keeps_user2system:
  assumes "fine W k" "\<And>s m. fine W (k\<lparr>machine := Some m\<rparr>) \<Longrightarrow> keeps W (f s (k\<lparr>machine := Some m\<rparr>))"
  shows "keeps W (user2system va n k f)"
  unfolding user2system_def
proof (rule keeps_machine [OF assms(1)], rule keeps_bind, clarify)
  fix m t m'
  assume r: "regs_ok (registers m)" "User2System (big_endian k) va n m = Inr (t, m')"
  show "keeps W (case t of Done s \<Rightarrow> f s (k\<lparr>machine := Some m'\<rparr>) | Trap e \<Rightarrow> fatal_exception e (k\<lparr>machine := Some m'\<rparr>))"
    using fine_machine [OF assms(1) User2System_regs [OF r(2,1)]] by (auto intro!: fatal_keeps assms(2) split: trapped.split)
qed

lemma keeps_system2user:
  assumes "fine W k" "\<And>m. fine W (k\<lparr>machine := Some m\<rparr>) \<Longrightarrow> keeps W (f (k\<lparr>machine := Some m\<rparr>))"
  shows "keeps W (system2user va n bs k f)"
  unfolding system2user_def
proof (rule keeps_machine [OF assms(1)], rule keeps_bind, clarify)
  fix m t m'
  assume r: "regs_ok (registers m)" "System2User (big_endian k) va n bs m = Inr (t, m')"
  show "keeps W (case t of Done s \<Rightarrow> f (k\<lparr>machine := Some m'\<rparr>) | Trap e \<Rightarrow> fatal_exception e (k\<lparr>machine := Some m'\<rparr>))"
    using fine_machine [OF assms(1) System2User_regs [OF r(2,1)]] by (auto intro!: fatal_keeps assms(2) split: trapped.split)
qed

lemmas keeps_rules = keeps_read_reg keeps_result keeps_user2system keeps_system2user keeps_processID

section \<open>Every system call keeps the invariant\<close>

lemma console_calls_keep:
  assumes "fine W k"
  shows "keeps W (SubFunction k)" "keeps W (ReadIntFunction k)" "keeps W (PrintIntFunction k)" "keeps W (ReadCharFunction k)"
    "keeps W (read_char_end k)" "keeps W (PrintCharFunction k)" "keeps W (ReadStringFunction k)" "keeps W (read_string_end va len k)"
    "keeps W (PrintStringFunction k)"
  using assms
  by (auto simp: SubFunction_def ReadIntFunction_def PrintIntFunction_def ReadCharFunction_def read_char_end_def PrintCharFunction_def
      ReadStringFunction_def read_string_end_def PrintStringFunction_def Let_def case_prod_unfold intro!: keeps_rules)

text \<open>The table of open files.\<close>

lemma set_file_ft:
  assumes "ft_ok fs" "\<And>g. f = Some g \<Longrightarrow> ufiles fs (of_name g) \<noteq> None \<and> of_type g \<in> {0, 1, 2, 3}"
  shows "ft_ok (set_file i f fs)"
  using assms by (auto simp: ft_ok_def set_file_def dest!: set_update_subset_insert [THEN subsetD])

lemma open_file_ft:
  assumes "open_file i k = Some f" "ft_ok (fileSystem k)"
  shows "ufiles (fileSystem k) (of_name f) \<noteq> None \<and> of_type f \<in> {0, 1, 2, 3}"
proof -
  have "nat i < 15" "openfile (fileSystem k) ! nat i = Some f" using assms(1) by (auto simp: open_file_def split: if_splits)
  then have "Some f \<in> set (openfile (fileSystem k))" using assms(2) unfolding ft_ok_def by (metis nth_mem)
  with assms(2) show ?thesis by (simp add: ft_ok_def)
qed

text \<open>The operations on an open file change its position only.\<close>

definition same_file :: "OpenFile \<Rightarrow> OpenFile \<Rightarrow> bool" where
  "same_file f g = (of_name g = of_name f \<and> of_type g = of_type f)"

lemma file_ops_same:
  "post (\<lambda>(n, bs, g). same_file f g) (OpenFile_Read c n f)" "post (\<lambda>(n, c', g). same_file f g) (OpenFile_Write c bs n f)"
  "post (\<lambda>(n, g). same_file f g) (OpenFile_Length c f)" "post (\<lambda>(n, g). same_file f g) (OpenFile_Seek c pos f)"
  "same_file f (snd (GetCurrentPos f))"
  by (auto simp: OpenFile_Read_def OpenFile_Write_def OpenFile_Length_def OpenFile_Seek_def OpenFile_readAt_def OpenFile_writeAt_def
      Lseek_def ReadPartial_def WriteFile_def GetCurrentPos_def same_file_def Let_def post_def res_bind_Inr_iff ASSERT_Inr_iff)

lemma CreateFile_keeps: "fine W k \<Longrightarrow> keeps W (CreateFileFunction k)"
  unfolding CreateFileFunction_def
  by (auto intro!: keeps_rules keeps_bind fine_tables(1)
      simp: FileSystem_Create_def OpenForWrite_def res_bind_Inr_iff ASSERT_Inr_iff ft_ok_def)

lemma Open_keeps: "fine W k \<Longrightarrow> keeps W (OpenFunction k)"
  unfolding OpenFunction_def Let_def
  by (auto intro!: keeps_rules fine_tables(1) set_file_ft simp: FileSystem_Open_def OpenForReadWrite_def OpenFile_new_def split: if_splits)

lemma Close_keeps: "fine W k \<Longrightarrow> keeps W (CloseFunction k)"
  unfolding CloseFunction_def Let_def
  by (auto intro!: keeps_rules fine_tables(1) set_file_ft)

text \<open>What \<open>Read\<close>, \<open>Write\<close> and \<open>Seek\<close> know about the file they found.\<close>

definition known :: "bool \<Rightarrow> FileSystem \<Rightarrow> OpenFile \<Rightarrow> bool" where
  "known W fs f = (W \<longrightarrow> ufiles fs (of_name f) \<noteq> None \<and> of_type f \<in> {0, 1, 2, 3})"

lemma known_open: "fine W k \<Longrightarrow> open_file i k = Some f \<Longrightarrow> known W (fileSystem k) f"
  using open_file_ft [of i k f] fine_wf [of W k] by (auto simp: known_def sys_wf_def)

lemma known_same: "known W fs f \<Longrightarrow> same_file f g \<Longrightarrow> known W fs g"
  by (simp add: known_def same_file_def)

lemma known_set_file [simp]: "known W (set_file i f fs) g = known W fs g"
  by (simp add: known_def set_file_def)

lemma known_write [simp]: "known W fs g \<Longrightarrow> known W (fs\<lparr>ufiles := (ufiles fs)(n \<mapsto> c)\<rparr>) g"
  by (auto simp: known_def)

lemma put_file_fine: "fine W k \<Longrightarrow> known W (fileSystem k) g \<Longrightarrow> fine W (k\<lparr>fileSystem := set_file i (Some g) (fileSystem k)\<rparr>)"
  by (rule fine_tables(1)) (auto intro!: set_file_ft simp: known_def)

lemma write_file_fine:
  assumes "fine W k" "known W (fileSystem k) g"
  shows "fine W (k\<lparr>fileSystem := set_file i (Some g) ((fileSystem k)\<lparr>ufiles := (ufiles (fileSystem k))(n \<mapsto> c)\<rparr>)\<rparr>)"
  using assms(2) by (intro fine_tables(1) [OF assms(1)] set_file_ft) (auto simp: known_def ft_ok_def)

lemma keeps_user2system_files:
  assumes "fine W k" "\<And>s k1. fine W k1 \<Longrightarrow> fileSystem k1 = fileSystem k \<Longrightarrow> keeps W (f s k1)"
  shows "keeps W (user2system va n k f)"
  using assms by (intro keeps_user2system) simp_all

lemma Read_keeps:
  assumes k: "fine W k"
  shows "keeps W (ReadFunction k)"
proof -
  have "keeps W (let (oldPos, f1) = GetCurrentPos f; k0 = k\<lparr>fileSystem := set_file (nat i) (Some f1) (fileSystem k)\<rparr> in
           user2system va charcount k0 (\<lambda>_ k1.
             if of_type f1 = 2
             then Inr ([FAct (ARead (currentThread k1) (nat (sint charcount))), ucall (UReadStdin va)], k1)
             else res_bind (OpenFile_Read (contents f1 (fileSystem k1)) (sint charcount) f1) (\<lambda>(n, bs, f2).
               if n > 0
               then let (newPos, f3) = GetCurrentPos f2 in
                    system2user va (newPos - oldPos) bs (k1\<lparr>fileSystem := set_file (nat i) (Some f3) (fileSystem k1)\<rparr>)
                      (result (word_of_int (newPos - oldPos)))
               else result (-2) (k1\<lparr>fileSystem := set_file (nat i) (Some f2) (fileSystem k1)\<rparr>))))"
    if "open_file i k = Some f" for f i va charcount
  proof -
    let ?f1 = "snd (GetCurrentPos f)"
    have f1: "known W (fileSystem k) ?f1" by (rule known_same [OF known_open [OF k that] file_ops_same(5)])
    have f2: "known W fs f2 \<and> known W fs (snd (GetCurrentPos f2))"
      if "known W fs ?f1" "same_file ?f1 f2" for fs f2
      using that known_same file_ops_same(5) by blast
    show ?thesis unfolding Let_def case_prod_unfold
    proof (rule keeps_user2system_files)
      fix s k1
      assume "fine W k1" "fileSystem k1 = fileSystem (k\<lparr>fileSystem := set_file (nat i) (Some ?f1) (fileSystem k)\<rparr>)"
      with f1 have k1: "fine W k1" "known W (fileSystem k1) ?f1" by simp_all
      then show "keeps W (if of_type ?f1 = 2 then Inr ([FAct (ARead (currentThread k1) (nat (sint charcount))), ucall (UReadStdin va)], k1)
          else res_bind (OpenFile_Read (contents ?f1 (fileSystem k1)) (sint charcount) ?f1) (\<lambda>r.
            if 0 < fst r
            then system2user va (fst (GetCurrentPos (snd (snd r))) - fst (GetCurrentPos f)) (fst (snd r))
                   (k1\<lparr>fileSystem := set_file (nat i) (Some (snd (GetCurrentPos (snd (snd r))))) (fileSystem k1)\<rparr>)
                   (result (word_of_int (fst (GetCurrentPos (snd (snd r))) - fst (GetCurrentPos f))))
            else result (-2) (k1\<lparr>fileSystem := set_file (nat i) (Some (snd (snd r))) (fileSystem k1)\<rparr>)))"
        by (auto intro!: keeps_rules put_file_fine keeps_bindI [OF file_ops_same(1)] dest: f2)
    qed (rule put_file_fine [OF k f1])
  qed
  then show ?thesis unfolding ReadFunction_def
    by (auto intro!: keeps_rules k split: option.split simp: Let_def)
qed

lemma write_stdout_keeps: "fine W k \<Longrightarrow> keeps W (write_stdout s k)"
  by (simp add: write_stdout_def list_all_iff Let_def)

lemma Write_keeps:
  assumes k: "fine W k"
  shows "keeps W (WriteFunction k)"
proof -
  have "keeps W (let (oldPos, f1) = GetCurrentPos f; k0 = k\<lparr>fileSystem := set_file (nat i) (Some f1) (fileSystem k)\<rparr> in
           user2system va charcount k0 (\<lambda>s k1.
             if of_type f1 = 0
             then res_bind (OpenFile_Write (contents f1 (fileSystem k1)) (padded (nat (sint charcount)) s) (sint charcount) f1) (\<lambda>(n, c, f2).
               let fs = fileSystem k1; fs' = fs\<lparr>ufiles := (ufiles fs)(of_name f1 \<mapsto> c)\<rparr>; (newPos, f3) = GetCurrentPos f2 in
               if n > 0 then result (word_of_int (newPos - oldPos)) (k1\<lparr>fileSystem := set_file (nat i) (Some f3) fs'\<rparr>)
               else Inr ([], k1\<lparr>fileSystem := set_file (nat i) (Some f2) fs'\<rparr>))
             else if of_type f1 = 3 then write_stdout s k1
             else Inr ([], k1)))"
    if "open_file i k = Some f" for f i va charcount
  proof -
    let ?f1 = "snd (GetCurrentPos f)"
    have f1: "known W (fileSystem k) ?f1" by (rule known_same [OF known_open [OF k that] file_ops_same(5)])
    have f2: "known W fs f2 \<and> known W fs (snd (GetCurrentPos f2))"
      if "known W fs ?f1" "same_file ?f1 f2" for fs f2
      using that known_same file_ops_same(5) by blast
    show ?thesis unfolding Let_def case_prod_unfold
    proof (rule keeps_user2system_files)
      fix s k1
      assume "fine W k1" "fileSystem k1 = fileSystem (k\<lparr>fileSystem := set_file (nat i) (Some ?f1) (fileSystem k)\<rparr>)"
      with f1 have k1: "fine W k1" "known W (fileSystem k1) ?f1" by simp_all
      then show "keeps W (if of_type ?f1 = 0
          then res_bind (OpenFile_Write (contents ?f1 (fileSystem k1)) (padded (nat (sint charcount)) s) (sint charcount) ?f1) (\<lambda>r.
            if 0 < fst r
            then result (word_of_int (fst (GetCurrentPos (snd (snd r))) - fst (GetCurrentPos f)))
                   (k1\<lparr>fileSystem := set_file (nat i) (Some (snd (GetCurrentPos (snd (snd r)))))
                     ((fileSystem k1)\<lparr>ufiles := (ufiles (fileSystem k1))(of_name ?f1 \<mapsto> fst (snd r))\<rparr>)\<rparr>)
            else Inr ([], k1\<lparr>fileSystem := set_file (nat i) (Some (snd (snd r)))
                     ((fileSystem k1)\<lparr>ufiles := (ufiles (fileSystem k1))(of_name ?f1 \<mapsto> fst (snd r))\<rparr>)\<rparr>))
          else if of_type ?f1 = 3 then write_stdout s k1 else Inr ([], k1))"
        by (auto intro!: keeps_rules write_file_fine write_stdout_keeps keeps_bindI [OF file_ops_same(2)] dest: f2)
    qed (rule put_file_fine [OF k f1])
  qed
  then show ?thesis unfolding WriteFunction_def
    by (auto intro!: keeps_rules k split: option.split simp: Let_def)
qed

lemma Seek_keeps:
  assumes k: "fine W k"
  shows "keeps W (SeekFunction k)"
proof -
  have len: "post (\<lambda>(n, g). same_file f g) (if c then OpenFile_Length cs f else Inr (p, f))"
    "post (\<lambda>(n, g). same_file f g) (if c then Inr (p, f) else OpenFile_Length cs f)" for c cs p f
    using file_ops_same(3) by (simp_all add: same_file_def)
  have found: "keeps W (let c = contents f (fileSystem k) in
         res_bind (if sint p = -1 then OpenFile_Length c f else Inr (sint p, f)) (\<lambda>(pos, f1).
         res_bind (if pos < 0 then Inr (0, f1) else OpenFile_Length c f1) (\<lambda>(len, f2).
           if pos < 0 \<or> pos > len then Inr ([], k\<lparr>fileSystem := set_file (nat i) (Some f2) (fileSystem k)\<rparr>)
           else res_bind (OpenFile_Seek c pos f2) (\<lambda>(_, f3).
             result (word_of_int pos) (k\<lparr>fileSystem := set_file (nat i) (Some f3) (fileSystem k)\<rparr>)))))"
    if "(if i = 0 \<or> i = 1 then None else open_file i k) = Some f" for f i p
  proof -
    have f: "known W (fileSystem k) f" using known_open [OF k] that by (simp split: if_splits)
    have fine: "fine W (k\<lparr>fileSystem := set_file (nat i) (Some g) (fileSystem k)\<rparr>)"
      if "same_file f f1" "same_file f1 f2" "same_file f2 g" for f1 f2 g
      using that f known_same by (intro put_file_fine [OF k]) blast
    have [simp]: "same_file g g" for g by (simp add: same_file_def)
    show ?thesis unfolding Let_def case_prod_unfold
      by (rule keeps_bindI [OF len(1)], rule keeps_bindI [OF len(2)])
        (auto intro!: keeps_rules keeps_bindI [OF file_ops_same(4)] dest: fine intro: fine)
  qed
  show ?thesis unfolding SeekFunction_def
    by (intro keeps_read_reg, simp only: Let_def [of "sint _"], intro keeps_option) (simp add: k, rule found)
qed

text \<open>The table of semaphores.\<close>

lemma STable_Create_ok:
  assumes ok: "st_ok st" and c: "STable_Create n q st = Inr (r, st')"
  shows "st_ok st'"
proof (cases "st_contents st n \<noteq> None \<or> card (dom (st_contents st)) \<ge> 10")
  case True
  with st_create_fails [OF ok this] c ok show ?thesis by simp
next
  case False
  have "length n < 50"
  proof (rule ccontr)
    assume long: "\<not> length n < 50"
    have "bm_used (st_bm st) \<noteq> {..<10}" using False unfolding st_card [OF ok] by (metis card_lessThan order_refl)
    with BitMap_Find_free [of "st_bm st"] ok obtain j b where "BitMap_Find (st_bm st) = Inr (int j, b)"
      by (auto simp: st_ok_def)
    moreover from False st_find_ok [OF ok, of n] have "st_scan n st [0..<MAX_SEMAPHORE] = Inr None"
      by (auto simp: STable_find_def res_bind_Inr_iff)
    ultimately show False using c long by (simp add: STable_Create_def STable_FindFreeSlot_def Sem_new_def strcpy_def)
  qed
  with st_create_new [OF ok this, of q] False c show ?thesis by (metis Pair_inject not_le sum.inject(2))
qed

lemma CreateSemaphore_keeps: "fine W k \<Longrightarrow> keeps W (CreateSemaphoreFunction k)"
  unfolding CreateSemaphoreFunction_def Let_def
  by (auto intro!: keeps_rules keeps_bind new_semaphore_fine fine_tables(2) elim!: STable_Create_ok [rotated])

lemma Wait_keeps: "fine W k \<Longrightarrow> keeps W (WaitFunction k)"
  unfolding WaitFunction_def by (auto intro!: keeps_rules keeps_bind split: option.split)

lemma Signal_keeps: "fine W k \<Longrightarrow> keeps W (SignalFunction k)"
  unfolding SignalFunction_def by (auto intro!: keeps_rules keeps_bind split: option.split)

section \<open>Address spaces\<close>

lemma Find_bm: "BitMap_Find b = Inr (i, b') \<Longrightarrow> bm_ok b \<Longrightarrow> bm_ok b' \<and> bm_cap b' = bm_cap b"
  using BitMap_Find_full [of b] BitMap_Find_free [of b] by (cases "bm_used b = {..<bm_cap b}") (auto simp: bm_cap_def)

lemma Clear_bm: "BitMap_Clear i b = Inr b' \<Longrightarrow> bm_ok b \<Longrightarrow> bm_ok b' \<and> bm_cap b' = bm_cap b"
  using BitMap_Clear_ok [of b "nat i"] by (auto simp: BitMap_Clear_def ASSERT_Inr_iff bm_cap_def)

lemma drain_bm: "res_drain BitMap_Find n b = Inr (is', b') \<Longrightarrow> bm_ok b \<Longrightarrow> bm_ok b' \<and> bm_cap b' = bm_cap b"
proof (induction n arbitrary: b is')
  case (Suc n)
  from Suc.prems(1) obtain i b1 js where
    f: "BitMap_Find b = Inr (i, b1)" "res_drain BitMap_Find n b1 = Inr (js, b')" by (auto simp: res_bind_Inr_iff)
  from Find_bm [OF f(1) Suc.prems(2)] Suc.IH [OF f(2)] show ?case by simp
qed simp

lemma clears_bm: "res_fold BitMap_Clear is' b = Inr b' \<Longrightarrow> bm_ok b \<Longrightarrow> bm_ok b' \<and> bm_cap b' = bm_cap b"
proof (induction is' arbitrary: b)
  case (Cons i is')
  from Cons.prems(1) obtain b1 where f: "BitMap_Clear i b = Inr b1" "res_fold BitMap_Clear is' b1 = Inr b'"
    by (auto simp: res_bind_Inr_iff)
  from Clear_bm [OF f(1) Cons.prems(2)] Cons.IH [OF f(2)] show ?case by simp
qed simp

text \<open>What the operations on address spaces do to the rest of the system.\<close>

definition spaces_ok :: "AMem \<Rightarrow> AMem \<Rightarrow> bool" where
  "spaces_ok a a' = (registers (am_machine a') = registers (am_machine a) \<and>
     (bm_ok (gPhysPageBitMap a) \<longrightarrow> bm_ok (gPhysPageBitMap a') \<and> bm_cap (gPhysPageBitMap a') = bm_cap (gPhysPageBitMap a)))"

lemma setup_table_spaces: "post (\<lambda>(fs, a'). spaces_ok a a') (setup_table n a)"
  unfolding setup_table_def by (auto intro!: post_bind simp: Let_def spaces_ok_def dest: drain_bm)

lemma load_segment_spaces: "post (spaces_ok a) (load_segment f seg fs a)"
  unfolding load_segment_def by (auto intro!: post_bind simp: spaces_ok_def set_mem_def)

lemma load_image_spaces: "post (spaces_ok a) (load_image f h fs a)"
  unfolding load_image_def
proof (rule post_bindI [OF load_segment_spaces])
  fix a1 assume "spaces_ok a a1"
  then show "post (spaces_ok a) (load_segment f (initData h) fs a1)"
    using load_segment_spaces [of a1 f "initData h" fs] by (auto simp: post_def spaces_ok_def)
qed

lemma AddrSpace_delete_spaces: "post (spaces_ok a) (AddrSpace_delete sp a)"
  unfolding AddrSpace_delete_def
  by (auto intro!: post_bind simp: spaces_ok_def dest!: clears_bm)

lemma put_amem_fine:
  assumes "fine W k" "machine k = Some m" "spaces_ok (amem m k) a"
  shows "fine W (put_amem a k)"
proof -
  have r: "regs_ok (registers (am_machine a))" using fine_regs [OF assms(1,2)] assms(3) by (simp add: spaces_ok_def amem_def)
  show ?thesis unfolding put_amem_def
    using assms(3) by (intro fine_quiet(3) fine_machine r fine_tables(4) assms(1)) (simp add: spaces_ok_def amem_def)
qed

lemma FreeSpace_post: "fine W k \<Longrightarrow> post (fine W) (FreeSpace t k)"
  unfolding FreeSpace_def deref_def with_machine_def
  by (auto split: option.split intro!: post_bindI [OF AddrSpace_delete_spaces] put_amem_fine)

lemma open_exe_keeps: "fine W k \<Longrightarrow> keeps W (open_exe name named f k)"
  by (simp add: open_exe_def)

lemma Start_keeps: "fine W k \<Longrightarrow> keeps W (StartProcess name k)" "fine W k \<Longrightarrow> keeps W (StartProcessID pid k)"
  unfolding StartProcess_def StartProcessID_def
  by (auto intro!: keeps_bind open_exe_keeps split: option.split)

lemma setup_space_keeps: "fine W k \<Longrightarrow> keeps W (setup_space name named k)"
  unfolding setup_space_def Let_def
  by (auto intro!: keeps_machine keeps_bind [of "BitMap_NumClear _"] keeps_bindI [OF setup_table_spaces] elim!: put_amem_fine [rotated 2])

lemma load_space_keeps: "fine W k \<Longrightarrow> keeps W (load_space name h fs k)"
  unfolding load_space_def Let_def
  by (auto intro!: keeps_machine keeps_bindI [OF load_image_spaces] put_amem_fine)

text \<open>A thread's space and process number are not looked at by the thread system.\<close>

definition same_stack :: "'a Thread \<Rightarrow> 'a Thread \<Rightarrow> bool" where
  "same_stack x y = (frames_of y = frames_of x \<and> t_status y = t_status x \<and> stack y = stack x)"

lemma tinv_same_stack:
  assumes "tinv c k" "threads k t = Some x" "same_stack x y"
  shows "tinv c (set_thread t y k)"
proof (rule tinv_update [OF assms(1), of _ t y])
  show "thread_ok c (set_thread t y k) t y"
    using tinvD(5) [OF assms(1,2)] assms(3)
    by (cases "t_status x") (simp_all add: thread_ok_def stack_ok_def waits_for_def set_thread_def same_stack_def)
  show "if u = t then t_status y = BLOCKED \<and> (\<exists>g. frames_of y = [g]) else threadToBeDestroyed k = Some u"
    if "threadToBeDestroyed (set_thread t y k) = Some u" for u
    using that tinvD(6) [OF assms(1), of u] assms(2,3) by (auto simp: set_thread_def same_stack_def)
qed (use tinvD(1,2) [OF assms(1)] in \<open>simp_all add: set_thread_def\<close>)

lemma same_stack_fine:
  assumes k: "fine W k" and x: "threads k t = Some x" "same_stack x y" and sp: "saved_ok (machine k) y"
  shows "fine W (set_thread t y k)"
proof -
  have i: "kinv k" "running k" "W \<longrightarrow> sys_wf k" using k by (simp_all add: fine_def)
  have r: "running (set_thread t y k)" using i(2) x by (auto simp: running_def set_thread_def same_stack_def)
  have "tinv (Some (currentThread k)) (set_thread t y k)" using i(1) by (intro tinv_same_stack [OF _ x]) (simp add: kinv_def)
  moreover have "cpu_inv (set_thread t y k)" using i(1) sp by (auto simp: kinv_def cpu_inv_def set_thread_def)
  moreover have "currentThread (set_thread t y k) = currentThread k" "pending_ok (set_thread t y k)"
    "inHandler (set_thread t y k) = inHandler k" "status (set_thread t y k) = status k"
    using i(1) by (simp_all add: set_thread_def kinv_def pending_ok_def)
  moreover have "sys_wf (set_thread t y k) = sys_wf k" by (simp add: sys_wf_def set_thread_def)
  ultimately have "hinv (set_thread t y k)" "status (set_thread t y k) \<noteq> IdleMode" "W \<longrightarrow> sys_wf (set_thread t y k)"
    using i(1,3) by (simp_all add: hinv_def kinv_def)
  with r show ?thesis by (simp add: fine_def kinv_running_iff)
qed

lemma fine_running:
  assumes "fine W k" obtains x where "threads k (currentThread k) = Some x" "t_status x = RUNNING" "body (frames_of x)"
  using assms by (auto simp: fine_def running_def)

lemma fine_finish:
  assumes k: "fine W k" and x: "threads k (currentThread k) = Some x"
  shows "fine W (set_thread (currentThread k) (x\<lparr>frames_of := [FFinish]\<rparr>) k)"
proof -
  let ?k = "set_thread (currentThread k) (x\<lparr>frames_of := [FFinish]\<rparr>) k"
  have i: "kinv k" "running k" "W \<longrightarrow> sys_wf k" "t_status x = RUNNING" "body (frames_of x)"
    using k x by (auto simp: fine_def running_def)
  have r: "running ?k" using i x by (simp add: running_def set_thread_def)
  have "tinv (Some (currentThread k)) ?k" using i x by (intro tinv_set_frames) (auto simp: kinv_def resume_ok_def)
  moreover have "cpu_inv ?k" using i(1) x by (auto simp: kinv_def cpu_inv_def set_thread_def saved_ok_def)
  moreover have "sys_wf ?k = sys_wf k" by (simp add: sys_wf_def set_thread_def)
  moreover have "currentThread ?k = currentThread k" "pending_ok ?k" "inHandler ?k = inHandler k" "status ?k = status k"
    using i(1) by (simp_all add: set_thread_def kinv_def pending_ok_def)
  ultimately have "hinv ?k" "status ?k \<noteq> IdleMode" "W \<longrightarrow> sys_wf ?k" using i(1,3) by (simp_all add: hinv_def kinv_def)
  with r show ?thesis by (simp add: fine_def kinv_running_iff)
qed

lemma finish_keeps: "fine W k \<Longrightarrow> keeps W (finish_current k)"
  unfolding finish_current_def by (rule keeps_deref) (simp add: fine_finish)

lemma enter_space_keeps:
  assumes "fine W k" shows "keeps W (enter_space sp k)"
  unfolding enter_space_def
proof (rule keeps_machine [OF assms], rule keeps_deref, rule keeps_bind)
  fix m x m1
  assume m: "machine k = Some m" "regs_ok (registers m)" and x: "threads k (currentThread k) = Some x"
    and i: "InitRegisters sp m = Inr m1"
  have "hd (frames_of x) \<noteq> FRunTail" using assms x body_not_off(2) by (auto simp: fine_def running_def)
  then have "fine W (set_thread (currentThread k) (x\<lparr>space := Some sp\<rparr>) k)"
    by (intro same_stack_fine [OF assms x]) (auto simp: same_stack_def saved_ok_def m(1))
  moreover have "regs_ok (registers (RestoreState sp m1))" using InitRegisters_regs [OF i m(2)] by (simp add: RestoreState_def)
  ultimately show "keeps W (Inr ([FStatus UserMode, ucall UInstr],
      (set_thread (currentThread k) (x\<lparr>space := Some sp\<rparr>) k)\<lparr>machine := Some (RestoreState sp m1)\<rparr>))"
    by (simp add: fine_machine)
qed

section \<open>Processes\<close>

lemma pcb_at_heap: "pcb_at i t = Inr (a, p) \<Longrightarrow> pcb_heap t a = Some p"
  by (auto simp: pcb_at_def split: if_splits option.splits)

lemma GetFreeSlot_ok:
  assumes "GetFreeSlot t = Inr (i, t')" "pt_ok t"
  shows "pt_ok t' \<and> i < int MAX_PROCESS"
proof -
  from assms(1) obtain b where b: "BitMap_Find (pt_bm t) = Inr (i, b)" "t' = t\<lparr>pt_bm := b\<rparr>"
    by (auto simp: GetFreeSlot_def res_bind_Inr_iff)
  have "bm_ok (pt_bm t)" "bm_cap (pt_bm t) = 10" using assms(2) by (simp_all add: pt_ok_def MAX_PROCESS_def)
  moreover from this have "i < 10"
    using b(1) BitMap_Find_full [of "pt_bm t"] BitMap_Find_free [of "pt_bm t"] by (cases "bm_used (pt_bm t) = {..<10}") auto
  ultimately show ?thesis using Find_bm [OF b(1)] assms(2) b(2) by (simp add: pt_ok_def MAX_PROCESS_def)
qed

lemma set_pcb_ok:
  "pt_ok t \<Longrightarrow> pcb_heap t a = Some p \<Longrightarrow> FileName q = FileName p \<and> (exitcode q = exitcode p \<or> exitcode q = 0) \<Longrightarrow> pt_ok (set_pcb a q t)"
  by (simp add: pt_ok_def set_pcb_def)

lemma put_pcb_ok:
  assumes "pt_ok t" "length (FileName p) < 32 \<and> exitcode p = 0" "i < MAX_PROCESS" "new_pcb p t = (a, t')"
  shows "pt_ok (t'\<lparr>pcbs := (pcbs t')[i := Some a]\<rparr>)"
proof -
  have t': "a = pcb_next t" "t' = t\<lparr>pcb_heap := (pcb_heap t)(a \<mapsto> p), pcb_next := a + 1\<rparr>" using assms(4) by (auto simp: new_pcb_def)
  have len: "length (pcbs t) = MAX_PROCESS" using assms(1) by (simp add: pt_ok_def)
  have old: "b < a" if "Some b \<in> set (pcbs t)" for b using that assms(1) t'(1) by (simp add: pt_ok_def)
  then have nth: "pcbs t ! j \<noteq> Some a" if "j < MAX_PROCESS" for j using that len nth_mem [of j "pcbs t"] by force
  have "own_pcbs (pcbs t)" using assms(1) by (simp add: pt_ok_def)
  then have inj: "own_pcbs ((pcbs t)[i := Some a])"
    unfolding own_pcbs_def length_list_update len using nth assms(3) len by (auto simp: nth_list_update) metis+
  have heap: "b < a + 1 \<and> length (FileName q) < 32 \<and> exitcode q = 0" if "((pcb_heap t)(a \<mapsto> p)) b = Some q" for b q
    using that assms(1,2) t'(1) by (cases "b = a") (auto simp: pt_ok_def less_SucI)
  have ptr: "b < a + 1" if "Some b \<in> set ((pcbs t)[i := Some a])" for b
    using set_update_subset_insert [THEN subsetD, OF that] old [of b] by auto
  show ?thesis using assms(1) len inj heap ptr by (simp add: pt_ok_def t'(2))
qed

lemma Remove_pt_ok:
  assumes "pt_ok t" "BitMap_Clear i (pt_bm t) = Inr b"
  shows "pt_ok (t\<lparr>pt_bm := b\<rparr>)" "pt_ok (t\<lparr>pt_bm := b, pcb_heap := (pcb_heap t)(a := None)\<rparr>)"
  using assms Clear_bm [OF assms(2)] by (auto simp: pt_ok_def)

lemma new_semaphore_pTab [simp]: "pTab (snd (new_semaphore v k)) = pTab k"
  by (simp add: new_semaphore_def)

lemma create_pcb_post:
  assumes "fine W k" "W \<Longrightarrow> i < int MAX_PROCESS" "0 \<le> i"
  shows "post (\<lambda>(a, p, k'). fine W k') (create_pcb i name parent k)"
  unfolding create_pcb_def Let_def case_prod_unfold
proof (rule post_bind)
  fix p
  let ?k = "snd (new_semaphore 1 (snd (new_semaphore 0 (snd (new_semaphore 0 k)))))"
  assume "SetFileName name (PCB_new i (fst (new_semaphore 0 k)) (fst (new_semaphore 0 (snd (new_semaphore 0 k))))
       (fst (new_semaphore 1 (snd (new_semaphore 0 (snd (new_semaphore 0 k))))))) = Inr p"
  then have p: "length (FileName p) < 32 \<and> exitcode p = 0"
    by (auto simp: SetFileName_def strcpy_def PCB_new_def res_bind_Inr_iff split: if_splits)
  obtain a t where n: "new_pcb (p\<lparr>parentID := parent\<rparr>) (pTab ?k) = (a, t)" by fastforce
  have "fine W (?k\<lparr>pTab := t\<lparr>pcbs := (pcbs t)[nat i := Some a]\<rparr>\<rparr>)"
    using assms p n by (intro fine_tables(3) new_semaphore_fine put_pcb_ok) auto
  then show "post (\<lambda>x. fine W (snd (snd x))) (Inr (fst (new_pcb (p\<lparr>parentID := parent\<rparr>) (pTab ?k)), p\<lparr>parentID := parent\<rparr>,
       ?k\<lparr>pTab := (snd (new_pcb (p\<lparr>parentID := parent\<rparr>) (pTab ?k)))\<lparr>pcbs := (pcbs (snd (new_pcb (p\<lparr>parentID := parent\<rparr>) (pTab ?k))))
         [nat i := Some (fst (new_pcb (p\<lparr>parentID := parent\<rparr>) (pTab ?k)))]\<rparr>\<rparr>))"
    using n by simp
qed

lemma Exec_keeps: "fine W k \<Longrightarrow> keeps W (ExecFunction k)"
  unfolding ExecFunction_def by (auto intro!: keeps_rules)

lemma ExecUpdate_keeps:
  assumes k: "fine W k" shows "keeps W (ExecUpdate name k)"
  unfolding ExecUpdate_def
proof (rule keeps_bind, clarify)
  fix i t
  assume s: "GetFreeSlot (pTab k) = Inr (i, t)"
  have k1: "fine W (k\<lparr>pTab := t\<rparr>)" using GetFreeSlot_ok [OF s] by (intro fine_tables(3) [OF k]) simp
  have i: "W \<Longrightarrow> i < int MAX_PROCESS" using GetFreeSlot_ok [OF s] fine_wf [OF k] by (simp add: sys_wf_def)
  show "keeps W (let k1 = k\<lparr>pTab := t\<rparr> in
     if i < 0 \<or> name = scheduler_name \<or> name = getName k1
     then Inr ([FV (bmsem t), ucall (UResult (-1))], k1)
     else processID_of k1 (\<lambda>parent. res_bind (create_pcb i name parent k1) (\<lambda>(a, p, k2).
       Inr ([FP (multex p), ucall (UExecFork a name i), FV (multex p), FV (bmsem t), ucall (UExecEnd a i)], k2))))"
    unfolding Let_def using k1 i
    by (auto intro!: keeps_processID keeps_bindI [OF create_pcb_post])
qed

lemma exec_end_keeps: "fine W k \<Longrightarrow> keeps W (exec_end a pid k)"
  unfolding exec_end_def by (intro keeps_result fine_quiet)

lemma num_wait_keeps:
  assumes "fine W k" "\<And>p. FileName (f p) = FileName p \<and> exitcode (f p) = exitcode p" shows "keeps W (num_wait f a k)"
  unfolding num_wait_def using assms
  by (auto split: option.split intro!: fine_tables(3) elim!: set_pcb_ok)

lemma Join_keeps: "fine W k \<Longrightarrow> keeps W (JoinFunction k)" "fine W k \<Longrightarrow> keeps W (join_wait i k)" "fine W k \<Longrightarrow> keeps W (joined i k)"
  unfolding JoinFunction_def JoinUpdate_def join_wait_def joined_def
  by (auto intro!: keeps_rules keeps_bind)

lemma exit_code_ok: "pcb_at i t = Inr (a, p) \<Longrightarrow> pt_ok t \<Longrightarrow> pt_ok (set_pcb a (SetExitCode 0 p) t)"
  using set_pcb_ok [OF _ pcb_at_heap] by (simp add: SetExitCode_def)

lemma Exit_keeps: "fine W k \<Longrightarrow> keeps W (ExitFunction k)"
  unfolding ExitFunction_def ExitUpdate_def Let_def
  by (auto intro!: keeps_rules keeps_bindI [OF FreeSpace_post] Halt_fine keeps_bind [of "IsExist _ _"] keeps_bind [of "pcb_at _ _"]
      keeps_bindI [OF keeps_result [unfolded keeps_def]] fine_tables(3) elim!: exit_code_ok)

lemma join_release_keeps: "fine W k \<Longrightarrow> keeps W (join_release i k)"
  unfolding join_release_def by (auto intro!: keeps_bind)

lemma Remove_keeps:
  assumes k: "fine W k" shows "keeps W (Remove i k)"
  unfolding Remove_def Let_def
  using k by (auto intro!: keeps_bind [of "BitMap_Clear _ _"] keeps_bind [of "pcb_at _ _"] keeps_bindI [OF FreeSpace_post] finish_keeps
      keeps_bindI [OF keeps_result [unfolded keeps_def]] fine_tables(3) Remove_pt_ok split: option.split)

text \<open>\<open>PCB::Exec\<close> is a \<open>Fork\<close> of a thread that carries the number of its process.\<close>

lemma PCB_Exec_keeps:
  assumes k: "fine W k" shows "keeps W (PCB_Exec a filename pid k)"
  unfolding PCB_Exec_def
proof (rule keeps_processID, rule keeps_option)
  fix parent p
  assume p: "pcb_heap (pTab k) a = Some p"
  let ?t = "next_thread k" and ?b = "[ucall (UStartID pid)]"
  define k0 where "k0 = k\<lparr>pTab := set_pcb a (p\<lparr>pcb_thread := Some ?t, parentID := parent\<rparr>) (pTab k),
      thread_name := (thread_name k)(?t := Some filename)\<rparr>"
  have f0: "fine W k0" unfolding k0_def by (intro fine_quiet(2) fine_tables(3) k) (rule set_pcb_ok [OF _ p], simp_all)
  then have i0: "kinv k0" "running k0" "W \<longrightarrow> sys_wf k0" by (simp_all add: fine_def)
  from fork_kinv [OF i0(1,2), of ?b] obtain k' where k': "fork_new ?b k0 = Inr k'" "kinv k'" "running k'" by auto
  obtain x where x: "threads k0 (currentThread k0) = Some x" using i0(2) by (auto simp: running_def)
  have "threads k0 ?t = None" using fork_tinv(1) [of "currentThread k0" k0 ?b] i0(1) by (simp add: kinv_def k0_def)
  then have ne: "currentThread k \<noteq> ?t" using x by (auto simp: k0_def)
  let ?y = "(StackAllocate ?b (Thread_new (\<lambda>_. 0)))\<lparr>t_status := READY\<rparr>"
  have y: "threads k' ?t = Some ?y" "sys_wf k' = sys_wf k0"
    using k'(1) x ne by (auto simp: fork_new_def new_thread_def Thread_Fork_def deref_def set_thread_def disable_def ChangeLevel_def
        ReadyToRun_def push_def k0_def sys_wf_def)
  have "fine W k'" using k' i0(3) y(2) by (simp add: fine_def)
  then have fk: "fine W (set_thread ?t (?y\<lparr>processID := pid\<rparr>) k')"
    by (rule same_stack_fine [OF _ y(1)]) (simp_all add: same_stack_def saved_ok_def StackAllocate_def Thread_new_def)
  have "Thread_Fork ?t ?b
       (((set_thread ?t ((Thread_new (\<lambda>_. 0))\<lparr>processID := pid\<rparr>) k)\<lparr>next_thread := ?t + 1\<rparr>)\<lparr>
          pTab := set_pcb a (p\<lparr>pcb_thread := Some ?t, parentID := parent\<rparr>) (pTab k),
          thread_name := (thread_name k)(?t := Some filename)\<rparr>) = Inr (set_thread ?t (?y\<lparr>processID := pid\<rparr>) k')"
    using k'(1) x ne
    by (auto simp: fork_new_def new_thread_def Thread_Fork_def deref_def set_thread_def disable_def ChangeLevel_def
        ReadyToRun_def push_def k0_def StackAllocate_def Thread_new_def fun_upd_twist)
  with fk show "keeps W (let t = ?t;
             k1 = (set_thread t ((Thread_new (\<lambda>_. 0))\<lparr>processID := pid\<rparr>) k)\<lparr>next_thread := t + 1\<rparr>;
             k2 = k1\<lparr>pTab := set_pcb a (p\<lparr>pcb_thread := Some t, parentID := parent\<rparr>) (pTab k1),
                     thread_name := (thread_name k1)(t := Some filename)\<rparr>
         in res_bind (Thread_Fork t ?b k2) (\<lambda>k3. Inr ([], k3)))"
    by (simp add: Let_def set_thread_def)
qed simp

section \<open>The handler and the instructions\<close>

lemma syscall_keeps: "fine W k \<Longrightarrow> keeps W (syscall ty k)"
  by (simp add: syscall_def console_calls_keep CreateFile_keeps Open_keeps Close_keeps Read_keeps Write_keeps Seek_keeps Exec_keeps
      Join_keeps Exit_keeps CreateSemaphore_keeps Wait_keeps Signal_keeps Halt_fine del: keeps_simps(2)) (simp)

lemma ExceptionHandler_keeps: "fine W k \<Longrightarrow> keeps W (ExceptionHandler which k)"
  unfolding ExceptionHandler_def
  by (rule keeps_read_reg, cases which) (simp_all add: fatal_keeps keeps_append [OF syscall_keeps])

lemma Machine_Run_keeps:
  assumes k: "fine W k" shows "keeps W (Machine_Run k)"
  unfolding Machine_Run_def
proof (rule keeps_machine [OF k], rule keeps_bind, clarify)
  fix m t m'
  assume "OneInstruction (big_endian k) m = Inr (t, m')"
  then have "fine W (k\<lparr>machine := Some m'\<rparr>)" by (intro fine_machine [OF k] OneInstruction_regs)
  moreover from this have "fine W (k\<lparr>machine := Some m', status := SystemMode\<rparr>)" by (intro fine_quiet(5)) simp_all
  ultimately show "keeps W (case t of Done u \<Rightarrow> Inr ([FTick, ucall UInstr], k\<lparr>machine := Some m'\<rparr>)
      | Trap ex \<Rightarrow> res_bind (ExceptionHandler ex (k\<lparr>machine := Some m', status := SystemMode\<rparr>)) (\<lambda>(fs, k').
         Inr (fs @ [FStatus UserMode, FTick, ucall UInstr], k')))"
    using keeps_append [OF ExceptionHandler_keeps] by (cases t) simp_all
qed

section \<open>Starting the system\<close>

lemma Schedule_fine:
  assumes "fine W k" "Schedule h a n t k = Inr k'"
  shows "fine W k'"
proof -
  have "dev_exec k ([], k')" by (rule Schedule_exec [OF assms(2) dev_step_refl refl])
  with dev_exec_kinv [of k "[]" k'] assms(1) have "kinv k'" "running k'" by (simp_all add: fine_def)
  moreover have "sys_wf k' = sys_wf k" by (subst Schedule_ok(2) [OF assms(2)]) (simp add: sys_wf_def)
  ultimately show ?thesis using assms(1) by (simp add: fine_def)
qed

lemma fine_console: "fine W k \<Longrightarrow> fine W (k\<lparr>console := c\<rparr>)"
proof -
  assume k: "fine W k"
  show ?thesis using fine_status [OF k] fine_wf [OF k] fine_regs [OF k]
    by (intro fine_view [OF k]) (auto simp: tview_def sys_wf_def)
qed

lemma SynchConsole_new_post: "fine W k \<Longrightarrow> post (fine W) (SynchConsole_new k)"
  unfolding SynchConsole_new_def
proof (rule post_bind)
  fix k1
  assume "fine W k" "Schedule HConsoleRead 0 ConsoleTime ConsoleReadInt
      (k\<lparr>console := (console k)\<lparr>putBusy := False, incoming := EOF_CHAR\<rparr>\<rparr>) = Inr k1"
  from Schedule_fine [OF fine_console [OF this(1)] this(2)]
  show "post (fine W) (Inr (k1\<lparr>sems := (sems k1)(synchReadAvail := (sems k1 synchReadAvail)\<lparr>sem_value := 0\<rparr>,
          synchWriteAvail := (sems k1 synchWriteAvail)\<lparr>sem_value := 0\<rparr>, RLineBlock := (sems k1 RLineBlock)\<lparr>sem_value := 1\<rparr>,
          WLineBlock := (sems k1 WLineBlock)\<lparr>sem_value := 1\<rparr>)\<rparr>))"
    by (simp add: fine_quiet(6))
qed

lemma PTable_new_ok:
  assumes "PTable_new 10 g bs js es ms t = Inr t'" shows "pt_ok t'"
proof -
  from BitMap_new_ok [of 10 g] obtain b where b: "BitMap_new 10 g = Inr b" "bm_ok b" "numBits b = 10" by auto
  from b BitMap_Mark_ok [of b 0] obtain b1 where b1: "BitMap_Mark 0 b = Inr b1" "bm_ok b1" "numBits b1 = 10"
    by (auto simp: bm_cap_def)
  let ?t = "\<lparr>pt_bm = b1, pcbs = replicate MAX_PROCESS None, psize = 10, bmsem = bs, pcb_heap = Map.empty, pcb_next = 0\<rparr>"
  let ?p = "(PCB_new 0 js es ms)\<lparr>FileName := scheduler_name, parentID := -1\<rparr>"
  have t: "pt_ok ?t" using b1 by (simp add: pt_ok_def bm_cap_def MAX_PROCESS_def own_pcbs_def)
  obtain a t1 where n: "new_pcb ?p ?t = (a, t1)" by fastforce
  have "pt_ok (t1\<lparr>pcbs := (pcbs t1)[0 := Some a]\<rparr>)"
    by (rule put_pcb_ok [OF t _ _ n]) (simp_all add: scheduler_name_def MAX_PROCESS_def PCB_new_def)
  moreover have "t' = t1\<lparr>pcbs := (pcbs t1)[0 := Some a]\<rparr>"
    using assms n b(1) b1(1) by (simp add: PTable_new_def SetFileName_def strcpy_def scheduler_name_def)
  ultimately show ?thesis by simp
qed

lemma STable_new_st_ok:
  assumes "STable_new g = Inr st" shows "st_ok st"
proof -
  from BitMap_new_ok [of 10 g] obtain b where b: "BitMap_new 10 g = Inr b" "bm_ok b" "numBits b = 10" "bm_used b = {}" by auto
  have "st = \<lparr>st_bm = b, semTab = replicate 10 None\<rparr>" using assms b(1) by (simp add: STable_new_def MAX_SEMAPHORE_def)
  moreover have "filter (bm_bit b) [0..<10] = []" using b(3,4) unfolding filter_empty_conv set_upt by (auto simp: bm_used_def bm_cap_def)
  ultimately show ?thesis using b by (simp add: st_ok_def bm_cap_def st_used_def st_entries_def del: upt_rec_numeral)
qed

lemma FileSystem_new_ft:
  assumes "FileSystem_new fs = Inr fs'" shows "ft_ok fs'"
proof -
  have c: "creatable fs stdin_name"
    using assms by (cases "creatable fs stdin_name") (simp_all add: FileSystem_new_def FileSystem_Create_def OpenForWrite_def)
  have "creatable fs stdout_name"
    using assms c by (cases "creatable fs stdout_name") (simp_all add: FileSystem_new_def FileSystem_Create_def OpenForWrite_def)
  from FileSystem_new_ok [OF c this] assms have f: "fs_ok fs'" "openfile fs' ! 0 = Some (OpenFile_new stdin_name 2)"
     "openfile fs' ! 1 = Some (OpenFile_new stdout_name 3)" "\<And>i. i \<in> {2..<15} \<Longrightarrow> openfile fs' ! i = None" by auto
  have "of_type f \<in> {2, 3}" if "Some f \<in> set (openfile fs')" for f
  proof -
    from that f(1) obtain i where i: "i < 15" "openfile fs' ! i = Some f" by (auto simp: fs_ok_def in_set_conv_nth)
    then have "i = 0 \<or> i = 1" using f(4) [of i] by (cases "i \<ge> 2") auto
    with i(2) f(2,3) show ?thesis by (auto simp: OpenFile_new_def)
  qed
  with f(1) show ?thesis by (auto simp: ft_ok_def fs_ok_def)
qed

text \<open>The tables are in order after the start, whatever was in memory.\<close>

lemma Initialize_user_keeps:
  assumes k: "fine False k" shows "keeps True (Initialize_user k)"
  unfolding Initialize_user_def
proof (rule keeps_bindI [OF SynchConsole_new_post [OF fine_machine [OF k]]], simp add: regs_ok_def Machine_new_def, rule keeps_bind)
  fix k1 b
  assume k1: "fine False k1" and b: "BitMap_new 256 (map_garbage k1) = Inr b"
  define k2 where "k2 = k1\<lparr>phys_map := b, next_sem := addr_sem, thread_name := [currentThread k1 \<mapsto> main_name]\<rparr>"
  define k6 where "k6 = snd (new_semaphore 1 (snd (new_semaphore 0 (snd (new_semaphore 0 (snd (new_semaphore 1 (snd (new_semaphore 1 k2)))))))))"
  have f6: "fine False k6" unfolding k6_def k2_def by (intro new_semaphore_fine fine_quiet fine_tables(4) k1) simp
  have p6: "bm_ok (phys_map k6)" "bm_cap (phys_map k6) = 256"
    using BitMap_new_ok [of 256 "map_garbage k1"] b by (auto simp: k6_def k2_def new_semaphore_def bm_cap_def)
  have "fine True (k6\<lparr>pTab := t, semTable := st, fileSystem := fs\<rparr>)" if "pt_ok t" "st_ok st" "ft_ok fs" for t st fs
  proof -
    have "fine False (k6\<lparr>pTab := t, semTable := st, fileSystem := fs\<rparr>)" by (intro fine_tables f6) simp_all
    moreover have "sys_wf (k6\<lparr>pTab := t, semTable := st, fileSystem := fs\<rparr>)" using that p6 by (simp add: sys_wf_def)
    ultimately show ?thesis by (simp add: fine_def)
  qed
  then show "keeps True (let (_, k2) = new_semaphore 1 (k1\<lparr>phys_map := b, next_sem := addr_sem, thread_name := [currentThread k1 \<mapsto> main_name]\<rparr>);
           (bs, k3) = new_semaphore 1 k2; (js, k4) = new_semaphore 0 k3; (es, k5) = new_semaphore 0 k4; (ms, k6) = new_semaphore 1 k5
       in res_bind (PTable_new 10 (map_garbage k6) bs js es ms (pTab k6)) (\<lambda>t.
          res_bind (STable_new (map_garbage k6)) (\<lambda>st.
          res_bind (FileSystem_new (fileSystem k6)) (\<lambda>fs.
            Inr ([], k6\<lparr>pTab := t, semTable := st, fileSystem := fs\<rparr>)))))"
    unfolding Let_def case_prod_unfold k2_def [symmetric] k6_def [symmetric]
    by (auto intro!: keeps_bind dest!: PTable_new_ok STable_new_st_ok FileSystem_new_ft)
qed

lemma fine_True: "keeps True r \<Longrightarrow> keeps W r"
  by (auto simp: keeps_def post_def fine_def)

lemma sys_exec_keeps:
  assumes k: "fine W k" shows "keeps W (sys_exec b k)"
proof (cases b)
  case UBoot
  have "fine False k" using k by (simp add: fine_def)
  from fine_True [OF Initialize_user_keeps [OF this]] UBoot show ?thesis by (simp add: sys_exec_def)
next
  case UIncreasePC
  have "keeps W (with_machine k (\<lambda>m. res_bind (IncreasePC m) (\<lambda>m'. Inr ([], k\<lparr>machine := Some m'\<rparr>))))"
    by (rule keeps_machine [OF k], rule keeps_bind) (simp add: fine_machine [OF k] IncreasePC_regs)
  with UIncreasePC show ?thesis by (simp add: sys_exec_def)
qed (use k in \<open>simp_all add: sys_exec_def Machine_Run_keeps keeps_result console_calls_keep keeps_system2user read_stdin_end_def Start_keeps
    setup_space_keeps load_space_keeps enter_space_keeps ExecUpdate_keeps PCB_Exec_keeps exec_end_keeps num_wait_keeps Join_keeps
    join_release_keeps Remove_keeps finish_keeps inc_numwait_def dec_numwait_def Let_def\<close>)

text \<open>User programs meet the contract of the drivers' clients.\<close>

interpretation user: driver_clients sys_exec
proof (unfold_locales)
  fix k k' :: Sys and b fs
  assume "kinv k" "running k" "sys_exec b k = Inr (fs, k')"
  then show "kinv k' \<and> running k' \<and> list_all plain fs"
    using sys_exec_keeps [of False k b] by (simp add: keeps_def post_def fine_def)
qed

end
