(* ===== verification/UserProps.thy ===== *)
theory UserProps
  imports UserKernel
begin

text \<open>
  What holds while user programs run, from the start of the system on: the thread system never fails, the kernel's tables stay
  in order, and what the system calls give a program. The first part shows that threads, interrupts and
  devices leave the state above the drivers alone.
\<close>

section \<open>The kernel below leaves the state above it alone\<close>

definition quiet :: "('b, 'z) Kernel_scheme \<Rightarrow> ('b, 'z) Kernel_scheme \<Rightarrow> bool" where
  "quiet k k' = (Kernel.more k' = Kernel.more k)"

lemma quiet_trans: "quiet k k1 \<Longrightarrow> quiet k1 k2 \<Longrightarrow> quiet k k2"
  by (simp add: quiet_def)

lemma quiet_deref: "(\<And>x. post (quiet k) (f x)) \<Longrightarrow> post (quiet k) (deref t k1 f)"
  by (simp add: deref_def split: option.split)

lemma quiet_basic [simp]:
  "quiet k (set_thread t x k1) = quiet k k1" "quiet k (push fs k1) = quiet k k1" "quiet k (set_sem s v k1) = quiet k k1"
  "quiet k (ChangeLevel a b k1) = quiet k k1" "quiet k (snd (disable k1)) = quiet k k1" "quiet k k"
  by (auto simp: quiet_def set_thread_def push_def set_sem_def ChangeLevel_def disable_def split: option.split)

lemma quiet_updates [simp]:
  "quiet k (k1\<lparr>readyList := a\<rparr>) = quiet k k1" "quiet k (k1\<lparr>threads := th\<rparr>) = quiet k k1"
  "quiet k (k1\<lparr>threadToBeDestroyed := d\<rparr>) = quiet k k1" "quiet k (k1\<lparr>machine := m\<rparr>) = quiet k k1"
  "quiet k (k1\<lparr>currentThread := c\<rparr>) = quiet k k1" "quiet k (k1\<lparr>next_thread := n\<rparr>) = quiet k k1"
  "quiet k (k1\<lparr>halted := h\<rparr>) = quiet k k1" "quiet k (k1\<lparr>status := st\<rparr>) = quiet k k1"
  "quiet k (k1\<lparr>inHandler := i\<rparr>) = quiet k k1" "quiet k (k1\<lparr>yieldOnReturn := y\<rparr>) = quiet k k1"
  "quiet k (k1\<lparr>pending := ps\<rparr>) = quiet k k1" "quiet k (k1\<lparr>stats := ss\<rparr>) = quiet k k1"
  "quiet k (k1\<lparr>disk := ds\<rparr>) = quiet k k1" "quiet k (k1\<lparr>console := cs\<rparr>) = quiet k k1"
  "quiet k (k1\<lparr>buffers := bs\<rparr>) = quiet k k1" "quiet k (k1\<lparr>results := res'\<rparr>) = quiet k k1" "quiet k (k1\<lparr>randoms := rn\<rparr>) = quiet k k1"
  by (simp_all add: quiet_def)

lemma quiet_ready: "quiet k k1 \<Longrightarrow> post (quiet k) (ReadyToRun t k1)"
  unfolding ReadyToRun_def by (rule quiet_deref) simp

lemma quiet_wake: "quiet k k1 \<Longrightarrow> post (quiet k) (wake s k1)"
  unfolding wake_def by (rule post_bindI [of "quiet k"]) (auto split: list.split intro: quiet_ready)

lemma quiet_Schedule: "quiet k k1 \<Longrightarrow> post (quiet k) (Schedule h a n t k1)"
  by (simp add: Schedule_def Let_def)

lemma quiet_random [simp]: "quiet k (snd (next_random k1)) = quiet k k1"
  by (auto simp: next_random_def split: list.split)

lemma quiet_call: "quiet k k1 \<Longrightarrow> post (quiet k) (kern_call h a k1)"
  by (auto simp: kern_call_def timer_expired_def TimerExpired_def TimerInterruptHandler_def YieldOnReturn_def CheckCharAvail_def
      WriteDone_def HandleInterrupt_def Let_def case_prod_unfold intro!: quiet_wake post_bindI [OF quiet_Schedule]
      split: dev_handler.split list.split option.split)

lemma quiet_handler:
  assumes "quiet k k1" shows "post (quiet k) (run_handler kern_call p k1)"
  unfolding run_handler_def
proof (rule post_bindI [of "quiet k"])
  show "post (quiet k) (case machine k1 of None \<Rightarrow> Inr k1
      | Some m \<Rightarrow> res_bind (DelayedLoad 0 0 m) (\<lambda>m'. Inr (k1\<lparr>machine := Some m'\<rparr>)))"
    using assms by (auto split: option.split intro!: post_bind)
qed (auto intro!: post_bindI [OF quiet_call])

lemma quiet_due: "quiet k k1 \<Longrightarrow> post (\<lambda>(b, k'). quiet k k') (CheckIfDue kern_call adv k1)"
  by (auto simp: CheckIfDue_def Let_def intro!: post_bindI [OF quiet_handler] split: list.split)

lemma quiet_fire: "quiet k k1 \<Longrightarrow> post (quiet k) (fire_due kern_call n k1)"
  by (induction n arbitrary: k1) (auto simp: fire_due.simps intro!: post_bindI [OF quiet_due])

lemma quiet_tick: "quiet k k1 \<Longrightarrow> post (\<lambda>(y, k'). quiet k k') (OneTick kern_call k1)"
  by (auto simp: OneTick_def Let_def intro!: post_bindI [OF quiet_fire])

lemma quiet_set_level: "quiet k k1 \<Longrightarrow> post (quiet k) (set_level kern_call l k1)"
  unfolding set_level_def SetLevel_def Let_def
  by (auto intro!: post_bindI [of "\<lambda>(a, b, k'). quiet k k'"] post_bindI [OF quiet_tick])

lemma quiet_Idle: "quiet k k1 \<Longrightarrow> post (\<lambda>(b, k'). quiet k k') (Idle kern_call k1)"
  by (auto simp: Idle_def intro!: post_bindI [OF quiet_due] post_bindI [OF quiet_fire])

lemma quiet_Run: "quiet k k1 \<Longrightarrow> post (quiet k) (Run t k1)"
  unfolding Run_def save_user_def Let_def
  by (auto intro!: quiet_deref post_bind [of "CheckOverflow _"] post_bind [of "SaveUserState _ _"] post_bindI [of "\<lambda>(x, k'). quiet k k'"]
      split: option.split)

lemma quiet_Run_tail:
  assumes "quiet k k1" shows "post (quiet k) (Run_tail k1)"
  unfolding Run_tail_def Thread_delete_def
proof (rule post_bindI [of "quiet k"])
  show "post (quiet k) (case threadToBeDestroyed k1 of None \<Rightarrow> Inr k1
      | Some t \<Rightarrow> res_bind (deref t k1 (\<lambda>x. ASSERT (t \<noteq> currentThread k1) (Inr (k1\<lparr>threads := (threads k1)(t := None)\<rparr>))))
          (\<lambda>k1. Inr (k1\<lparr>threadToBeDestroyed := None\<rparr>)))"
    using assms by (auto split: option.split intro!: post_bindI [of "quiet k"] quiet_deref)
qed (auto intro!: quiet_deref post_bind split: option.split)

lemma quiet_Sleep: "quiet k k1 \<Longrightarrow> post (quiet k) (Thread_Sleep k1)"
  unfolding Thread_Sleep_def by (auto intro!: quiet_deref)

lemma quiet_next: "FindNextToRun k1 = (t, k2) \<Longrightarrow> quiet k k1 \<Longrightarrow> quiet k k2"
  by (auto simp: FindNextToRun_def split: list.splits)

lemma quiet_Yield: "quiet k k1 \<Longrightarrow> post (quiet k) (Thread_Yield k1)"
  unfolding Thread_Yield_def Let_def case_prod_unfold
  using quiet_next [of "snd (disable k1)" "fst (FindNextToRun (snd (disable k1)))" "snd (FindNextToRun (snd (disable k1)))" k]
  by (auto intro!: post_bindI [OF quiet_ready] quiet_Run split: option.split)

lemma quiet_Sleep_loop: "quiet k k1 \<Longrightarrow> post (quiet k) (Sleep_loop kern_call k1)"
  unfolding Sleep_loop_def
  using quiet_next [of k1 "fst (FindNextToRun k1)" "snd (FindNextToRun k1)" k]
  by (auto intro!: quiet_Run post_bindI [OF quiet_Idle] split: option.split prod.split)

lemma quiet_fork: "quiet k k1 \<Longrightarrow> post (quiet k) (fork_new b k1)"
  unfolding fork_new_def new_thread_def Thread_Fork_def Let_def case_prod_unfold
  by (auto intro!: quiet_deref post_bindI [OF quiet_ready])

lemma quiet_frame:
  assumes "quiet k k1" "\<And>a. f \<noteq> FAct a" shows "post (quiet k) (run_frame kern_call exec f k1)"
proof (cases f)
  case (FPLoop s)
  then show ?thesis using assms(1) by (auto simp: run_frame_def P_loop_def intro!: quiet_Sleep)
next
  case (FV s)
  then show ?thesis using assms(1)
    by (auto simp: run_frame_def Semaphore_V_def Let_def case_prod_unfold intro!: post_bindI [OF quiet_wake])
next
  case FFinish
  then show ?thesis using assms(1) by (auto simp: run_frame_def Thread_Finish_def Let_def case_prod_unfold intro!: quiet_Sleep)
next
  case FTick
  then show ?thesis using assms(1) by (auto simp: run_frame_def intro!: post_bindI [OF quiet_tick])
qed (use assms in \<open>auto simp: run_frame_def Semaphore_P_def Let_def case_prod_unfold
    intro: quiet_set_level quiet_Run_tail quiet_Sleep_loop quiet_Yield quiet_fork\<close>)

lemma quiet_driver: "(\<And>b. a \<noteq> ACall b) \<Longrightarrow> post (\<lambda>(fs, k'). quiet k k') (kern_exec exec a k)"
  by (cases a) (auto simp: kern_exec_def PutChar_def got_char_def GetChar_def SynchConsole_Read_def ReadRequest_def WriteRequest_def
      Let_def intro!: post_bindI [of "quiet k"] quiet_Schedule)

section \<open>Safety of the whole system\<close>

abbreviation sys_step :: "Sys \<Rightarrow> Sys res" where
  "sys_step \<equiv> kstep kern_call (kern_exec sys_exec)"

abbreviation sys_reach :: "Sys \<Rightarrow> Sys \<Rightarrow> bool" where
  "sys_reach \<equiv> kreach kern_call (kern_exec sys_exec)"

abbreviation nachos :: "bool \<Rightarrow> cstr \<Rightarrow> Sys \<Rightarrow> Sys res" where
  "nachos randomYield filename \<equiv> Initialize randomYield [ucall UBoot, ucall (UStart filename)]"

lemma quiet_wf: "quiet k k' \<Longrightarrow> sys_wf k' = sys_wf k"
  by (cases k, cases k') (simp add: quiet_def sys_wf_def)

lemma push_wf [simp]: "sys_wf (push fs k) = sys_wf k"
  by (rule quiet_wf) simp

lemma sys_exec_wf:
  assumes "kinv k" "running k" "kern_exec sys_exec a k = Inr (fs, k')" "sys_wf k \<or> a = ACall UBoot"
  shows "sys_wf k'"
proof (cases "\<exists>b. a = ACall b")
  case True
  then obtain b where b: "a = ACall b" "sys_exec b k = Inr (fs, k')" using assms(3) by (auto simp: kern_exec_def)
  have "keeps True (sys_exec b k)"
  proof (cases "sys_wf k")
    case True
    then show ?thesis using assms(1,2) by (intro sys_exec_keeps) (simp add: fine_def)
  next
    case False
    with assms(1,2,4) b(1) Initialize_user_keeps [of k] show ?thesis by (simp add: fine_def sys_exec_def)
  qed
  with b(2) show ?thesis by (simp add: keeps_def post_def fine_def)
next
  case False
  with postD [OF quiet_driver assms(3)] have "quiet k k'" by auto
  with False assms(4) quiet_wf show ?thesis by blast
qed

lemma sys_step_wf:
  assumes k: "kinv k" and wf: "sys_wf k \<or> (\<exists>fs. cur_frames k = ucall UBoot # fs)" and st: "sys_step k = Inr k'"
  shows "sys_wf k'"
proof -
  from st obtain x f fs where x: "threads k (currentThread k) = Some x" "frames_of x = f # fs"
    and r: "run_frame kern_call (kern_exec sys_exec) f (set_thread (currentThread k) (x\<lparr>frames_of := fs\<rparr>) k) = Inr k'"
    by (auto simp: kstep_def deref_def split: option.splits list.splits)
  let ?k = "set_thread (currentThread k) (x\<lparr>frames_of := fs\<rparr>) k"
  have w: "sys_wf ?k = sys_wf k" by (rule quiet_wf) simp
  have c: "cur_frames k = f # fs" using x by (simp add: cur_frames_def)
  show ?thesis
  proof (cases "\<exists>a. f = FAct a")
    case True
    then obtain a where a: "f = FAct a" by blast
    with r obtain gs k1 where e: "kern_exec sys_exec a ?k = Inr (gs, k1)" "k' = push gs k1"
      by (auto simp: run_frame_def res_bind_Inr_iff)
    have "kinv ?k \<and> running ?k" using k
    proof (cases rule: kinv_cases)
      case (1 y g gs')
      with x pop_kinv [OF k 1(1,3,5)] show ?thesis by simp
    qed (use x a in auto)
    then have "sys_wf k1" using sys_exec_wf [OF _ _ e(1)] w wf c a by auto
    with e(2) show ?thesis by simp
  next
    case False
    then have "quiet ?k k'" using postD [OF quiet_frame r, of ?k] by simp
    with quiet_wf [OF this] w wf c False show ?thesis by auto
  qed
qed

lemma sys_reach_wf: "sys_reach k k' \<Longrightarrow> kinv k \<Longrightarrow> sys_wf k \<Longrightarrow> \<not> halted k \<Longrightarrow> sys_wf k'"
proof (induction rule: kreach.induct)
  case (kreach_step k1 k2)
  then have "kinv k1" using user.kern.kreach_kinv by blast
  with kreach_step sys_step_wf show ?case by blast
qed



section \<open>A system to start\<close>

definition blank_sys :: Sys where
  "blank_sys = \<lparr>level = IntOff, pending = [], inHandler = False, yieldOnReturn = False, status = SystemMode,
     stats = Statistics_new, machine = None, threads = Map.empty, currentThread = 0, readyList = [],
     threadToBeDestroyed = None, sems = (\<lambda>_. Semaphore_new 0), next_thread = 0, halted = False, timer_randomize = False,
     randoms = [], disk = blank_disk, console = blank_console, buffers = (\<lambda>_. []), results = (\<lambda>_. 0), junk_char = 0,
     big_endian = False, next_sem = 0, phys_map = \<lparr>numBits = 0, numWords = 0, bits = []\<rparr>, te_fresh = 0,
     pTab = \<lparr>pt_bm = \<lparr>numBits = 0, numWords = 0, bits = []\<rparr>, pcbs = [], psize = 0, bmsem = 0, pcb_heap = Map.empty, pcb_next = 0\<rparr>,
     semTable = \<lparr>st_bm = \<lparr>numBits = 0, numWords = 0, bits = []\<rparr>, semTab = []\<rparr>,
     fileSystem = \<lparr>openfile = [], ufiles = [[0x61] \<mapsto> demo_exe], creatable = (\<lambda>_. True)\<rparr>,
     thread_name = Map.empty, stale_name = [], garbage = (\<lambda>_. 0), junk_space = demo_space\<rparr>"


lemma Initialize_user_total:
  assumes "creatable (fileSystem k) stdin_name" "creatable (fileSystem k) stdout_name"
  shows "\<exists>r. Initialize_user k = Inr r"
proof -
  obtain k1 where k1: "SynchConsole_new (k\<lparr>machine := Some (Machine_new False)\<rparr>) = Inr k1" "fileSystem k1 = fileSystem k"
    by (simp add: SynchConsole_new_def Schedule_def ConsoleTime_def Let_def)
  obtain b where b: "BitMap_new 256 (map_garbage k1) = Inr b" using BitMap_new_ok [of 256] by fastforce
  have st: "\<exists>st. STable_new g = Inr st" for g
  proof -
    obtain b where "BitMap_new (int MAX_SEMAPHORE) g = Inr b" using BitMap_new_ok [of "int MAX_SEMAPHORE" g] by auto
    then show ?thesis by (simp add: STable_new_def)
  qed
  have pt: "\<exists>t'. PTable_new 10 g bs js es ms t = Inr t'" for g bs js es ms t
  proof -
    obtain b where b: "BitMap_new 10 g = Inr b" "bm_ok b" "numBits b = 10" using BitMap_new_ok [of 10 g] by auto
    then obtain b1 where "BitMap_Mark 0 b = Inr b1" using BitMap_Mark_ok [of b 0] by (auto simp: bm_cap_def)
    with b show ?thesis by (simp add: PTable_new_def SetFileName_def strcpy_def scheduler_name_def case_prod_unfold Let_def)
  qed
  define k6 where "k6 = snd (new_semaphore 1 (snd (new_semaphore 0 (snd (new_semaphore 0 (snd (new_semaphore 1 (snd (new_semaphore 1
    (k1\<lparr>phys_map := b, next_sem := addr_sem, thread_name := [currentThread k1 \<mapsto> main_name]\<rparr>))))))))))"
  have "fileSystem k6 = fileSystem k" by (simp add: k6_def new_semaphore_def k1(2))
  then obtain fs where fs: "FileSystem_new (fileSystem k6) = Inr fs" using FileSystem_new_ok assms by metis
  obtain st' where st': "STable_new (map_garbage k6) = Inr st'" using st by blast
  show ?thesis
    using pt unfolding Initialize_user_def k1(1) b res_bind_simps Let_def case_prod_unfold k6_def [symmetric] st' fs by (metis res_bind_simps)
qed

text \<open>The state in which the objects of the user-program build are created.\<close>

lemma boot_step:
  obtains k0 k1 where "nachos False [0x61] blank_sys = Inr k0" "kinv k0" "cur_frames k0 = [ucall UBoot, ucall (UStart [0x61]), FFinish]"
    "sys_step k0 = Inr k1"
proof -
  obtain k0 where k0: "nachos False [0x61] blank_sys = Inr k0" "kinv k0"
    using Initialize_kinv [of blank_sys "[ucall UBoot, ucall (UStart [0x61])]" False] by (auto simp: blank_sys_def Semaphore_new_def)
  then have f: "cur_frames k0 = [ucall UBoot, ucall (UStart [0x61]), FFinish]" "fileSystem k0 = fileSystem blank_sys"
    by (auto simp: Initialize_def blank_sys_def Interrupt_init_def Enable_def main_thread_def cur_frames_def run_defs)
  then obtain x where x: "threads k0 (currentThread k0) = Some x" "frames_of x = [ucall UBoot, ucall (UStart [0x61]), FFinish]"
    by (auto simp: cur_frames_def split: option.splits)
  obtain r where "Initialize_user (set_thread (currentThread k0) (x\<lparr>frames_of := [ucall (UStart [0x61]), FFinish]\<rparr>) k0) = Inr r"
    using Initialize_user_total [of "set_thread (currentThread k0) (x\<lparr>frames_of := [ucall (UStart [0x61]), FFinish]\<rparr>) k0"] f(2)
    by (auto simp: set_thread_def blank_sys_def)
  then have "\<exists>k1. sys_step k0 = Inr k1"
    using x by (cases r) (simp add: kstep_def deref_def run_frame_def kern_exec_def sys_exec_def)
  with k0 f that show thesis by blast
qed

lemma PTable_new_used:
  assumes "PTable_new 10 g bs js es ms t = Inr t'"
  shows "bm_used (pt_bm t') = {0} \<and> (\<exists>r. pcb_at 0 t' = Inr r)"
proof -
  from BitMap_new_ok [of 10 g] obtain b where b: "BitMap_new 10 g = Inr b" "bm_ok b" "numBits b = 10" "bm_used b = {}" by auto
  from b BitMap_Mark_ok [of b 0] obtain b1 where b1: "BitMap_Mark 0 b = Inr b1" "bm_used b1 = insert 0 (bm_used b)"
    by (auto simp: bm_cap_def)
  let ?t = "\<lparr>pt_bm = b1, pcbs = replicate MAX_PROCESS None, psize = 10, bmsem = bs, pcb_heap = Map.empty, pcb_next = 0\<rparr>"
  let ?p = "(PCB_new 0 js es ms)\<lparr>FileName := scheduler_name, parentID := -1\<rparr>"
  obtain a t1 where n: "new_pcb ?p ?t = (a, t1)" by fastforce
  have t': "t' = t1\<lparr>pcbs := (pcbs t1)[0 := Some a]\<rparr>"
    using assms n b(1) b1(1) by (simp add: PTable_new_def SetFileName_def strcpy_def scheduler_name_def)
  have t1: "pt_bm t1 = b1" "pcbs t1 = replicate MAX_PROCESS None" "pcb_heap t1 a = Some ?p" using n by (auto simp: new_pcb_def)
  have "pcb_at 0 t' = Inr (a, ?p)" using t1(2,3) by (simp add: t' pcb_at_def MAX_PROCESS_def)
  then show ?thesis using b1(2) b(4) t1(1) by (simp add: t')
qed

lemma Initialize_user_first:
  "post (\<lambda>(fs, k'). bm_used (pt_bm (pTab k')) = {0} \<and> (\<exists>r. pcb_at 0 (pTab k') = Inr r) \<and> getName k' = main_name) (Initialize_user k)"
  unfolding Initialize_user_def Let_def case_prod_unfold
  by (intro post_bind, drule PTable_new_used) (simp add: getName_def new_semaphore_def)

lemma push_upper: "pTab (push fs k) = pTab k" "getName (push fs k) = getName k"
  by (simp_all add: push_def set_thread_def getName_def split: option.split)

lemma boot_state:
  obtains k0 k1 where "nachos False [0x61] blank_sys = Inr k0" "kinv k0" "cur_frames k0 = [ucall UBoot, ucall (UStart [0x61]), FFinish]"
    "sys_step k0 = Inr k1" "fine True k1" "bm_used (pt_bm (pTab k1)) = {0}" "\<exists>r. pcb_at 0 (pTab k1) = Inr r" "getName k1 = main_name"
proof -
  obtain k0 k1 where k: "nachos False [0x61] blank_sys = Inr k0" "kinv k0"
    "cur_frames k0 = [ucall UBoot, ucall (UStart [0x61]), FFinish]" "sys_step k0 = Inr k1" by (rule boot_step)
  then obtain x where x: "threads k0 (currentThread k0) = Some x" "frames_of x = [ucall UBoot, ucall (UStart [0x61]), FFinish]"
    by (auto simp: cur_frames_def split: option.splits)
  let ?k = "set_thread (currentThread k0) (x\<lparr>frames_of := [ucall (UStart [0x61]), FFinish]\<rparr>) k0"
  from k(4) x obtain fs k' where i: "Initialize_user ?k = Inr (fs, k')" "k1 = push fs k'"
    by (auto simp: kstep_def deref_def run_frame_def kern_exec_def sys_exec_def res_bind_Inr_iff)
  have "kinv ?k \<and> running ?k" using k(2)
  proof (cases rule: kinv_cases)
    case (1 y g gs)
    with x pop_kinv [OF k(2) 1(1,3,5)] show ?thesis by simp
  qed (use x in auto)
  then have "keeps True (Initialize_user ?k)" by (intro Initialize_user_keeps) (simp add: fine_def)
  with i have f: "fine True k'" "list_all plain fs" by simp_all
  from push_kinv [of k' fs] f have "fine True k1" by (simp add: fine_def i(2))
  moreover have "bm_used (pt_bm (pTab k1)) = {0}" "\<exists>r. pcb_at 0 (pTab k1) = Inr r" "getName k1 = main_name"
    using postD [OF Initialize_user_first i(1)] push_upper [of fs k'] by (simp_all add: i(2))
  ultimately show thesis using that k by blast
qed


section \<open>Processes\<close>

lemma GetFreeSlot_free:
  assumes "pt_ok t" "bm_used (pt_bm t) \<noteq> {..<10}"
  shows "\<exists>j b. GetFreeSlot t = Inr (int j, t\<lparr>pt_bm := b\<rparr>) \<and> j < 10 \<and> j \<notin> bm_used (pt_bm t) \<and>
    bm_used b = insert j (bm_used (pt_bm t))"
  using assms BitMap_Find_free [of "pt_bm t"] by (auto simp: GetFreeSlot_def pt_ok_def MAX_PROCESS_def)

lemma getName_pTab [simp]: "getName (k\<lparr>pTab := t\<rparr>) = getName k"
  by (simp add: getName_def split: option.split)


text \<open>C34. A failing \<open>Exec\<close> loses a process slot: asked for the scheduler's program or for the name of the running program,
  \<open>ExecUpdate\<close> answers -1, and the slot it has marked stays marked, although no process is in it.\<close>

theorem failing_exec_leaks_slot:
  assumes "fine True k" "bm_used (pt_bm (pTab k)) \<noteq> {..<10}" "name = scheduler_name \<or> name = getName k"
  shows "\<exists>j k1. ExecUpdate name k = Inr ([FV (bmsem (pTab k)), ucall (UResult (-1))], k1) \<and> j < 10 \<and> j \<notin> bm_used (pt_bm (pTab k)) \<and>
     bm_used (pt_bm (pTab k1)) = insert j (bm_used (pt_bm (pTab k))) \<and> pcbs (pTab k1) = pcbs (pTab k)"
proof -
  have wf: "pt_ok (pTab k)" using fine_wf [OF assms(1)] by (simp add: sys_wf_def)
  from GetFreeSlot_free [OF this assms(2)] obtain j b where
    j: "GetFreeSlot (pTab k) = Inr (int j, (pTab k)\<lparr>pt_bm := b\<rparr>)" "j < 10" "j \<notin> bm_used (pt_bm (pTab k))"
      "bm_used b = insert j (bm_used (pt_bm (pTab k)))" by blast
  have "ExecUpdate name k = Inr ([FV (bmsem (pTab k)), ucall (UResult (-1))], k\<lparr>pTab := (pTab k)\<lparr>pt_bm := b\<rparr>\<rparr>)"
    using assms(3) j(1) by (auto simp: ExecUpdate_def Let_def)
  then show ?thesis using j(2-4) by (intro exI [of _ j] exI [of _ "k\<lparr>pTab := (pTab k)\<lparr>pt_bm := b\<rparr>\<rparr>"]) simp
qed

text \<open>C35. \<open>Join\<close> never reports anything but 0: in every state that user programs reach, the answer that a successful \<open>Join\<close> gives its
  caller is 0, because \<open>Exit\<close> with any other status returns to the program instead of ending the process.\<close>

theorem join_returns_zero:
  assumes "kinv k" "cur_frames k = ucall UBoot # gs" "sys_step k = Inr k1" "sys_reach k1 k2" "joined i k2 = Inr (fs, k3)"
  shows "\<exists>a p. pcb_at i (pTab k2) = Inr (a, p) \<and> fs = [FV (exitsem p), ucall (UResult 0)] \<and> k3 = k2"
proof -
  have "sys_wf k1" using sys_step_wf [OF assms(1) _ assms(3)] assms(2) by blast
  moreover have "halted k1 \<Longrightarrow> k2 = k1" using assms(4) by (induction rule: kreach.induct) auto
  moreover have "\<not> halted k1 \<Longrightarrow> kinv k1" using user.kern.kstep_ok [OF assms(1)] assms(3) by auto
  ultimately have "sys_wf k2" using sys_reach_wf [OF assms(4)] by (cases "halted k1") auto
  moreover from assms(5) obtain a p where p: "pcb_at i (pTab k2) = Inr (a, p)"
    "fs = [FV (exitsem p), ucall (UResult (word_of_int (exitcode p)))]" "k3 = k2" by (auto simp: joined_def res_bind_Inr_iff)
  ultimately have "exitcode p = 0" using pcb_at_heap [OF p(1)] by (simp add: sys_wf_def pt_ok_def)
  with p show ?thesis by simp
qed


theorem failing_exec_leaks_slot_witness:
  "\<exists>k j k1. fine True k \<and> ExecUpdate main_name k = Inr ([FV (bmsem (pTab k)), ucall (UResult (-1))], k1) \<and>
     j \<notin> bm_used (pt_bm (pTab k)) \<and> bm_used (pt_bm (pTab k1)) = insert j (bm_used (pt_bm (pTab k)))"
proof -
  obtain k0 k where "sys_step k0 = Inr k" and k: "fine True k" "bm_used (pt_bm (pTab k)) = {0}" "getName k = main_name"
    by (rule boot_state)
  have "(5::nat) \<in> {..<10} - {0}" by simp
  then have "bm_used (pt_bm (pTab k)) \<noteq> {..<10}" unfolding k(2) by blast
  from failing_exec_leaks_slot [OF k(1) this disjI2 [OF k(3) [symmetric]]] k(1) show ?thesis by blast
qed

theorem join_returns_zero_witness:
  "\<exists>k0 k1 s. nachos False [0x61] blank_sys = Inr k0 \<and> sys_step k0 = Inr k1 \<and> joined 0 k1 = Inr ([FV s, ucall (UResult 0)], k1)"
proof -
  obtain k0 k1 where k: "nachos False [0x61] blank_sys = Inr k0" "kinv k0" "cur_frames k0 = [ucall UBoot, ucall (UStart [0x61]), FFinish]"
    "sys_step k0 = Inr k1" "\<exists>r. pcb_at 0 (pTab k1) = Inr r" by (rule boot_state)
  then obtain fs k3 where j: "joined 0 k1 = Inr (fs, k3)" by (auto simp: joined_def)
  from join_returns_zero [OF k(2-4) kreach_refl j] j k(1,4) show ?thesis by blast
qed

end
