(* ===== verification/FileHdr.thy ===== *)
theory FileHdr
  imports Devices HostFile
begin

text \<open>
  Files on the Nachos disk, the build with \<open>FILESYS\<close>: file headers (\<open>filesys/filehdr.cc\<close>) and open files
  (\<open>filesys/openfile.cc\<close>). The disk is the field \<open>sectors\<close> of theory \<open>Devices\<close>, and a thread uses it alone: the comment of
  \<open>FileSystem::Create\<close> asks for that, and two threads at the disk abort. \<open>disk_read\<close> and
  \<open>disk_write\<close> are what \<open>SynchDisk\<close> does then, as the lemmas on \<open>ReadRequest\<close> and \<open>WriteRequest\<close> say.

  A header is stored as the bytes of the object, in the byte order of the host, \<open>be\<close>. A local array that C++ does not
  initialise is a parameter \<open>g\<close>. Sums of two \<open>int\<close>s wrap.
\<close>

section \<open>Sectors\<close>

type_synonym sdisk = "nat \<Rightarrow> 8 word list"

definition disk_read :: "int \<Rightarrow> sdisk \<Rightarrow> 8 word list res" where
  "disk_read s d = ASSERT (s \<ge> 0 \<and> s < NumSectors) (Inr (d (nat s)))"

definition disk_write :: "int \<Rightarrow> 8 word list \<Rightarrow> sdisk \<Rightarrow> sdisk res" where
  "disk_write s bs d = ASSERT (s \<ge> 0 \<and> s < NumSectors) (Inr (d(nat s := bs)))"

lemma Schedule_disk:
  "Schedule h a w ty k = Inr k' \<Longrightarrow> disk k' = disk k \<and> buffers k' = buffers k"
  by (auto simp: Schedule_def ASSERT_Inr_iff Let_def split: if_splits)

lemma ReadRequest_reads:
  "ReadRequest s buf k = Inr k' \<Longrightarrow> disk_read s (sectors (disk k)) = Inr (buffers k' buf) \<and> sectors (disk k') = sectors (disk k)"
  by (auto simp: ReadRequest_def disk_read_def UpdateLast_def case_prod_unfold ASSERT_Inr_iff Let_def dest!: Schedule_disk)

lemma WriteRequest_writes:
  "WriteRequest s buf k = Inr k' \<Longrightarrow> disk_write s (buffers k buf) (sectors (disk k)) = Inr (sectors (disk k'))"
  by (auto simp: WriteRequest_def disk_write_def UpdateLast_def case_prod_unfold ASSERT_Inr_iff Let_def dest!: Schedule_disk)

section \<open>Integers in memory\<close>

definition word_bytes :: "bool \<Rightarrow> 32 word \<Rightarrow> 8 word list" where
  "word_bytes be w =
     (if be then [byte_of 3 w, byte_of 2 w, byte_of 1 w, byte_of 0 w] else [byte_of 0 w, byte_of 1 w, byte_of 2 w, byte_of 3 w])"

fun words_of :: "bool \<Rightarrow> 8 word list \<Rightarrow> 32 word list" where
  "words_of be (a # b # c # d # bs) = (if be then le_word d c b a else le_word a b c d) # words_of be bs"
| "words_of be _ = []"

definition words_bytes :: "bool \<Rightarrow> 32 word list \<Rightarrow> 8 word list" where
  "words_bytes be ws = concat (map (word_bytes be) ws)"

lemma length_word_bytes [simp]: "length (word_bytes be w) = 4"
  by (simp add: word_bytes_def)

lemma length_words_bytes [simp]: "length (words_bytes be ws) = 4 * length ws"
  by (induction ws) (simp_all add: words_bytes_def)

lemma words_of_bytes [simp]: "words_of be (words_bytes be ws) = ws"
proof (induction ws)
  case (Cons w ws)
  then show ?case using le_word_bytes [of w] by (cases be) (simp_all add: words_bytes_def word_bytes_def)
qed (simp add: words_bytes_def)

definition add32 :: "int \<Rightarrow> int \<Rightarrow> int" where
  "add32 a b = sint (word_of_int (a + b) :: 32 word)"

section \<open>File headers\<close>

definition NumDirect :: nat where
  "NumDirect = (SectorSize - 2 * 4) div 4"

record FileHeader =
  numBytes :: "32 word"
  numSectors :: "32 word"
  dataSectors :: "32 word list"

text \<open>The loop of \<open>Allocate\<close>; an index beyond the array is a fault.\<close>

definition alloc_sector :: "nat \<Rightarrow> FileHeader \<times> BitMap \<Rightarrow> (FileHeader \<times> BitMap) res" where
  "alloc_sector i = (\<lambda>(h, b). res_bind (BitMap_Find b) (\<lambda>(s, b').
     if i < NumDirect then Inr (h\<lparr>dataSectors := (dataSectors h)[i := word_of_int s]\<rparr>, b') else Inl OutOfBounds))"

definition Allocate :: "BitMap \<Rightarrow> int \<Rightarrow> FileHeader \<Rightarrow> (bool \<times> FileHeader \<times> BitMap) res" where
  "Allocate freeMap fileSize h =
     (let n = divRoundUp fileSize (int SectorSize);
          h1 = h\<lparr>numBytes := word_of_int fileSize, numSectors := word_of_int n\<rparr> in
      res_bind (BitMap_NumClear freeMap) (\<lambda>c.
        if c < n then Inr (False, h1, freeMap)
        else res_bind (res_fold alloc_sector [0..<nat n] (h1, freeMap)) (\<lambda>(h2, b). Inr (True, h2, b))))"

definition dealloc_sector :: "FileHeader \<Rightarrow> nat \<Rightarrow> BitMap \<Rightarrow> BitMap res" where
  "dealloc_sector h i b =
     (if i < NumDirect
      then let s = sint (dataSectors h ! i) in res_bind (BitMap_Test s b) (\<lambda>t. ASSERT t (BitMap_Clear s b))
      else Inl OutOfBounds)"

definition Deallocate :: "FileHeader \<Rightarrow> BitMap \<Rightarrow> BitMap res" where
  "Deallocate h freeMap = res_fold (dealloc_sector h) [0..<nat (sint (numSectors h))] freeMap"

definition header_bytes :: "bool \<Rightarrow> FileHeader \<Rightarrow> 8 word list" where
  "header_bytes be h = words_bytes be (numBytes h # numSectors h # dataSectors h)"

definition FileHeader_FetchFrom :: "bool \<Rightarrow> int \<Rightarrow> sdisk \<Rightarrow> FileHeader res" where
  "FileHeader_FetchFrom be sector d = res_bind (disk_read sector d) (\<lambda>bs.
     let ws = words_of be bs in
     Inr \<lparr>numBytes = ws ! 0, numSectors = ws ! 1, dataSectors = drop 2 ws\<rparr>)"

definition FileHeader_WriteBack :: "bool \<Rightarrow> int \<Rightarrow> FileHeader \<Rightarrow> sdisk \<Rightarrow> sdisk res" where
  "FileHeader_WriteBack be sector h d = disk_write sector (header_bytes be h) d"

definition ByteToSector :: "FileHeader \<Rightarrow> int \<Rightarrow> int res" where
  "ByteToSector h offset =
     (let i = offset sdiv int SectorSize in
      if 0 \<le> i \<and> i < int NumDirect then Inr (sint (dataSectors h ! nat i)) else Inl OutOfBounds)"

definition FileLength :: "FileHeader \<Rightarrow> int" where
  "FileLength h = sint (numBytes h)"

section \<open>Open files\<close>

record NOpenFile =
  hdr :: FileHeader
  seekPosition :: int
  nf_type :: int

text \<open>The constructors; the first leaves the type as it is, \<open>t\<close>.\<close>

definition NOpenFile_new :: "bool \<Rightarrow> int \<Rightarrow> int \<Rightarrow> sdisk \<Rightarrow> NOpenFile res" where
  "NOpenFile_new be sector t d =
     res_bind (FileHeader_FetchFrom be sector d) (\<lambda>h. Inr \<lparr>hdr = h, seekPosition = 0, nf_type = t\<rparr>)"

definition Seek :: "int \<Rightarrow> NOpenFile \<Rightarrow> NOpenFile" where
  "Seek position f = f\<lparr>seekPosition := position\<rparr>"

primrec read_sectors :: "FileHeader \<Rightarrow> int list \<Rightarrow> sdisk \<Rightarrow> 8 word list res" where
  "read_sectors h [] d = Inr []"
| "read_sectors h (i # is') d =
     res_bind (ByteToSector h (i * int SectorSize)) (\<lambda>s.
     res_bind (disk_read s d) (\<lambda>bs.
     res_bind (read_sectors h is' d) (\<lambda>rest. Inr (bs @ rest))))"

text \<open>The number of bytes of a request, after it was cut at the end of the file.\<close>

definition request_size :: "int \<Rightarrow> int \<Rightarrow> int \<Rightarrow> int" where
  "request_size fileLength numBytes' position =
     (if add32 position numBytes' > fileLength then add32 fileLength (- position) else numBytes')"

definition ReadAt :: "int \<Rightarrow> int \<Rightarrow> FileHeader \<Rightarrow> sdisk \<Rightarrow> 8 word list res" where
  "ReadAt numBytes' position h d =
     (let fileLength = FileLength h in
      if numBytes' \<le> 0 \<or> position \<ge> fileLength then Inr []
      else let n = request_size fileLength numBytes' position;
               firstSector = divRoundDown position (int SectorSize);
               lastSector = divRoundDown (add32 position n - 1) (int SectorSize);
               start = position - firstSector * int SectorSize in
        if 1 + lastSector - firstSector < 0 then Inl BadAlloc
        else res_bind (read_sectors h [firstSector..lastSector] d) (\<lambda>buf.
          if start < 0 \<or> n < 0 \<or> start + n > int (length buf) then Inl OutOfBounds
          else Inr (take (nat n) (drop (nat start) buf))))"

text \<open>\<open>bcopy\<close> into a buffer.\<close>

definition put_at :: "nat \<Rightarrow> 8 word list \<Rightarrow> 8 word list \<Rightarrow> 8 word list" where
  "put_at i bs buf = take i buf @ bs @ drop (i + length bs) buf"

definition write_sector :: "FileHeader \<Rightarrow> 8 word list \<Rightarrow> int \<Rightarrow> int \<Rightarrow> sdisk \<Rightarrow> sdisk res" where
  "write_sector h buf firstSector i d =
     res_bind (ByteToSector h (i * int SectorSize)) (\<lambda>s.
       disk_write s (take SectorSize (drop (nat (i - firstSector) * SectorSize) buf)) d)"

definition WriteAt :: "(nat \<Rightarrow> 8 word) \<Rightarrow> 8 word list \<Rightarrow> int \<Rightarrow> int \<Rightarrow> FileHeader \<Rightarrow> sdisk \<Rightarrow> (int \<times> sdisk) res" where
  "WriteAt g from numBytes' position h d =
     (let fileLength = FileLength h in
      if numBytes' \<le> 0 \<or> position \<ge> fileLength then Inr (0, d)
      else let n = request_size fileLength numBytes' position;
               firstSector = divRoundDown position (int SectorSize);
               lastSector = divRoundDown (add32 position n - 1) (int SectorSize);
               num = 1 + lastSector - firstSector;
               start = position - firstSector * int SectorSize;
               firstAligned = (position = firstSector * int SectorSize);
               lastAligned = (add32 position n = (lastSector + 1) * int SectorSize) in
        if num < 0 then Inl BadAlloc
        else res_bind (if \<not> firstAligned then ReadAt (int SectorSize) (firstSector * int SectorSize) h d else Inr []) (\<lambda>b1.
          res_bind (if \<not> lastAligned \<and> (firstSector \<noteq> lastSector \<or> firstAligned)
                    then ReadAt (int SectorSize) (lastSector * int SectorSize) h d else Inr []) (\<lambda>b2.
          let buf = put_at (nat (lastSector - firstSector) * SectorSize) b2 (put_at 0 b1 (map g [0..<nat num * SectorSize])) in
          if start < 0 \<or> n < 0 \<or> start + n > int (length buf) \<or> n > int (length from) then Inl OutOfBounds
          else res_bind (res_fold (write_sector h (put_at (nat start) (take (nat n) from) buf) firstSector) [firstSector..lastSector] d)
            (\<lambda>d'. Inr (n, d')))))"

definition NOpenFile_Read :: "int \<Rightarrow> NOpenFile \<Rightarrow> sdisk \<Rightarrow> (8 word list \<times> NOpenFile) res" where
  "NOpenFile_Read n f d = res_bind (ReadAt n (seekPosition f) (hdr f) d) (\<lambda>bs.
     Inr (bs, f\<lparr>seekPosition := seekPosition f + int (length bs)\<rparr>))"

definition NOpenFile_Write :: "(nat \<Rightarrow> 8 word) \<Rightarrow> 8 word list \<Rightarrow> int \<Rightarrow> NOpenFile \<Rightarrow> sdisk \<Rightarrow> (int \<times> NOpenFile \<times> sdisk) res" where
  "NOpenFile_Write g from n f d = res_bind (WriteAt g from n (seekPosition f) (hdr f) d) (\<lambda>(r, d').
     Inr (r, f\<lparr>seekPosition := seekPosition f + r\<rparr>, d'))"

definition NOpenFile_Length :: "NOpenFile \<Rightarrow> int" where
  "NOpenFile_Length f = FileLength (hdr f)"

definition NOpenFile_GetCurrentPos :: "NOpenFile \<Rightarrow> int" where
  "NOpenFile_GetCurrentPos f = seekPosition f"

section \<open>Lists of blocks of equal length\<close>

definition blocks_of :: "nat \<Rightarrow> 'a list list \<Rightarrow> bool" where
  "blocks_of k bs = (\<forall>b \<in> set bs. length b = k)"

lemma length_blocks: "blocks_of k bs \<Longrightarrow> length (concat bs) = k * length bs"
  by (induction bs) (auto simp: blocks_of_def)

lemma nth_blocks: "blocks_of k bs \<Longrightarrow> q < k * length bs \<Longrightarrow> concat bs ! q = bs ! (q div k) ! (q mod k)"
proof (induction bs arbitrary: q)
  case (Cons b bs)
  show ?case
  proof (cases "q < k")
    case False
    then have "q div k = Suc ((q - k) div k)" "q mod k = (q - k) mod k"
      using Cons.prems(2) by (cases "k = 0"; simp add: le_div_geq le_mod_geq)+
    then show ?thesis using Cons False by (auto simp: blocks_of_def nth_append)
  qed (use Cons.prems in \<open>auto simp: blocks_of_def nth_append\<close>)
qed simp

lemma blocks_sub: "blocks_of k bs \<Longrightarrow> blocks_of k (drop m bs)"
  by (auto simp: blocks_of_def dest: in_set_dropD)

lemma take_blocks: "blocks_of k bs \<Longrightarrow> concat (take m bs) = take (k * m) (concat bs)"
  by (induction bs arbitrary: m) (auto simp: blocks_of_def take_Cons split: nat.split)

lemma drop_blocks: "blocks_of k bs \<Longrightarrow> concat (drop m bs) = drop (k * m) (concat bs)"
  by (induction bs arbitrary: m) (auto simp: blocks_of_def drop_Cons split: nat.split)

section \<open>What headers promise\<close>

text \<open>A header as \<open>Allocate\<close> leaves it, the sectors it names, and the bytes of its file.\<close>

definition hdr_size :: "FileHeader \<Rightarrow> nat" where
  "hdr_size h = nat (sint (numBytes h))"

definition hdr_secs :: "FileHeader \<Rightarrow> nat list" where
  "hdr_secs h = map (\<lambda>w. nat (sint w)) (take (nat (sint (numSectors h))) (dataSectors h))"

definition hdr_ok :: "FileHeader \<Rightarrow> bool" where
  "hdr_ok h = (0 \<le> sint (numBytes h) \<and> sint (numSectors h) = divRoundUp (sint (numBytes h)) (int SectorSize) \<and>
     sint (numSectors h) \<le> int NumDirect \<and> length (dataSectors h) = NumDirect \<and> distinct (hdr_secs h) \<and>
     list_all (\<lambda>w. 0 \<le> sint w \<and> sint w < NumSectors) (take (nat (sint (numSectors h))) (dataSectors h)))"

definition disk_ok :: "sdisk \<Rightarrow> bool" where
  "disk_ok d = (\<forall>s < 1024. length (d s) = SectorSize)"

definition file_bytes :: "FileHeader \<Rightarrow> sdisk \<Rightarrow> 8 word list" where
  "file_bytes h d = take (hdr_size h) (concat (map d (hdr_secs h)))"

lemmas sizes = SectorSize_def NumDirect_def NumSectors_def SectorsPerTrack_def NumTracks_def

lemma add32_eq [simp]: "- (2 ^ 31) \<le> a + b \<Longrightarrow> a + b < 2 ^ 31 \<Longrightarrow> add32 a b = a + b"
  unfolding add32_def by (subst sint_sbintrunc') (simp add: signed_take_bit_int_eq_self)

lemma secs_lt: "hdr_ok h \<Longrightarrow> s \<in> set (hdr_secs h) \<Longrightarrow> s < 1024"
  by (fastforce simp: hdr_ok_def hdr_secs_def list_all_iff sizes)

lemma secs_len: "hdr_ok h \<Longrightarrow> length (hdr_secs h) = nat (sint (numSectors h))" "hdr_ok h \<Longrightarrow> length (hdr_secs h) \<le> 126"
  by (auto simp: hdr_ok_def hdr_secs_def sizes)

lemma size_secs: "hdr_ok h \<Longrightarrow> hdr_size h \<le> 512 * length (hdr_secs h)" "hdr_ok h \<Longrightarrow> 512 * length (hdr_secs h) < hdr_size h + 512"
  using divRoundUp_bounds [of "sint (numBytes h)" 512] divRoundUp_nonneg [of "sint (numBytes h)" 512]
  by (simp_all add: secs_len(1) hdr_size_def) (auto simp: hdr_ok_def SectorSize_def)

lemma FileLength_size: "hdr_ok h \<Longrightarrow> FileLength h = int (hdr_size h)"
  by (simp add: FileLength_def hdr_size_def hdr_ok_def)

lemma size_bound: "hdr_ok h \<Longrightarrow> hdr_size h \<le> 64512"
  using size_secs(1) [of h] secs_len(2) [of h] by linarith

lemma blocks_ok: "hdr_ok h \<Longrightarrow> disk_ok d \<Longrightarrow> blocks_of 512 (map d (hdr_secs h))"
  using secs_lt [of h] by (auto simp: blocks_of_def disk_ok_def SectorSize_def)

lemma length_file_bytes: "hdr_ok h \<Longrightarrow> disk_ok d \<Longrightarrow> length (file_bytes h d) = hdr_size h"
  using size_secs(1) [of h] by (simp add: file_bytes_def length_blocks [OF blocks_ok])

lemma ByteToSector_ok:
  assumes "hdr_ok h" "i < length (hdr_secs h)"
  shows "ByteToSector h (int i * 512) = Inr (int (hdr_secs h ! i))"
proof -
  have i: "i < nat (sint (numSectors h))" "i < 126" using assms secs_len [of h] by simp_all
  then have "0 \<le> sint (dataSectors h ! i)"
    using assms(1) by (auto simp: hdr_ok_def list_all_length sizes)
  moreover have "int i * 512 sdiv 512 = int i" by (simp add: sdiv_nonneg)
  ultimately show ?thesis using i assms by (simp add: ByteToSector_def Let_def sizes hdr_secs_def)
qed

section \<open>Reading\<close>

lemma disk_read_sec:
  assumes "hdr_ok h" "i < length (hdr_secs h)" shows "disk_read (int (hdr_secs h ! i)) d = Inr (d (hdr_secs h ! i))"
  using secs_lt [OF assms(1) nth_mem [OF assms(2)]] by (simp add: disk_read_def sizes)

lemma disk_write_sec:
  assumes "hdr_ok h" "i < length (hdr_secs h)" shows "disk_write (int (hdr_secs h ! i)) bs d = Inr (d(hdr_secs h ! i := bs))"
  using secs_lt [OF assms(1) nth_mem [OF assms(2)]] by (simp add: disk_write_def sizes)

lemma read_sectors_ok:
  assumes "hdr_ok h" "a + m \<le> length (hdr_secs h)"
  shows "read_sectors h (map int [a..<a + m]) d = Inr (concat (take m (drop a (map d (hdr_secs h)))))"
  using assms(2)
proof (induction m arbitrary: a)
  case (Suc m)
  then have a: "a < length (hdr_secs h)" by simp
  from Suc.prems Suc.IH [of "Suc a"] have "read_sectors h (map int [Suc a..<Suc a + m]) d =
      Inr (concat (take m (drop (Suc a) (map d (hdr_secs h)))))" by simp
  moreover have "[a..<a + Suc m] = a # [Suc a..<Suc a + m]" by (simp add: upt_conv_Cons)
  moreover have "drop a (map d (hdr_secs h)) = d (hdr_secs h ! a) # drop (Suc a) (map d (hdr_secs h))"
    using a by (simp add: Cons_nth_drop_Suc [symmetric])
  ultimately show ?case by (simp add: ByteToSector_ok [OF assms(1) a] disk_read_sec [OF assms(1) a] SectorSize_def)
qed simp

text \<open>The sectors of a request that lies inside the file.\<close>

lemma upto_upt: "[int a..int b] = map int [a..<b + 1]"
proof (induction "b + 1 - a" arbitrary: a)
  case (Suc n)
  then have "a \<le> b" "n = b + 1 - Suc a" by simp_all
  with Suc.hyps(1) [of "Suc a"] show ?case by (simp add: upto_rec1 upt_conv_Cons add.commute)
qed (simp add: upto_empty)

lemma request_ok:
  assumes "hdr_ok h" "pos < hdr_size h" "pos + nb < 2 ^ 31"
  shows "request_size (FileLength h) (int nb) (int pos) = int (min nb (hdr_size h - pos))"
  using assms size_bound [OF assms(1)] by (auto simp: request_size_def FileLength_size min_def of_nat_diff)

lemma sector_of: "divRoundDown (int p) 512 = int (p div 512)"
  by (simp add: divRoundDown_def sdiv_nonneg zdiv_int)

lemma request_sectors:
  assumes "hdr_ok h" "pos < hdr_size h" "0 < n" "n \<le> hdr_size h - pos"
  defines "a \<equiv> pos div 512" and "b \<equiv> (pos + n - 1) div 512"
  shows "a \<le> b" "b < length (hdr_secs h)" "pos - a * 512 + n \<le> (b + 1 - a) * 512"
    "divRoundDown (int pos) 512 = int a"
    "divRoundDown (add32 (int pos) (int n) - 1) 512 = int b"
proof -
  show "a \<le> b" using assms(3) by (simp add: a_def b_def div_le_mono)
  have "pos + n - 1 < 512 * length (hdr_secs h)" using assms(2-4) size_secs(1) [OF assms(1)] by linarith
  then show "b < length (hdr_secs h)" by (simp add: b_def less_mult_imp_div_less mult.commute)
  have "a * 512 \<le> pos" "pos + n - 1 < (b + 1) * 512" by (simp_all add: a_def b_def)
  then show "pos - a * 512 + n \<le> (b + 1 - a) * 512" using \<open>a \<le> b\<close> assms(3) by (simp add: diff_mult_distrib)
  show "divRoundDown (int pos) 512 = int a" by (simp add: sector_of a_def)
  have "add32 (int pos) (int n) - 1 = int (pos + n - 1)"
    using assms size_bound [OF assms(1)] by (simp add: of_nat_diff)
  then show "divRoundDown (add32 (int pos) (int n) - 1) 512 = int b" by (simp only: sector_of b_def)
qed

lemma ReadAt_ok:
  assumes "hdr_ok h" "disk_ok d" "pos + nb < 2 ^ 31"
  shows "ReadAt (int nb) (int pos) h d = Inr (take nb (drop pos (file_bytes h d)))"
proof (cases "nb = 0 \<or> hdr_size h \<le> pos")
  case True
  then show ?thesis using length_file_bytes [OF assms(1,2)] by (auto simp: ReadAt_def FileLength_size [OF assms(1)])
next
  case False
  define n where "n = min nb (hdr_size h - pos)"
  have n: "0 < n" "n \<le> hdr_size h - pos" using False by (simp_all add: n_def)
  have p: "pos < hdr_size h" using False by simp
  define a b where "a = pos div 512" and "b = (pos + n - 1) div 512"
  note r = request_sectors [OF assms(1) p n, folded a_def b_def]
  let ?C = "concat (map d (hdr_secs h))"
  have u: "[int a..int b] = map int [a..<a + (b + 1 - a)]" using r(1) upto_upt [of a b] by simp
  have bl: "blocks_of 512 (map d (hdr_secs h))" by (rule blocks_ok [OF assms(1,2)])
  have s: "read_sectors h [int a..int b] d = Inr (take (512 * (b + 1 - a)) (drop (512 * a) ?C))"
  proof -
    from take_blocks [OF blocks_sub [OF bl]] show ?thesis
      unfolding u using r(1,2) by (subst read_sectors_ok [OF assms(1)]) (simp_all add: drop_blocks [OF bl])
  qed
  have l: "length ?C = 512 * length (hdr_secs h)" using length_blocks [OF bl] by simp
  have st: "int pos - int a * 512 = int (pos - a * 512)" by (simp add: a_def of_nat_diff)
  have k: "take n (drop (pos - a * 512) (take (512 * (b + 1 - a)) (drop (512 * a) ?C))) = take nb (drop pos (file_bytes h d))"
  proof -
    have "pos - a * 512 + 512 * a = pos" by (simp add: a_def)
    moreover have "min n (512 * (b + 1 - a) - (pos - a * 512)) = n" using r(3) by (simp add: mult.commute min_def)
    moreover have "take nb (drop pos (file_bytes h d)) = take n (drop pos ?C)"
      by (simp add: file_bytes_def drop_take min.commute n_def)
    ultimately show ?thesis by (simp add: drop_take)
  qed
  have "pos - a * 512 + n \<le> length (take (512 * (b + 1 - a)) (drop (512 * a) ?C))"
    using r(1-3) l by (simp add: diff_mult_distrib2)
  then show ?thesis
    using False p r(1) k assms(3)
    by (simp add: ReadAt_def FileLength_size [OF assms(1)] request_ok [OF assms(1) p, unfolded FileLength_size [OF assms(1)]]
        n_def [symmetric] r(4,5) s Let_def SectorSize_def st) arith
qed

section \<open>Writing\<close>

lemma length_put_at: "i + length bs \<le> length buf \<Longrightarrow> length (put_at i bs buf) = length buf"
  by (simp add: put_at_def)

lemma nth_put_at:
  "i + length bs \<le> length buf \<Longrightarrow> q < length buf \<Longrightarrow>
   put_at i bs buf ! q = (if i \<le> q \<and> q < i + length bs then bs ! (q - i) else buf ! q)"
  by (auto simp: put_at_def nth_append)

lemma write_sectors_ok:
  assumes "hdr_ok h" "a0 \<le> a" "a + m \<le> length (hdr_secs h)"
  shows "\<exists>d'. res_fold (write_sector h buf (int a0)) (map int [a..<a + m]) d = Inr d' \<and>
     (\<forall>j. a \<le> j \<longrightarrow> j < a + m \<longrightarrow> d' (hdr_secs h ! j) = take 512 (drop ((j - a0) * 512) buf)) \<and>
     (\<forall>s. (\<forall>j. a \<le> j \<longrightarrow> j < a + m \<longrightarrow> s \<noteq> hdr_secs h ! j) \<longrightarrow> d' s = d s)"
  using assms(2,3)
proof (induction m arbitrary: a d)
  case (Suc m)
  then have a: "a < length (hdr_secs h)" by simp
  let ?d = "d(hdr_secs h ! a := take 512 (drop ((a - a0) * 512) buf))"
  have "a0 \<le> Suc a" "Suc a + m \<le> length (hdr_secs h)" using Suc.prems by simp_all
  from Suc.IH [OF this, of ?d] obtain d' where
    d': "res_fold (write_sector h buf (int a0)) (map int [Suc a..<Suc a + m]) ?d = Inr d'"
      "\<forall>j. Suc a \<le> j \<longrightarrow> j < Suc a + m \<longrightarrow> d' (hdr_secs h ! j) = take 512 (drop ((j - a0) * 512) buf)"
      "\<forall>s. (\<forall>j. Suc a \<le> j \<longrightarrow> j < Suc a + m \<longrightarrow> s \<noteq> hdr_secs h ! j) \<longrightarrow> d' s = ?d s" by blast
  have "[a..<a + Suc m] = a # [Suc a..<Suc a + m]" by (simp add: upt_conv_Cons)
  moreover have "write_sector h buf (int a0) (int a) d = Inr ?d"
    using Suc.prems(1) by (simp add: write_sector_def ByteToSector_ok [OF assms(1) a] disk_write_sec [OF assms(1) a] SectorSize_def nat_minus_as_int)
  ultimately have "res_fold (write_sector h buf (int a0)) (map int [a..<a + Suc m]) d = Inr d'" using d'(1) by simp
  moreover have "d' (hdr_secs h ! a) = take 512 (drop ((a - a0) * 512) buf)"
  proof -
    have "distinct (hdr_secs h)" using assms(1) by (simp add: hdr_ok_def)
    then have "\<forall>j. Suc a \<le> j \<longrightarrow> j < Suc a + m \<longrightarrow> hdr_secs h ! a \<noteq> hdr_secs h ! j"
      using Suc.prems(2) a by (auto simp: nth_eq_iff_index_eq)
    with d'(3) show ?thesis by simp
  qed
  moreover have "d' s = d s" if "\<forall>j. a \<le> j \<longrightarrow> j < a + Suc m \<longrightarrow> s \<noteq> hdr_secs h ! j" for s
  proof -
    have "s \<noteq> hdr_secs h ! a" using that by simp
    moreover have "\<forall>j. Suc a \<le> j \<longrightarrow> j < Suc a + m \<longrightarrow> s \<noteq> hdr_secs h ! j" using that by simp
    ultimately show ?thesis using d'(3) by simp
  qed
  moreover have "d' (hdr_secs h ! j) = take 512 (drop ((j - a0) * 512) buf)" if "a \<le> j" "j < a + Suc m" for j
    using that d'(2) calculation(2) by (cases "j = a") auto
  ultimately show ?case by blast
qed simp

text \<open>The bytes of the file after a write.\<close>

definition written :: "nat \<Rightarrow> 8 word list \<Rightarrow> 8 word list \<Rightarrow> 8 word list" where
  "written pos bs c = take pos c @ take (length c - pos) bs @ drop (pos + length bs) c"

lemma length_written: "pos \<le> length c \<Longrightarrow> length (written pos bs c) = length c"
  by (simp add: written_def)

lemma nth_written:
  "pos \<le> length c \<Longrightarrow> q < length c \<Longrightarrow> written pos bs c ! q = (if pos \<le> q \<and> q < pos + length bs then bs ! (q - pos) else c ! q)"
  by (auto simp: written_def nth_append min_def)

lemma write_buffer_length:
  "a \<le> b \<Longrightarrow> length buf0 = (b + 1 - a) * 512 \<Longrightarrow> length b1 \<le> 512 \<Longrightarrow> length b2 \<le> 512 \<Longrightarrow>
   length (put_at ((b - a) * 512) b2 (put_at 0 b1 buf0)) = (b + 1 - a) * 512"
  by (subst length_put_at; subst length_put_at; simp add: Suc_diff_le)

text \<open>The buffer that \<open>WriteAt\<close> writes back agrees with the new contents wherever it holds bytes of the file.\<close>

lemma write_buffer:
  fixes a b pos n :: nat
  assumes ab: "a = pos div 512" "b = (pos + n - 1) div 512" "0 < n" and c: "pos + n \<le> length c" and lf: "length from = n"
    and buf0: "length buf0 = (b + 1 - a) * 512"
    and b1: "b1 = (if pos = a * 512 then [] else take 512 (drop (a * 512) c))"
    and b2: "b2 = (if pos + n \<noteq> (b + 1) * 512 \<and> (a \<noteq> b \<or> pos = a * 512) then take 512 (drop (b * 512) c) else [])"
  defines "buf \<equiv> put_at (pos - a * 512) from (put_at ((b - a) * 512) b2 (put_at 0 b1 buf0))"
  shows "length buf = (b + 1 - a) * 512"
    and "a * 512 \<le> q \<Longrightarrow> q < (b + 1) * 512 \<Longrightarrow> q < length c \<Longrightarrow> buf ! (q - a * 512) = written pos from c ! q"
proof -
  have ab': "a \<le> b" "a * 512 \<le> pos" "pos < (a + 1) * 512" "b * 512 \<le> pos + n - 1" "pos + n - 1 < (b + 1) * 512"
    using ab by (simp_all add: div_le_mono)
  have m: "(b + 1 - a) * 512 = (b - a) * 512 + 512" using ab'(1) by (simp add: Suc_diff_le)
  have l1: "length b1 \<le> 512" and l2: "length b2 \<le> 512" by (simp_all add: b1 b2)
  let ?s1 = "put_at 0 b1 buf0" and ?s2 = "put_at ((b - a) * 512) b2 (put_at 0 b1 buf0)"
  have s1: "length ?s1 = (b + 1 - a) * 512" using l1 m buf0 by (subst length_put_at) simp_all
  have s2: "length ?s2 = (b + 1 - a) * 512" by (rule write_buffer_length [OF ab'(1) buf0 l1 l2])
  have e: "pos - a * 512 + n \<le> (b + 1 - a) * 512" using ab' m ab(3) by (simp add: diff_mult_distrib)
  show "length buf = (b + 1 - a) * 512" unfolding buf_def using s2 e lf by (subst length_put_at) simp_all
  assume q: "a * 512 \<le> q" "q < (b + 1) * 512" "q < length c"
  let ?i = "q - a * 512"
  have i: "?i < (b + 1 - a) * 512" using q(1,2) ab'(1) by (simp add: diff_mult_distrib)
  have "buf ! ?i = (if pos - a * 512 \<le> ?i \<and> ?i < pos - a * 512 + n then from ! (?i - (pos - a * 512)) else ?s2 ! ?i)"
    unfolding buf_def using s2 e lf i by (subst nth_put_at) simp_all
  also have "\<dots> = (if pos \<le> q \<and> q < pos + n then from ! (q - pos) else ?s2 ! ?i)"
    using q(1) ab'(2) by (auto simp: le_diff_conv2)
  finally have B: "buf ! ?i = (if pos \<le> q \<and> q < pos + n then from ! (q - pos) else ?s2 ! ?i)" .
  have S2: "?s2 ! ?i = (if (b - a) * 512 \<le> ?i \<and> ?i < (b - a) * 512 + length b2 then b2 ! (?i - (b - a) * 512) else ?s1 ! ?i)"
    using s1 l2 m i by (subst nth_put_at) simp_all
  have S1: "?s1 ! ?i = (if ?i < length b1 then b1 ! ?i else buf0 ! ?i)"
    using buf0 l1 m i by (subst nth_put_at) simp_all
  have "?s2 ! ?i = c ! q" if "\<not> (pos \<le> q \<and> q < pos + n)"
  proof (cases "q < pos")
    case True
    then have ne: "pos \<noteq> a * 512" "?i < 512" using q(1) ab'(3) by auto
    then have "?i < length b1" "b1 ! ?i = c ! q" using q(1,3) by (auto simp: b1)
    moreover have "\<not> ((b - a) * 512 \<le> ?i \<and> ?i < (b - a) * 512 + length b2)" using ne ab'(1) by (cases "a = b") (auto simp: b2)
    ultimately show ?thesis unfolding S2 S1 by auto
  next
    case False
    then have q': "pos + n \<le> q" using that by simp
    then have la: "pos + n \<noteq> (b + 1) * 512" "b * 512 \<le> q" using q(2) ab'(4) ab(3) by auto
    show ?thesis
    proof (cases "a \<noteq> b \<or> pos = a * 512")
      case True
      have "?i = (b - a) * 512 + (q - b * 512)" using la(2) ab'(1) q(1) by (simp add: diff_mult_distrib)
      moreover have "q - b * 512 < length b2" "b2 ! (q - b * 512) = c ! q" using la True q by (auto simp: b2)
      ultimately show ?thesis unfolding S2 by simp
    next
      case False
      then have "b2 = []" "?i < length b1" "b1 ! ?i = c ! q" using q by (auto simp: b1 b2)
      then show ?thesis unfolding S2 S1 by auto
    qed
  qed
  then show "buf ! ?i = written pos from c ! q" using B c q(3) lf by (auto simp: nth_written)
qed

lemma disk_ok_write: "disk_ok d \<Longrightarrow> \<forall>s. s \<notin> S \<longrightarrow> d' s = d s \<Longrightarrow> \<forall>s \<in> S. length (d' s) = SectorSize \<Longrightarrow> disk_ok d'"
  unfolding disk_ok_def by metis

text \<open>From the sectors that were written to the bytes of the file.\<close>

lemma written_file:
  assumes h: "hdr_ok h" and d: "disk_ok d" and ab: "a = pos div 512" "b = (pos + n - 1) div 512" "0 < n" "b < length (hdr_secs h)"
    and n: "pos + n \<le> hdr_size h" "length bs = n" and buf: "length buf = (b + 1 - a) * 512"
      "\<And>q. a * 512 \<le> q \<Longrightarrow> q < (b + 1) * 512 \<Longrightarrow> q < hdr_size h \<Longrightarrow> buf ! (q - a * 512) = written pos bs (file_bytes h d) ! q"
    and d': "\<And>j. a \<le> j \<Longrightarrow> j \<le> b \<Longrightarrow> d' (hdr_secs h ! j) = take 512 (drop ((j - a) * 512) buf)"
      "\<And>s. (\<And>j. a \<le> j \<Longrightarrow> j \<le> b \<Longrightarrow> s \<noteq> hdr_secs h ! j) \<Longrightarrow> d' s = d s"
  shows "file_bytes h d' = written pos bs (file_bytes h d)" "disk_ok d'" "s \<notin> set (hdr_secs h) \<Longrightarrow> d' s = d s"
proof -
  let ?c = "file_bytes h d"
  have len: "length ?c = hdr_size h" by (rule length_file_bytes [OF h d])
  have le: "length (take 512 (drop ((j - a) * 512) buf)) = 512" if "a \<le> j" "j \<le> b" for j
  proof -
    have "(j - a) * 512 + 512 \<le> (b + 1 - a) * 512" using that by (simp add: diff_mult_distrib)
    then show ?thesis using buf(1) by simp
  qed
  show ok': "disk_ok d'"
  proof (rule disk_ok_write [OF d])
    show "\<forall>s. s \<notin> {hdr_secs h ! j |j. a \<le> j \<and> j \<le> b} \<longrightarrow> d' s = d s" using d'(2) by blast
    show "\<forall>s \<in> {hdr_secs h ! j |j. a \<le> j \<and> j \<le> b}. length (d' s) = SectorSize" using d'(1) le by (auto simp: SectorSize_def)
  qed
  show "s \<notin> set (hdr_secs h) \<Longrightarrow> d' s = d s" using d'(2) [of s] ab(4) by (metis le_less_trans nth_mem)
  have nth: "concat (map x (hdr_secs h)) ! q = x (hdr_secs h ! (q div 512)) ! (q mod 512)" "q div 512 < length (hdr_secs h)"
    if "disk_ok x" "q < hdr_size h" for x q
  proof -
    have "q < 512 * length (hdr_secs h)" using that(2) size_secs(1) [OF h] by simp
    then show "q div 512 < length (hdr_secs h)" by (simp add: less_mult_imp_div_less mult.commute)
    then show "concat (map x (hdr_secs h)) ! q = x (hdr_secs h ! (q div 512)) ! (q mod 512)"
      using nth_blocks [OF blocks_ok [OF h that(1)], of q] \<open>q < 512 * length (hdr_secs h)\<close> by simp
  qed
  show "file_bytes h d' = written pos bs ?c"
  proof (rule nth_equalityI)
    show "length (file_bytes h d') = length (written pos bs ?c)" using n by (simp add: length_file_bytes [OF h] ok' len length_written)
  next
    fix q assume "q < length (file_bytes h d')"
    then have q: "q < hdr_size h" by (simp add: length_file_bytes [OF h ok'])
    have eq: "file_bytes h d' ! q = d' (hdr_secs h ! (q div 512)) ! (q mod 512)" "?c ! q = d (hdr_secs h ! (q div 512)) ! (q mod 512)"
      using nth [OF ok' q] nth [OF d q] q by (simp_all add: file_bytes_def)
    show "file_bytes h d' ! q = written pos bs ?c ! q"
    proof (cases "a \<le> q div 512 \<and> q div 512 \<le> b")
      case True
      then have q': "a * 512 \<le> q" "q < (b + 1) * 512" by (auto simp: less_eq_div_iff_mult_less_eq dest: le_less_trans)
      moreover have "a * 512 \<le> q div 512 * 512" using True by simp
      then have "(q div 512 - a) * 512 + q mod 512 = q - a * 512"
        using div_mult_mod_eq [of q 512] unfolding diff_mult_distrib by linarith
      moreover have "(q div 512 - a) * 512 \<le> length buf" using buf(1) True by (simp add: diff_le_mono)
      ultimately show ?thesis using eq(1) d'(1) [of "q div 512"] le [of "q div 512"] True buf(2) q by (simp add: nth_drop)
    next
      case False
      have "hdr_secs h ! (q div 512) \<noteq> hdr_secs h ! j" if "a \<le> j" "j \<le> b" for j
        using False that h ab(4) nth(2) [OF d q] by (subst nth_eq_iff_index_eq) (auto simp: hdr_ok_def)
      then have "file_bytes h d' ! q = ?c ! q" using eq d'(2) by metis
      moreover have "\<not> (pos \<le> q \<and> q < pos + n)" using False ab(1-3) div_le_mono [of pos q 512] div_le_mono [of q "pos + n - 1" 512] by auto
      ultimately show ?thesis using n q len by (auto simp: nth_written)
    qed
  qed
qed

lemma WriteAt_ok:
  assumes "hdr_ok h" "disk_ok d" "pos + nb < 2 ^ 31" "nb \<le> length from"
  shows "\<exists>d'. WriteAt g from (int nb) (int pos) h d = Inr (int (min nb (hdr_size h - pos)), d') \<and>
     file_bytes h d' = written pos (take nb from) (file_bytes h d) \<and> disk_ok d' \<and> (\<forall>s. s \<notin> set (hdr_secs h) \<longrightarrow> d' s = d s)"
proof (cases "nb = 0 \<or> hdr_size h \<le> pos")
  case True
  then show ?thesis using length_file_bytes [OF assms(1,2)] assms(2)
    by (auto simp: WriteAt_def FileLength_size [OF assms(1)] written_def)
next
  case False
  define n where "n = min nb (hdr_size h - pos)"
  have n: "0 < n" "n \<le> hdr_size h - pos" using False by (simp_all add: n_def)
  have p: "pos < hdr_size h" using False by simp
  define a b where "a = pos div 512" and "b = (pos + n - 1) div 512"
  note r = request_sectors [OF assms(1) p n, folded a_def b_def]
  let ?c = "file_bytes h d"
  have len: "length ?c = hdr_size h" by (rule length_file_bytes [OF assms(1,2)])
  define b1 where "b1 = (if pos = a * 512 then [] else take 512 (drop (a * 512) ?c))"
  define b2 where "b2 = (if pos + n \<noteq> (b + 1) * 512 \<and> (a \<noteq> b \<or> pos = a * 512) then take 512 (drop (b * 512) ?c) else [])"
  define buf0 where "buf0 = map g [0..<(b + 1 - a) * 512]"
  define buf where "buf = put_at (pos - a * 512) (take n from) (put_at ((b - a) * 512) b2 (put_at 0 b1 buf0))"
  have bf: "length (take n from) = n" "length buf0 = (b + 1 - a) * 512" using assms(4) by (simp_all add: n_def buf0_def)
  have cn: "pos + n \<le> length ?c" using n p len by simp
  note wb = write_buffer [OF a_def b_def n(1) cn bf b1_def b2_def, folded buf_def]
  obtain d' where d': "res_fold (write_sector h buf (int a)) (map int [a..<a + (b + 1 - a)]) d = Inr d'"
     "\<forall>j. a \<le> j \<longrightarrow> j < a + (b + 1 - a) \<longrightarrow> d' (hdr_secs h ! j) = take 512 (drop ((j - a) * 512) buf)"
     "\<forall>s. (\<forall>j. a \<le> j \<longrightarrow> j < a + (b + 1 - a) \<longrightarrow> s \<noteq> hdr_secs h ! j) \<longrightarrow> d' s = d s"
    using write_sectors_ok [OF assms(1), of a a "b + 1 - a" buf d] r(1,2) by auto
  have bs: "file_bytes h d' = written pos (take n from) ?c" "disk_ok d'" "\<forall>s. s \<notin> set (hdr_secs h) \<longrightarrow> d' s = d s"
  proof -
    have "\<And>j. a \<le> j \<Longrightarrow> j \<le> b \<Longrightarrow> d' (hdr_secs h ! j) = take 512 (drop ((j - a) * 512) buf)"
      "\<And>s. (\<And>j. a \<le> j \<Longrightarrow> j \<le> b \<Longrightarrow> s \<noteq> hdr_secs h ! j) \<Longrightarrow> d' s = d s" using d'(2,3) r(1) by auto
    note w = written_file [OF assms(1,2) a_def b_def n(1) r(2) _ bf(1) wb(1) wb(2) [unfolded len] this]
    show "file_bytes h d' = written pos (take n from) ?c" "disk_ok d'" "\<forall>s. s \<notin> set (hdr_secs h) \<longrightarrow> d' s = d s"
      using w cn len by auto
  qed
  have "written pos (take nb from) ?c = written pos (take n from) ?c"
    using p len assms(4) by (simp add: written_def n_def min_def)
  moreover have "WriteAt g from (int nb) (int pos) h d = Inr (int n, d')"
  proof -
    have rd: "ReadAt 512 (int x * 512) h d = Inr (take 512 (drop (x * 512) ?c))" if "x \<le> b" for x
      using ReadAt_ok [OF assms(1,2), of "x * 512" 512] that r(2) secs_len(2) [OF assms(1)] by simp
    have i: "int pos = int a * 512 \<longleftrightarrow> pos = a * 512" "int pos + int n = (int b + 1) * 512 \<longleftrightarrow> pos + n = (b + 1) * 512"
      using of_nat_eq_iff [of pos "a * 512", where 'a = int] of_nat_eq_iff [of "pos + n" "(b + 1) * 512", where 'a = int]
      by (simp_all add: add.commute)
    have add: "add32 (int pos) (int n) = int pos + int n" using n p size_bound [OF assms(1)] by simp
    have R1: "(if int pos \<noteq> int a * 512 then ReadAt 512 (int a * 512) h d else Inr []) = Inr b1"
      using rd [OF r(1)] by (simp add: b1_def i(1))
    have R2: "(if int pos + int n \<noteq> (int b + 1) * 512 \<and> (int a \<noteq> int b \<or> int pos = int a * 512) then ReadAt 512 (int b * 512) h d
        else Inr []) = Inr b2"
      using rd [of b] by (simp add: b2_def i)
    have u: "[int a..int b] = map int [a..<a + (b + 1 - a)]" using r(1) upto_upt [of a b] by simp
    have num: "nat (1 + int b - int a) = b + 1 - a" "nat (int b - int a) = b - a" "\<not> 1 + int b - int a < 0"
      "int pos - int a * 512 = int (pos - a * 512)" using r(1) by (simp_all add: a_def of_nat_diff)
    have e: "\<not> (int n > int (length from))" "\<not> int (pos - a * 512) + int n > int (length (put_at ((b - a) * 512) b2 (put_at 0 b1 buf0)))"
      using assms(4) r(3) write_buffer_length [OF r(1) bf(2), of b1 b2] by (auto simp: n_def b1_def b2_def)
    have c: "\<not> (int nb \<le> 0 \<or> int pos \<ge> int (hdr_size h))" using False by simp
    have q: "request_size (int (hdr_size h)) (int nb) (int pos) = int n"
      using request_ok [OF assms(1) p assms(3)] by (simp add: FileLength_size [OF assms(1)] n_def)
    show ?thesis
      unfolding WriteAt_def FileLength_size [OF assms(1)] Let_def if_not_P [OF c] q SectorSize_def of_nat_numeral r(4,5)
      unfolding add R1 R2 res_bind_simps if_not_P [OF num(3)] num(1,2,4) nat_int
      using e d'(1) by (simp add: u buf_def buf0_def)
  qed
  ultimately show ?thesis using bs by (auto simp: n_def)
qed

section \<open>Headers on the disk, and the sectors they own\<close>

definition has_header :: "bool \<Rightarrow> sdisk \<Rightarrow> nat \<Rightarrow> FileHeader \<Rightarrow> bool" where
  "has_header be d s h = (s < 1024 \<and> length (dataSectors h) = NumDirect \<and> d s = header_bytes be h)"

lemma length_header_bytes: "length (dataSectors h) = NumDirect \<Longrightarrow> length (header_bytes be h) = SectorSize"
  by (simp add: header_bytes_def sizes)

lemma fetch_header: "has_header be d s h \<Longrightarrow> FileHeader_FetchFrom be (int s) d = Inr h"
  by (simp add: has_header_def FileHeader_FetchFrom_def disk_read_def sizes header_bytes_def)

lemma write_header:
  assumes "s < 1024" "length (dataSectors h) = NumDirect"
  shows "FileHeader_WriteBack be (int s) h d = Inr (d(s := header_bytes be h))" "has_header be (d(s := header_bytes be h)) s h"
    "disk_ok d \<Longrightarrow> disk_ok (d(s := header_bytes be h))"
  using assms length_header_bytes [of h be]
  by (auto simp: FileHeader_WriteBack_def disk_write_def has_header_def disk_ok_def sizes)

lemma sint_small: "n < 2 ^ 31 \<Longrightarrow> sint (word_of_nat n :: 32 word) = int n"
proof -
  assume "n < 2 ^ 31"
  then have "sint (word_of_int (int n) :: 32 word) = int n" by (subst sint_sbintrunc') (simp add: signed_take_bit_int_eq_self)
  then show ?thesis by simp
qed

lemma alloc_fold:
  "res_drain BitMap_Find m b = Inr (map int js, b') \<Longrightarrow> i + m \<le> NumDirect \<Longrightarrow> length (dataSectors h) = NumDirect \<Longrightarrow>
   res_fold alloc_sector [i..<i + m] (h, b) =
     Inr (h\<lparr>dataSectors := take i (dataSectors h) @ map (\<lambda>j. word_of_int (int j)) js @ drop (i + m) (dataSectors h)\<rparr>, b')"
proof (induction m arbitrary: i h b js)
  case (Suc m)
  then obtain j js' b1 where j: "BitMap_Find b = Inr (int j, b1)" "res_drain BitMap_Find m b1 = Inr (map int js', b')" "js = j # js'"
    by (auto simp: res_bind_Inr_iff map_eq_Cons_conv)
  let ?h = "h\<lparr>dataSectors := (dataSectors h)[i := word_of_int (int j)]\<rparr>"
  have "[i..<i + Suc m] = i # [Suc i..<Suc i + m]" by (simp add: upt_conv_Cons)
  moreover have "alloc_sector i (h, b) = Inr (?h, b1)" using Suc.prems(2) j(1) by (simp add: alloc_sector_def)
  moreover have "take (Suc i) ((dataSectors h)[i := x]) = take i (dataSectors h) @ [x]" for x
    using Suc.prems(2,3) by (simp add: take_Suc_conv_app_nth)
  ultimately show ?case using Suc.IH [OF j(2), of "Suc i" ?h] Suc.prems(2,3) by (simp add: j(3))
qed auto

lemma fold_overrun:
  assumes "bm_ok b" "bm_used b \<noteq> {..<bm_cap b}"
  shows "alloc_sector NumDirect (h, b) = Inl OutOfBounds"
  using BitMap_Find_free [OF assms] by (auto simp: alloc_sector_def)

lemma Allocate_ok:
  assumes "bm_ok b" "numBits b = 1024" "length (dataSectors h) = NumDirect" "size' \<le> 64512"
  defines "n \<equiv> nat (divRoundUp (int size') 512)"
  shows "if card (bm_used b) + n \<le> 1024
     then \<exists>h' b'. Allocate b (int size') h = Inr (True, h', b') \<and> hdr_ok h' \<and> hdr_size h' = size' \<and>
        set (hdr_secs h') \<inter> bm_used b = {} \<and> bm_ok b' \<and> numBits b' = 1024 \<and> bm_used b' = bm_used b \<union> set (hdr_secs h')
     else \<exists>h'. Allocate b (int size') h = Inr (False, h', b)"
proof -
  have cap: "bm_cap b = 1024" using assms(2) by (simp add: bm_cap_def)
  obtain c where c: "BitMap_NumClear b = Inr c" "int n \<le> c \<longleftrightarrow> card (bm_used b) + n \<le> 1024"
    using BitMap_NumClear_ok [OF assms(1)] bitmap_alloc.num_clear_enough [OF assms(1)] cap by auto
  have d: "divRoundUp (int size') 512 = int n" by (simp add: n_def divRoundUp_nonneg)
  have n: "n \<le> 126" using divRoundUp_bounds(2) [of "int size'" 512] assms(4) d by simp
  let ?h1 = "h\<lparr>numBytes := word_of_int (int size'), numSectors := word_of_int (int n)\<rparr>"
  have A: "Allocate b (int size') h = (if c < int n then Inr (False, ?h1, b)
      else res_bind (res_fold alloc_sector [0..<n] (?h1, b)) (\<lambda>(h2, b). Inr (True, h2, b)))"
    using d by (simp add: Allocate_def SectorSize_def c(1))
  show ?thesis
  proof (cases "card (bm_used b) + n \<le> 1024")
    case True
    then obtain js b' where js: "res_drain BitMap_Find n b = Inr (map int js, b')" "length js = n" "distinct js"
        "set js \<subseteq> {..<1024}" "set js \<inter> bm_used b = {}" "bm_ok b'" "bm_cap b' = 1024" "bm_used b' = bm_used b \<union> set js"
      using bitmap_alloc.find_n [OF assms(1), of n] cap by auto
    let ?h = "?h1\<lparr>dataSectors := map (\<lambda>j. word_of_int (int j)) js @ drop n (dataSectors h)\<rparr>"
    have f: "res_fold alloc_sector [0..<n] (?h1, b) = Inr (?h, b')"
      using alloc_fold [OF js(1), of 0 ?h1] n assms(3) by (simp add: sizes)
    have sm: "sint (word_of_nat j :: 32 word) = int j" if "j \<in> set js" for j
      using that js(4) by (intro sint_small) auto
    have ns: "sint (word_of_nat n :: 32 word) = int n" "sint (word_of_nat size' :: 32 word) = int size'"
      using n assms(4) by (simp_all add: sint_small)
    have secs: "hdr_secs ?h = js" using js(2) sm by (simp add: hdr_secs_def ns map_idI)
    have "list_all (\<lambda>w. 0 \<le> sint w \<and> sint w < 1024) (map (\<lambda>j. word_of_nat j :: 32 word) js)"
      using sm js(4) by (auto simp: list_all_iff)
    then have "hdr_ok ?h" using n js(2,3) assms(3) d secs by (simp add: hdr_ok_def ns sizes)
    moreover have "numBits b' = 1024" using js(6,7) by (simp add: bm_cap_def bm_ok_def)
    ultimately show ?thesis using True c(2) f js secs by (auto simp: A hdr_size_def ns)
  next
    case False
    then show ?thesis using c(2) by (simp add: A)
  qed
qed

lemma Deallocate_ok:
  assumes "hdr_ok h" "bm_ok b" "numBits b = 1024" "set (hdr_secs h) \<subseteq> bm_used b"
  shows "\<exists>b'. Deallocate h b = Inr b' \<and> bm_ok b' \<and> numBits b' = 1024 \<and> bm_used b' = bm_used b - set (hdr_secs h)"
proof -
  let ?n = "length (hdr_secs h)"
  have "\<exists>b'. res_fold (dealloc_sector h) [i..<i + m] b = Inr b' \<and> bm_ok b' \<and> numBits b' = 1024 \<and>
      bm_used b' = bm_used b - set (take m (drop i (hdr_secs h)))"
    if "i + m \<le> ?n" "set (drop i (hdr_secs h)) \<subseteq> bm_used b" "bm_ok b" "numBits b = 1024" for i m b
    using that
  proof (induction m arbitrary: i b)
    case (Suc m)
    let ?s = "hdr_secs h ! i"
    have i: "i < ?n" "i < nat (sint (numSectors h))" using Suc.prems(1) secs_len(1) [OF assms(1)] by simp_all
    have s: "sint (dataSectors h ! i) = int ?s" "i < NumDirect"
      using assms(1) i secs_len(2) [OF assms(1)] by (auto simp: hdr_secs_def hdr_ok_def list_all_length sizes)
    have dr: "drop i (hdr_secs h) = ?s # drop (Suc i) (hdr_secs h)" using i(1) by (simp add: Cons_nth_drop_Suc)
    have u: "?s \<in> bm_used b" "?s < bm_cap b" using Suc.prems(2,4) dr secs_lt [OF assms(1) nth_mem [OF i(1)]] by (auto simp: bm_cap_def)
    then obtain b1 where b1: "BitMap_Clear (int ?s) b = Inr b1" "bm_ok b1" "numBits b1 = 1024" "bm_used b1 = bm_used b - {?s}"
      using BitMap_Clear_ok [OF Suc.prems(3), of ?s] Suc.prems(4) by auto
    have "BitMap_Test (int ?s) b = Inr True" using u BitMap_Test_eq [OF Suc.prems(3)] by (simp add: bm_used_def)
    with b1(1) s have "dealloc_sector h i b = Inr b1" by (simp add: dealloc_sector_def Let_def)
    moreover have "?s \<notin> set (drop (Suc i) (hdr_secs h))"
      using assms(1) dr distinct_drop [of "hdr_secs h" i] by (simp add: hdr_ok_def)
    then obtain b' where "res_fold (dealloc_sector h) [Suc i..<Suc i + m] b1 = Inr b'" "bm_ok b'" "numBits b' = 1024"
        "bm_used b' = bm_used b1 - set (take m (drop (Suc i) (hdr_secs h)))"
      using Suc.IH [of "Suc i" b1] Suc.prems(1,2) b1 dr by auto
    moreover have "[i..<i + Suc m] = i # [Suc i..<Suc i + m]" by (simp add: upt_conv_Cons)
    ultimately show ?case using b1(4) by (auto simp: dr)
  qed simp
  from this [of 0 ?n b] assms show ?thesis by (simp add: Deallocate_def secs_len(1) [OF assms(1), symmetric])
qed

section \<open>A file is an array of bytes\<close>

datatype request = RRead nat nat | RWrite nat "8 word list"

text \<open>Requests at given positions, on the disk and on an array; the answers are the bytes read and the numbers of bytes written.\<close>

fun serve :: "(nat \<Rightarrow> 8 word) \<Rightarrow> FileHeader \<Rightarrow> request list \<Rightarrow> sdisk \<Rightarrow> ((8 word list + int) list \<times> sdisk) res" where
  "serve g h [] d = Inr ([], d)"
| "serve g h (RRead n pos # rs') d =
     res_bind (ReadAt (int n) (int pos) h d) (\<lambda>bs. res_bind (serve g h rs' d) (\<lambda>(as', d'). Inr (Inl bs # as', d')))"
| "serve g h (RWrite pos bs # rs') d =
     res_bind (WriteAt g bs (int (length bs)) (int pos) h d) (\<lambda>(n, d1). res_bind (serve g h rs' d1) (\<lambda>(as', d'). Inr (Inr n # as', d')))"

fun array_serve :: "request list \<Rightarrow> 8 word list \<Rightarrow> (8 word list + int) list \<times> 8 word list" where
  "array_serve [] c = ([], c)"
| "array_serve (RRead n pos # rs') c = (let (as', c') = array_serve rs' c in (Inl (take n (drop pos c)) # as', c'))"
| "array_serve (RWrite pos bs # rs') c =
     (let (as', c') = array_serve rs' (written pos bs c) in (Inr (int (min (length bs) (length c - pos))) # as', c'))"

fun fits :: "request \<Rightarrow> bool" where
  "fits (RRead n pos) = (pos + n < 2 ^ 31)"
| "fits (RWrite pos bs) = (pos + length bs < 2 ^ 31)"


definition demo_header :: FileHeader where
  "demo_header = \<lparr>numBytes = 600, numSectors = 2, dataSectors = 9 # 5 # replicate 124 0\<rparr>"

lemma demo_header_ok: "hdr_ok demo_header"
  by (simp add: demo_header_def hdr_ok_def hdr_secs_def sizes divRoundUp_def sdiv_nonneg smod_nonneg)


end
