(* ===== verification/FileDir.thy ===== *)
theory FileDir
  imports FileHdr
begin

text \<open>
  The two objects that the Nachos file system keeps in files of its own: the map of free sectors (\<open>BitMap::FetchFrom\<close> and
  \<open>BitMap::WriteBack\<close> of \<open>userprog/bitmap.cc\<close>) and the directory (\<open>filesys/directory.cc\<close>). Both are copied between memory and disk
  byte by byte, with the padding of the C++ objects; the locale \<open>file_object\<close> is what the file system relies on, and both are
  instances of it. A directory is then shown to be a finite map from names, cut to nine characters, to sectors.
\<close>

section \<open>The map of free sectors\<close>

text \<open>\<open>ReadAt\<close> into an object: its memory keeps what the file does not provide.\<close>

definition load_into :: "8 word list \<Rightarrow> 8 word list \<Rightarrow> 8 word list" where
  "load_into bs old = bs @ drop (length bs) old"

definition BitMap_FetchFrom :: "bool \<Rightarrow> FileHeader \<Rightarrow> BitMap \<Rightarrow> sdisk \<Rightarrow> BitMap res" where
  "BitMap_FetchFrom be h b d = res_bind (ReadAt (numWords b * 4) 0 h d) (\<lambda>bs.
     Inr (b\<lparr>bits := words_of be (load_into bs (words_bytes be (bits b)))\<rparr>))"

definition BitMap_WriteBack :: "bool \<Rightarrow> (nat \<Rightarrow> 8 word) \<Rightarrow> FileHeader \<Rightarrow> BitMap \<Rightarrow> sdisk \<Rightarrow> sdisk res" where
  "BitMap_WriteBack be g h b d = res_bind (WriteAt g (words_bytes be (bits b)) (numWords b * 4) 0 h d) (\<lambda>(_, d'). Inr d')"

section \<open>Directories\<close>

definition FileNameMaxLen :: nat where "FileNameMaxLen = 9"

text \<open>An entry with the bytes that align its fields: \<open>bool\<close> is one byte, \<open>sector\<close> is at offset 4, the name at 8, and the
  size is 20.\<close>

record DirectoryEntry =
  de_inUse :: "8 word"
  de_pad :: "8 word list"
  de_sector :: "32 word"
  de_name :: "8 word list"
  de_tail :: "8 word list"

record Directory =
  tableSize :: int
  table :: "DirectoryEntry list"

definition entry_bytes :: "bool \<Rightarrow> DirectoryEntry \<Rightarrow> 8 word list" where
  "entry_bytes be e = de_inUse e # de_pad e @ word_bytes be (de_sector e) @ de_name e @ de_tail e"

definition entry_of :: "bool \<Rightarrow> 8 word list \<Rightarrow> DirectoryEntry" where
  "entry_of be bs = \<lparr>de_inUse = bs ! 0, de_pad = take 3 (drop 1 bs), de_sector = words_of be (take 4 (drop 4 bs)) ! 0,
     de_name = take 10 (drop 8 bs), de_tail = take 2 (drop 18 bs)\<rparr>"

primrec entries_of :: "bool \<Rightarrow> nat \<Rightarrow> 8 word list \<Rightarrow> DirectoryEntry list" where
  "entries_of be 0 bs = []"
| "entries_of be (Suc n) bs = entry_of be (take 20 bs) # entries_of be n (drop 20 bs)"

definition table_bytes :: "bool \<Rightarrow> DirectoryEntry list \<Rightarrow> 8 word list" where
  "table_bytes be es = concat (map (entry_bytes be) es)"

definition inUse :: "DirectoryEntry \<Rightarrow> bool" where
  "inUse e = (de_inUse e \<noteq> 0)"

definition Directory_new :: "int \<Rightarrow> (nat \<Rightarrow> DirectoryEntry) \<Rightarrow> Directory" where
  "Directory_new size' garbage = \<lparr>tableSize = size', table = map (\<lambda>i. (garbage i)\<lparr>de_inUse := 0\<rparr>) [0..<nat size']\<rparr>"

definition Directory_FetchFrom :: "bool \<Rightarrow> FileHeader \<Rightarrow> Directory \<Rightarrow> sdisk \<Rightarrow> Directory res" where
  "Directory_FetchFrom be h dir d = res_bind (ReadAt (tableSize dir * 20) 0 h d) (\<lambda>bs.
     Inr (dir\<lparr>table := entries_of be (length (table dir)) (load_into bs (table_bytes be (table dir)))\<rparr>))"

definition Directory_WriteBack :: "bool \<Rightarrow> (nat \<Rightarrow> 8 word) \<Rightarrow> FileHeader \<Rightarrow> Directory \<Rightarrow> sdisk \<Rightarrow> sdisk res" where
  "Directory_WriteBack be g h dir d =
     res_bind (WriteAt g (table_bytes be (table dir)) (tableSize dir * 20) 0 h d) (\<lambda>(_, d'). Inr d')"

text \<open>\<open>strncmp\<close> of the bytes of two arrays gives 0.\<close>

fun strneq :: "nat \<Rightarrow> 8 word list \<Rightarrow> 8 word list \<Rightarrow> bool" where
  "strneq (Suc n) (a # as') (b # bs) = (a = b \<and> (a = 0 \<or> strneq n as' bs))"
| "strneq 0 _ _ = True"
| "strneq _ _ _ = False"

definition strncpy :: "nat \<Rightarrow> cstr \<Rightarrow> 8 word list \<Rightarrow> 8 word list" where
  "strncpy n s old = take n (s @ replicate n 0) @ drop n old"

definition FindIndex :: "cstr \<Rightarrow> Directory \<Rightarrow> int" where
  "FindIndex name dir =
     (case filter (\<lambda>i. inUse (table dir ! i) \<and> strneq FileNameMaxLen (de_name (table dir ! i)) (name @ [0])) [0..<nat (tableSize dir)] of
        [] \<Rightarrow> -1 | i # _ \<Rightarrow> int i)"

definition Directory_Find :: "cstr \<Rightarrow> Directory \<Rightarrow> int" where
  "Directory_Find name dir = (let i = FindIndex name dir in if i \<noteq> -1 then sint (de_sector (table dir ! nat i)) else -1)"

definition Directory_Add :: "cstr \<Rightarrow> int \<Rightarrow> Directory \<Rightarrow> bool \<times> Directory" where
  "Directory_Add name newSector dir =
     (if FindIndex name dir \<noteq> -1 then (False, dir)
      else case filter (\<lambda>i. \<not> inUse (table dir ! i)) [0..<nat (tableSize dir)] of
        [] \<Rightarrow> (False, dir)
      | i # _ \<Rightarrow> (True, dir\<lparr>table := (table dir)[i := (table dir ! i)\<lparr>de_inUse := 1,
            de_name := strncpy FileNameMaxLen name (de_name (table dir ! i)), de_sector := word_of_int newSector\<rparr>]\<rparr>))"

definition Directory_Remove :: "cstr \<Rightarrow> Directory \<Rightarrow> bool \<times> Directory" where
  "Directory_Remove name dir =
     (let i = FindIndex name dir in
      if i = -1 then (False, dir) else (True, dir\<lparr>table := (table dir)[nat i := (table dir ! nat i)\<lparr>de_inUse := 0\<rparr>]\<rparr>))"

text \<open>The names that \<open>List\<close> prints. \<open>printf("%s")\<close> stops at a zero byte, which \<open>strncpy\<close> does not write after nine characters: it goes on with
  the bytes that follow the name in the table.\<close>

definition entry_name :: "bool \<Rightarrow> Directory \<Rightarrow> nat \<Rightarrow> cstr res" where
  "entry_name be dir i = (let bs = drop (20 * i + 8) (table_bytes be (table dir)) in
     if 0 \<in> set bs then Inr (takeWhile (\<lambda>c. c \<noteq> 0) bs) else Inl OutOfBounds)"

primrec list_names :: "bool \<Rightarrow> Directory \<Rightarrow> nat list \<Rightarrow> cstr list res" where
  "list_names be dir [] = Inr []"
| "list_names be dir (i # is') = (if inUse (table dir ! i)
     then res_bind (entry_name be dir i) (\<lambda>n. res_bind (list_names be dir is') (\<lambda>ns. Inr (n # ns)))
     else list_names be dir is')"

definition Directory_List :: "bool \<Rightarrow> Directory \<Rightarrow> cstr list res" where
  "Directory_List be dir = list_names be dir [0..<nat (tableSize dir)]"

section \<open>Objects kept in files\<close>

text \<open>An object of \<open>size'\<close> bytes that is written to a file and read back: \<open>enc\<close> gives its bytes, and \<open>dec\<close> loads bytes into an
  object.\<close>

locale file_object =
  fixes good :: "'a \<Rightarrow> bool"
    and size' :: nat
    and enc :: "'a \<Rightarrow> 8 word list"
    and dec :: "8 word list \<Rightarrow> 'a \<Rightarrow> 'a"
    and fetch :: "FileHeader \<Rightarrow> 'a \<Rightarrow> sdisk \<Rightarrow> 'a res"
    and store :: "FileHeader \<Rightarrow> 'a \<Rightarrow> sdisk \<Rightarrow> sdisk res"
    and g :: "nat \<Rightarrow> 8 word"
  assumes size_small: "size' < 2 ^ 31"
    and length_enc: "good x \<Longrightarrow> length (enc x) = size'"
    and dec_enc: "good x \<Longrightarrow> good y \<Longrightarrow> dec (enc x) y = x"
    and fetch_reads: "good y \<Longrightarrow> fetch h y d = res_bind (ReadAt (int size') 0 h d) (\<lambda>bs. Inr (dec bs y))"
    and store_writes: "good x \<Longrightarrow> store h x d = res_bind (WriteAt g (enc x) (int size') 0 h d) (\<lambda>(_, d'). Inr d')"
begin

lemma fetch_ok:
  assumes "hdr_ok h" "disk_ok d" "hdr_size h = size'" "file_bytes h d = enc x" "good x" "good y"
  shows "fetch h y d = Inr x"
  using assms ReadAt_ok [OF assms(1,2), of 0 size'] size_small by (simp add: fetch_reads length_enc dec_enc)

lemma store_ok:
  assumes "hdr_ok h" "disk_ok d" "hdr_size h = size'" "good x"
  shows "\<exists>d'. store h x d = Inr d' \<and> file_bytes h d' = enc x \<and> disk_ok d' \<and> (\<forall>s. s \<notin> set (hdr_secs h) \<longrightarrow> d' s = d s)"
  using assms WriteAt_ok [OF assms(1,2), of 0 size' "enc x" g] size_small length_file_bytes [OF assms(1,2)]
  by (auto simp: store_writes length_enc written_def)

lemma store_fetch:
  assumes "hdr_ok h" "disk_ok d" "hdr_size h = size'" "good x" "good y" "store h x d = Inr d'"
  shows "fetch h y d' = Inr x"
  using store_ok [OF assms(1-4)] fetch_ok [OF assms(1) _ assms(3) _ assms(4,5), of d'] assms(6) by auto

end

definition fm_ok :: "BitMap \<Rightarrow> bool" where
  "fm_ok b = (bm_ok b \<and> numBits b = 1024)"

lemma fm_words: "fm_ok b \<Longrightarrow> numWords b = 32 \<and> length (bits b) = 32"
  by (simp add: fm_ok_def bm_ok_def divRoundUp_def BitsInWord_def sdiv_nonneg smod_nonneg)

interpretation free_map: file_object fm_ok 128 "\<lambda>b. words_bytes be (bits b)"
  "\<lambda>bs b. b\<lparr>bits := words_of be (load_into bs (words_bytes be (bits b)))\<rparr>" "BitMap_FetchFrom be" "BitMap_WriteBack be g" g for be g
proof (unfold_locales, goal_cases)
  case (3 x y)
  then show ?case by (simp add: load_into_def fm_words) (simp add: fm_ok_def bm_ok_def)
qed (simp_all add: fm_words BitMap_FetchFrom_def BitMap_WriteBack_def)

definition entry_ok :: "DirectoryEntry \<Rightarrow> bool" where
  "entry_ok e = (length (de_pad e) = 3 \<and> length (de_name e) = 10 \<and> length (de_tail e) = 2)"

definition dt_ok :: "Directory \<Rightarrow> bool" where
  "dt_ok dir = (tableSize dir = 10 \<and> length (table dir) = 10 \<and> list_all entry_ok (table dir))"

lemma entry_roundtrip: "entry_ok e \<Longrightarrow> length (entry_bytes be e) = 20 \<and> entry_of be (entry_bytes be e) = e"
  using words_of_bytes [of be "[de_sector e]"]
  by (auto simp: entry_ok_def entry_bytes_def entry_of_def words_bytes_def drop_Cons' take_Cons')

lemma table_roundtrip:
  "list_all entry_ok es \<Longrightarrow> length (table_bytes be es) = 20 * length es \<and> entries_of be (length es) (table_bytes be es) = es"
proof (induction es)
  case (Cons e es)
  then show ?case using entry_roundtrip [of e be] by (simp add: table_bytes_def)
qed (simp add: table_bytes_def)

interpretation dir_file: file_object dt_ok 200 "\<lambda>dir. table_bytes be (table dir)"
  "\<lambda>bs dir. dir\<lparr>table := entries_of be (length (table dir)) (load_into bs (table_bytes be (table dir)))\<rparr>"
  "Directory_FetchFrom be" "Directory_WriteBack be g" g for be g
proof (unfold_locales, goal_cases)
  case (2 x)
  then show ?case using table_roundtrip [of "table x" be] by (simp add: dt_ok_def)
next
  case (3 x y)
  then show ?case using table_roundtrip [of "table x" be] table_roundtrip [of "table y" be] by (simp add: load_into_def dt_ok_def)
qed (simp_all add: dt_ok_def Directory_FetchFrom_def Directory_WriteBack_def)

section \<open>A directory is a map\<close>

definition key :: "DirectoryEntry \<Rightarrow> cstr" where
  "key e = takeWhile (\<lambda>c. c \<noteq> 0) (take FileNameMaxLen (de_name e))"

definition dir_ok :: "Directory \<Rightarrow> bool" where
  "dir_ok dir = (dt_ok dir \<and> distinct (map key (filter inUse (table dir))))"

definition dir_map :: "Directory \<Rightarrow> cstr \<rightharpoonup> nat" where
  "dir_map dir = map_of (map (\<lambda>e. (key e, nat (sint (de_sector e)))) (filter inUse (table dir)))"

lemma strneq_take:
  "0 \<notin> set name \<Longrightarrow> n \<le> length a \<Longrightarrow> strneq n a (name @ [0]) \<longleftrightarrow> takeWhile (\<lambda>c. c \<noteq> 0) (take n a) = take n name"
proof (induction n arbitrary: a name)
  case (Suc n)
  then obtain x as' where "a = x # as'" by (cases a) auto
  with Suc show ?case by (cases name; cases n) auto
qed simp

lemma distinct_filter_iff:
  "distinct (map f (filter P xs)) \<longleftrightarrow> (\<forall>i j. i < j \<longrightarrow> j < length xs \<longrightarrow> P (xs ! i) \<longrightarrow> P (xs ! j) \<longrightarrow> f (xs ! i) \<noteq> f (xs ! j))"
proof (induction xs)
  case (Cons x xs)
  have "(\<forall>i j. i < j \<longrightarrow> j < length (x # xs) \<longrightarrow> P ((x # xs) ! i) \<longrightarrow> P ((x # xs) ! j) \<longrightarrow> f ((x # xs) ! i) \<noteq> f ((x # xs) ! j)) \<longleftrightarrow>
      (\<forall>j < length xs. P x \<longrightarrow> P (xs ! j) \<longrightarrow> f x \<noteq> f (xs ! j)) \<and>
      (\<forall>i j. i < j \<longrightarrow> j < length xs \<longrightarrow> P (xs ! i) \<longrightarrow> P (xs ! j) \<longrightarrow> f (xs ! i) \<noteq> f (xs ! j))" (is "?l = ?r")
  proof
    assume ?l
    then show ?r by (metis Suc_less_eq length_Cons nth_Cons_0 nth_Cons_Suc zero_less_Suc)
  next
    assume ?r
    then show ?l by (auto simp: less_Suc_eq_0_disj nth_Cons split: nat.splits)
  qed
  with Cons show ?case by (auto simp: in_set_conv_nth)
qed simp

lemma entries_nth: "dt_ok dir \<Longrightarrow> i < 10 \<Longrightarrow> entry_ok (table dir ! i)"
  by (simp add: dt_ok_def list_all_length)

lemma strneq_key: "dt_ok dir \<Longrightarrow> i < 10 \<Longrightarrow> 0 \<notin> set name \<Longrightarrow>
    strneq FileNameMaxLen (de_name (table dir ! i)) (name @ [0]) \<longleftrightarrow> key (table dir ! i) = take 9 name"
  using entries_nth [of dir i] by (simp add: strneq_take entry_ok_def FileNameMaxLen_def key_def)

lemma dir_map_iff: "dir_ok dir \<Longrightarrow>
    dir_map dir k = Some s \<longleftrightarrow> (\<exists>i < 10. inUse (table dir ! i) \<and> key (table dir ! i) = k \<and> nat (sint (de_sector (table dir ! i))) = s)"
  by (subst dir_map_def, subst map_of_eq_Some_iff) (force simp: dir_ok_def dt_ok_def comp_def in_set_conv_nth)+

lemma key_unique:
  assumes "dir_ok dir" "i < 10" "j < 10" "inUse (table dir ! i)" "inUse (table dir ! j)" "key (table dir ! i) = key (table dir ! j)"
  shows "i = j"
  using assms unfolding dir_ok_def dt_ok_def distinct_filter_iff by (metis linorder_neqE_nat)

lemma dir_okI:
  assumes "dt_ok dir" "\<And>i j. i < 10 \<Longrightarrow> j < 10 \<Longrightarrow> i \<noteq> j \<Longrightarrow> inUse (table dir ! i) \<Longrightarrow> inUse (table dir ! j) \<Longrightarrow>
    key (table dir ! i) \<noteq> key (table dir ! j)"
  shows "dir_ok dir"
  using assms unfolding dir_ok_def distinct_filter_iff by (auto simp: dt_ok_def)

lemma FindIndex_ok:
  assumes "dir_ok dir" "0 \<notin> set name"
  shows "(\<exists>i < 10. FindIndex name dir = int i \<and> inUse (table dir ! i) \<and> key (table dir ! i) = take 9 name) \<or>
     FindIndex name dir = -1 \<and> dir_map dir (take 9 name) = None"
proof -
  let ?P = "\<lambda>i. inUse (table dir ! i) \<and> key (table dir ! i) = take 9 name"
  have t: "dt_ok dir" "nat (tableSize dir) = 10" using assms(1) by (simp_all add: dir_ok_def dt_ok_def)
  have f: "filter (\<lambda>i. inUse (table dir ! i) \<and> strneq FileNameMaxLen (de_name (table dir ! i)) (name @ [0])) [0..<10] = filter ?P [0..<10]"
    using strneq_key [OF t(1) _ assms(2)] by (intro filter_cong) auto
  show ?thesis
  proof (cases "filter ?P [0..<10]")
    case Nil
    then have "\<forall>i < 10. \<not> ?P i" unfolding filter_empty_conv by auto
    then have "dir_map dir (take 9 name) \<noteq> Some s" for s using dir_map_iff [OF assms(1)] by auto
    then have "dir_map dir (take 9 name) = None" by (cases "dir_map dir (take 9 name)") auto
    then show ?thesis by (simp only: FindIndex_def t(2) f Nil list.case) simp
  next
    case (Cons i is')
    then have "i \<in> set (filter ?P [0..<10])" by (simp only: list.set_intros)
    then have "i < 10 \<and> ?P i" unfolding set_filter set_upt by simp
    then show ?thesis by (simp only: FindIndex_def t(2) f Cons list.case) auto
  qed
qed

lemma map_eqI: "(\<And>k v. m k = Some v \<longleftrightarrow> m' k = Some v) \<Longrightarrow> m = m'"
  by (rule ext) (metis option.exhaust)

lemma dt_ok_update: "dt_ok dir \<Longrightarrow> entry_ok e \<Longrightarrow> dt_ok (dir\<lparr>table := (table dir)[i := e]\<rparr>)"
  by (auto simp: dt_ok_def list_all_iff dest!: subsetD [OF set_update_subset_insert])

lemma takeWhile_pad: "0 \<notin> set (take n name) \<Longrightarrow> takeWhile (\<lambda>c. c \<noteq> 0) (take n name @ replicate m 0) = take n name"
  by (cases m) (auto simp: takeWhile_append)

lemma Find_ok:
  assumes "dir_ok dir" "0 \<notin> set name" "\<And>i. i < 10 \<Longrightarrow> inUse (table dir ! i) \<Longrightarrow> 0 \<le> sint (de_sector (table dir ! i))"
  shows "Directory_Find name dir = (case dir_map dir (take 9 name) of None \<Rightarrow> -1 | Some s \<Rightarrow> int s)"
  using FindIndex_ok [OF assms(1,2)]
proof
  assume "\<exists>i < 10. FindIndex name dir = int i \<and> inUse (table dir ! i) \<and> key (table dir ! i) = take 9 name"
  then obtain i where i: "i < 10" "FindIndex name dir = int i" "inUse (table dir ! i)" "key (table dir ! i) = take 9 name" by blast
  then have "dir_map dir (take 9 name) = Some (nat (sint (de_sector (table dir ! i))))" using dir_map_iff [OF assms(1)] by blast
  moreover have "0 \<le> sint (de_sector (table dir ! i))" using assms(3) i by blast
  ultimately show ?thesis using i(2) by (simp add: Directory_Find_def)
qed (simp add: Directory_Find_def)

lemma Add_ok:
  assumes "dir_ok dir" "0 \<notin> set name" "s < 1024"
  shows "(\<exists>dir'. Directory_Add name (int s) dir = (True, dir') \<and> dir_ok dir' \<and> dir_map dir (take 9 name) = None \<and> \<not> list_all inUse (table dir) \<and>
            dir_map dir' = (dir_map dir)(take 9 name \<mapsto> s)) \<or>
     Directory_Add name (int s) dir = (False, dir) \<and> (dir_map dir (take 9 name) \<noteq> None \<or> list_all inUse (table dir))"
proof (cases "dir_map dir (take 9 name)")
  case (Some s')
  then show ?thesis using FindIndex_ok [OF assms(1,2)] by (auto simp: Directory_Add_def)
next
  case None
  have t: "dt_ok dir" "nat (tableSize dir) = 10" "length (table dir) = 10" using assms(1) by (simp_all add: dir_ok_def dt_ok_def)
  have nk: "\<not> (inUse (table dir ! i) \<and> key (table dir ! i) = take 9 name)" if "i < 10" for i
    using None that dir_map_iff [OF assms(1), of "take 9 name"] by auto
  then have F: "FindIndex name dir = -1" using FindIndex_ok [OF assms(1,2)] by auto
  show ?thesis
  proof (cases "filter (\<lambda>i. \<not> inUse (table dir ! i)) [0..<10]")
    case Nil
    then have "\<forall>i < 10. inUse (table dir ! i)" unfolding filter_empty_conv by auto
    then have "list_all inUse (table dir)" using t(3) by (simp add: list_all_length)
    moreover have "Directory_Add name (int s) dir = (False, dir)" by (simp only: Directory_Add_def t(2) F Nil list.case) simp
    ultimately show ?thesis by blast
  next
    case (Cons i is')
    then have "i \<in> set (filter (\<lambda>i. \<not> inUse (table dir ! i)) [0..<10])" by (simp only: list.set_intros)
    then have i: "i < 10" "\<not> inUse (table dir ! i)" by auto
    define e where "e = (table dir ! i)\<lparr>de_inUse := 1, de_name := strncpy FileNameMaxLen name (de_name (table dir ! i)), de_sector := word_of_int (int s)\<rparr>"
    let ?dir = "dir\<lparr>table := (table dir)[i := e]\<rparr>"
    have A: "Directory_Add name (int s) dir = (True, ?dir)" by (simp only: Directory_Add_def t(2) F Cons list.case e_def) simp
    have z: "0 \<notin> set (take 9 name)" using assms(2) by (auto dest: in_set_takeD)
    have e: "entry_ok e" "inUse e" "key e = take 9 name" "nat (sint (de_sector e)) = s"
      using entries_nth [OF t(1) i(1)] takeWhile_pad [OF z] assms(3)
      by (simp_all add: e_def entry_ok_def inUse_def key_def strncpy_def FileNameMaxLen_def sint_small)
    have nth: "(table dir)[i := e] ! j = (if j = i then e else table dir ! j)" if "j < 10" for j using that i(1) t(3) by simp
    have ok: "dir_ok ?dir"
    proof (rule dir_okI [OF dt_ok_update [OF t(1) e(1)]])
      fix x y :: nat
      assume "x < 10" "y < 10" "x \<noteq> y" "inUse (table ?dir ! x)" "inUse (table ?dir ! y)"
      then show "key (table ?dir ! x) \<noteq> key (table ?dir ! y)"
        using nk [of x] nk [of y] key_unique [OF assms(1), of x y] by (cases "x = i"; cases "y = i") (auto simp: nth e)
    qed
    moreover have "dir_map ?dir = (dir_map dir)(take 9 name \<mapsto> s)"
    proof (rule map_eqI)
      fix k v
      show "dir_map ?dir k = Some v \<longleftrightarrow> ((dir_map dir)(take 9 name \<mapsto> s)) k = Some v"
      proof (cases "k = take 9 name")
        case True
        then show ?thesis using i nk e(2-4) by (auto simp: dir_map_iff [OF ok] nth)
      next
        case False
        then show ?thesis using i(2) e(2-4) by (auto simp: dir_map_iff [OF ok] dir_map_iff [OF assms(1)] nth) blast
      qed
    qed
    moreover have "\<not> list_all inUse (table dir)" using i t(3) by (auto simp: list_all_length)
    ultimately show ?thesis using A None by blast
  qed
qed

lemma Remove_ok:
  assumes "dir_ok dir" "0 \<notin> set name" "dir_map dir (take 9 name) \<noteq> None"
  shows "\<exists>dir'. Directory_Remove name dir = (True, dir') \<and> dir_ok dir' \<and> dir_map dir' = (dir_map dir)(take 9 name := None)"
proof -
  from FindIndex_ok [OF assms(1,2)] assms(3) obtain i where
    i: "i < 10" "FindIndex name dir = int i" "inUse (table dir ! i)" "key (table dir ! i) = take 9 name" by auto
  have t: "dt_ok dir" "length (table dir) = 10" using assms(1) by (simp_all add: dir_ok_def dt_ok_def)
  define e where "e = (table dir ! i)\<lparr>de_inUse := 0\<rparr>"
  let ?dir = "dir\<lparr>table := (table dir)[i := e]\<rparr>"
  have e: "entry_ok e" "\<not> inUse e" using entries_nth [OF t(1) i(1)] by (simp_all add: e_def entry_ok_def inUse_def)
  have nth: "(table dir)[i := e] ! j = (if j = i then e else table dir ! j)" if "j < 10" for j using that i(1) t(2) by simp
  have ok: "dir_ok ?dir"
    using dt_ok_update [OF t(1) e(1)] key_unique [OF assms(1)] e(2) by (intro dir_okI) (auto simp: nth split: if_splits)
  moreover have "dir_map ?dir = (dir_map dir)(take 9 name := None)"
  proof (rule map_eqI)
    fix k v
    show "dir_map ?dir k = Some v \<longleftrightarrow> ((dir_map dir)(take 9 name := None)) k = Some v"
    proof (cases "k = take 9 name")
      case True
      then show ?thesis using i(1,3,4) e(2) key_unique [OF assms(1)] by (auto simp: dir_map_iff [OF ok] nth)
    next
      case False
      then show ?thesis using i(4) e(2) by (auto simp: dir_map_iff [OF ok] dir_map_iff [OF assms(1)] nth) blast
    qed
  qed
  moreover have "Directory_Remove name dir = (True, ?dir)" by (simp add: Directory_Remove_def i(2) e_def)
  ultimately show ?thesis by blast
qed

section \<open>Listing\<close>

lemma entry_name_short:
  assumes "dt_ok dir" "i < 10" "length (key (table dir ! i)) < 9"
  shows "entry_name be dir i = Inr (key (table dir ! i))"
proof -
  let ?e = "table dir ! i" and ?bl = "map (entry_bytes be) (table dir)"
  have ok: "entry_ok (table dir ! k)" if "k < 10" for k using assms(1) that by (simp add: dt_ok_def list_all_length)
  have l: "length (table dir) = 10" "length (de_name ?e) = 10" "length (de_pad ?e) = 3" using assms(1) ok [OF assms(2)] by (simp_all add: dt_ok_def entry_ok_def)
  have "blocks_of 20 ?bl" using ok l(1) entry_roundtrip [of _ be] by (auto simp: blocks_of_def in_set_conv_nth)
  then have "drop (20 * i) (table_bytes be (table dir)) = concat (drop i ?bl)" by (simp add: table_bytes_def drop_blocks)
  also have "drop i ?bl = entry_bytes be ?e # drop (Suc i) ?bl" using assms(2) l(1) Cons_nth_drop_Suc [of i ?bl] by simp
  finally have "drop (20 * i + 8) (table_bytes be (table dir)) = drop 8 (entry_bytes be ?e) @ concat (drop (Suc i) ?bl)"
    using entry_roundtrip [OF ok [OF assms(2)], of be] by (simp add: drop_drop [symmetric] add.commute del: drop_drop)
  moreover have "drop 8 (entry_bytes be ?e) = de_name ?e @ de_tail ?e" using l(3) by (simp add: entry_bytes_def drop_Cons')
  ultimately obtain zs where zs: "drop (20 * i + 8) (table_bytes be (table dir)) = take 9 (de_name ?e) @ zs"
    by (metis append.assoc append_take_drop_id)
  have z: "0 \<in> set (take 9 (de_name ?e))"
  proof (rule ccontr)
    assume "0 \<notin> set (take 9 (de_name ?e))"
    then have "key ?e = take 9 (de_name ?e)" by (auto simp: key_def FileNameMaxLen_def takeWhile_eq_all_conv)
    then show False using assms(3) l(2) by simp
  qed
  then have "takeWhile (\<lambda>c. c \<noteq> 0) (take 9 (de_name ?e) @ zs) = key ?e" by (simp add: key_def FileNameMaxLen_def takeWhile_append1 [of 0])
  with z show ?thesis by (simp add: entry_name_def zs)
qed

lemma List_ok:
  assumes "dir_ok dir" "\<And>e. e \<in> set (table dir) \<Longrightarrow> inUse e \<Longrightarrow> length (key e) < 9"
  shows "Directory_List be dir = Inr (map key (filter inUse (table dir)))"
proof -
  have t: "tableSize dir = 10" "length (table dir) = 10" "dt_ok dir" using assms(1) by (simp_all add: dir_ok_def dt_ok_def)
  have "list_names be dir is' = Inr (map key (filter inUse (map ((!) (table dir)) is')))" if "set is' \<subseteq> {..<10}" for is'
    using that
  proof (induction is')
    case (Cons i is')
    then show ?case using entry_name_short [OF t(3), of i be] assms(2) [of "table dir ! i"] t(2) by simp
  qed simp
  moreover have "set [0..<10] \<subseteq> {..<10::nat}" by (simp only: set_upt lessThan_atLeast0 order_refl)
  ultimately have "list_names be dir [0..<10] = Inr (map key (filter inUse (map ((!) (table dir)) [0..<10])))" by blast
  moreover have "map ((!) (table dir)) [0..<10] = table dir" using map_nth [of "table dir"] t(2) by simp
  moreover have "nat (tableSize dir) = 10" using t(1) by simp
  ultimately show ?thesis unfolding Directory_List_def by presburger
qed

end
