(* ===== verification/FileSys.thy ===== *)
theory FileSys
  imports FileDir
begin

text \<open>
  The Nachos file system (\<open>filesys/filesys.cc\<close>) and its copy and print commands (\<open>filesys/fstest.cc\<close>). The state has the disk, the
  two files that stay open, and the table of open files, whose entries are pointers: two entries can share an \<open>OpenFile\<close>.
  \<open>fs_rep\<close> is the invariant: the disk holds a map of free sectors and a directory that agree with each other, and no two files share a sector.
  The last section shows that the files form a map from names to byte arrays.
\<close>

section \<open>State\<close>

record NFileSystem =
  nfs_disk :: sdisk
  freeMapFile :: NOpenFile
  directoryFile :: NOpenFile
  nf_slots :: "nat option list"
  nf_heap :: "nat \<rightharpoonup> NOpenFile"
  nf_next :: nat
  nf_junk :: "nat \<Rightarrow> 8 word"

definition FreeMapSector :: int where "FreeMapSector = 0"
definition DirectorySector :: int where "DirectorySector = 1"
definition FreeMapFileSize :: int where "FreeMapFileSize = NumSectors sdiv 8"
definition NumDirEntries :: int where "NumDirEntries = 10"
definition DirectoryFileSize :: int where "DirectoryFileSize = 20 * NumDirEntries"

text \<open>Objects that \<open>new\<close> leaves uninitialised.\<close>

definition junk_word :: "(nat \<Rightarrow> 8 word) \<Rightarrow> nat \<Rightarrow> 32 word" where
  "junk_word g i = le_word (g (4 * i)) (g (4 * i + 1)) (g (4 * i + 2)) (g (4 * i + 3))"

definition junk_entry :: "bool \<Rightarrow> (nat \<Rightarrow> 8 word) \<Rightarrow> nat \<Rightarrow> DirectoryEntry" where
  "junk_entry be g i = entry_of be (map g [20 * i..<20 * i + 20])"

definition junk_header :: "(nat \<Rightarrow> 8 word) \<Rightarrow> FileHeader" where
  "junk_header g = \<lparr>numBytes = junk_word g 0, numSectors = junk_word g 1, dataSectors = map (\<lambda>i. junk_word g (i + 2)) [0..<NumDirect]\<rparr>"

section \<open>Operations\<close>

text \<open>\<open>new Directory(NumDirEntries)\<close> and \<open>FetchFrom(directoryFile)\<close>, and the same for the map of free sectors.\<close>

definition fetch_dir :: "bool \<Rightarrow> NFileSystem \<Rightarrow> Directory res" where
  "fetch_dir be fs = Directory_FetchFrom be (hdr (directoryFile fs)) (Directory_new NumDirEntries (junk_entry be (nf_junk fs))) (nfs_disk fs)"

definition fetch_map :: "bool \<Rightarrow> NFileSystem \<Rightarrow> BitMap res" where
  "fetch_map be fs = res_bind (BitMap_new NumSectors (junk_word (nf_junk fs))) (\<lambda>b.
     BitMap_FetchFrom be (hdr (freeMapFile fs)) b (nfs_disk fs))"

definition store_dir :: "bool \<Rightarrow> Directory \<Rightarrow> NFileSystem \<Rightarrow> NFileSystem res" where
  "store_dir be dir fs = res_bind (Directory_WriteBack be (nf_junk fs) (hdr (directoryFile fs)) dir (nfs_disk fs)) (\<lambda>d. Inr (fs\<lparr>nfs_disk := d\<rparr>))"

definition store_map :: "bool \<Rightarrow> BitMap \<Rightarrow> NFileSystem \<Rightarrow> NFileSystem res" where
  "store_map be b fs = res_bind (BitMap_WriteBack be (nf_junk fs) (hdr (freeMapFile fs)) b (nfs_disk fs)) (\<lambda>d. Inr (fs\<lparr>nfs_disk := d\<rparr>))"

definition FS_Create :: "bool \<Rightarrow> cstr \<Rightarrow> int \<Rightarrow> NFileSystem \<Rightarrow> (bool \<times> NFileSystem) res" where
  "FS_Create be name initialSize fs =
     res_bind (fetch_dir be fs) (\<lambda>directory.
       if Directory_Find name directory \<noteq> -1 then Inr (False, fs)
       else res_bind (fetch_map be fs) (\<lambda>freeMap.
         res_bind (BitMap_Find freeMap) (\<lambda>(sector, freeMap1).
           if sector = -1 then Inr (False, fs)
           else let (added, directory1) = Directory_Add name sector directory in
             if \<not> added then Inr (False, fs)
             else res_bind (Allocate freeMap1 initialSize (junk_header (nf_junk fs))) (\<lambda>(allocated, h, freeMap2).
               if \<not> allocated then Inr (False, fs)
               else res_bind (FileHeader_WriteBack be sector h (nfs_disk fs)) (\<lambda>d.
                 res_bind (store_dir be directory1 (fs\<lparr>nfs_disk := d\<rparr>)) (\<lambda>fs1.
                 res_bind (store_map be freeMap2 fs1) (\<lambda>fs2. Inr (True, fs2))))))))"

definition FS_Open :: "bool \<Rightarrow> cstr \<Rightarrow> int \<Rightarrow> NFileSystem \<Rightarrow> NOpenFile option res" where
  "FS_Open be name t fs = res_bind (fetch_dir be fs) (\<lambda>directory.
     let sector = Directory_Find name directory in
     if sector \<ge> 0 then res_bind (NOpenFile_new be sector t (nfs_disk fs)) (\<lambda>f. Inr (Some f)) else Inr None)"

definition FS_FindFreeSlot :: "NFileSystem \<Rightarrow> int" where
  "FS_FindFreeSlot fs = (case filter (\<lambda>i. nf_slots fs ! i = None) [2..<15] of [] \<Rightarrow> -1 | i # _ \<Rightarrow> int i)"

text \<open>\<open>Open(name, type)\<close> stores the file in a free slot of the table itself, and reads that slot for its answer.\<close>

definition FS_OpenType :: "bool \<Rightarrow> cstr \<Rightarrow> int \<Rightarrow> NFileSystem \<Rightarrow> (nat option \<times> NFileSystem) res" where
  "FS_OpenType be name t fs =
     (let freeSlot = FS_FindFreeSlot fs in
      res_bind (FS_Open be name t fs) (\<lambda>r.
        if freeSlot < 0 then Inl OutOfBounds
        else let fs1 = (case r of None \<Rightarrow> fs
               | Some f \<Rightarrow> fs\<lparr>nf_slots := (nf_slots fs)[nat freeSlot := Some (nf_next fs)],
                   nf_heap := (nf_heap fs)(nf_next fs \<mapsto> f), nf_next := nf_next fs + 1\<rparr>)
             in Inr (nf_slots fs1 ! nat freeSlot, fs1)))"

definition FS_Remove :: "bool \<Rightarrow> cstr \<Rightarrow> NFileSystem \<Rightarrow> (bool \<times> NFileSystem) res" where
  "FS_Remove be name fs =
     res_bind (fetch_dir be fs) (\<lambda>directory.
       let sector = Directory_Find name directory in
       if sector = -1 then Inr (False, fs)
       else res_bind (FileHeader_FetchFrom be sector (nfs_disk fs)) (\<lambda>h.
         res_bind (fetch_map be fs) (\<lambda>freeMap.
         res_bind (Deallocate h freeMap) (\<lambda>freeMap1.
         res_bind (BitMap_Clear sector freeMap1) (\<lambda>freeMap2.
           let (_, directory1) = Directory_Remove name directory in
           res_bind (store_map be freeMap2 fs) (\<lambda>fs1.
           res_bind (store_dir be directory1 fs1) (\<lambda>fs2. Inr (True, fs2))))))))"

definition FS_List :: "bool \<Rightarrow> NFileSystem \<Rightarrow> cstr list res" where
  "FS_List be fs = res_bind (fetch_dir be fs) (Directory_List be)"

text \<open>The constructor: formatting the disk \<open>d\<close>, or opening the files that are on it; then the files of the console.\<close>

definition FS_format :: "bool \<Rightarrow> sdisk \<Rightarrow> (nat \<Rightarrow> 8 word) \<Rightarrow> NFileSystem res" where
  "FS_format be d g =
     res_bind (BitMap_new NumSectors (junk_word g)) (\<lambda>b0.
     let directory = Directory_new NumDirEntries (junk_entry be g) in
     res_bind (BitMap_Mark FreeMapSector b0) (\<lambda>b1.
     res_bind (BitMap_Mark DirectorySector b1) (\<lambda>b2.
     res_bind (Allocate b2 FreeMapFileSize (junk_header g)) (\<lambda>(ok1, mapHdr, b3). ASSERT ok1 (
     res_bind (Allocate b3 DirectoryFileSize (junk_header g)) (\<lambda>(ok2, dirHdr, b4). ASSERT ok2 (
     res_bind (FileHeader_WriteBack be FreeMapSector mapHdr d) (\<lambda>d1.
     res_bind (FileHeader_WriteBack be DirectorySector dirHdr d1) (\<lambda>d2.
     res_bind (NOpenFile_new be FreeMapSector 0 d2) (\<lambda>mapFile.
     res_bind (NOpenFile_new be DirectorySector 0 d2) (\<lambda>dirFile.
     let fs = \<lparr>nfs_disk = d2, freeMapFile = mapFile, directoryFile = dirFile, nf_slots = [], nf_heap = Map.empty, nf_next = 0, nf_junk = g\<rparr> in
     res_bind (store_map be b4 fs) (\<lambda>fs1. store_dir be directory fs1))))))))))))"

definition FS_new :: "bool \<Rightarrow> bool \<Rightarrow> sdisk \<Rightarrow> (nat \<Rightarrow> 8 word) \<Rightarrow> NFileSystem res" where
  "FS_new be format d g =
     res_bind (if format then FS_format be d g
       else res_bind (NOpenFile_new be FreeMapSector 0 d) (\<lambda>mapFile.
            res_bind (NOpenFile_new be DirectorySector 0 d) (\<lambda>dirFile.
              Inr \<lparr>nfs_disk = d, freeMapFile = mapFile, directoryFile = dirFile, nf_slots = [], nf_heap = Map.empty, nf_next = 0, nf_junk = g\<rparr>)))
     (\<lambda>fs0. res_bind (FS_Create be stdin_name 0 (fs0\<lparr>nf_slots := replicate 15 None\<rparr>)) (\<lambda>(_, fs1).
       res_bind (FS_Create be stdout_name 0 fs1) (\<lambda>(_, fs2).
       res_bind (FS_OpenType be stdin_name 2 fs2) (\<lambda>(p, fs3).
       res_bind (FS_OpenType be stdout_name 3 (fs3\<lparr>nf_slots := (nf_slots fs3)[0 := p]\<rparr>)) (\<lambda>(q, fs4).
         Inr (fs4\<lparr>nf_slots := (nf_slots fs4)[1 := q]\<rparr>))))))"

section \<open>Copying and printing files\<close>

definition TransferSize :: nat where "TransferSize = 10"

function copy_loop :: "(nat \<Rightarrow> 8 word) \<Rightarrow> 8 word list \<Rightarrow> NOpenFile \<Rightarrow> sdisk \<Rightarrow> sdisk res" where
  "copy_loop g bs f d =
     (let buffer = take TransferSize bs in
      if buffer = [] then Inr d
      else res_bind (NOpenFile_Write g buffer (int (length buffer)) f d) (\<lambda>(_, f', d'). copy_loop g (drop TransferSize bs) f' d'))"
  by pat_completeness auto
termination
  by (relation "measure (\<lambda>(g, bs, f, d). length bs)") (auto simp: TransferSize_def)

declare copy_loop.simps [simp del]

text \<open>\<open>Copy\<close>; \<open>ufile\<close> is the UNIX file, if it can be opened.\<close>

definition Copy :: "bool \<Rightarrow> 8 word list option \<Rightarrow> cstr \<Rightarrow> NFileSystem \<Rightarrow> NFileSystem res" where
  "Copy be ufile to fs = (case ufile of None \<Rightarrow> Inr fs
     | Some bs \<Rightarrow> res_bind (FS_Create be to (int (length bs)) fs) (\<lambda>(created, fs1).
         if \<not> created then Inr fs1
         else res_bind (FS_Open be to 0 fs1) (\<lambda>r. case r of None \<Rightarrow> Inl AssertFail
           | Some f \<Rightarrow> res_bind (copy_loop (nf_junk fs1) bs f (nfs_disk fs1)) (\<lambda>d. Inr (fs1\<lparr>nfs_disk := d\<rparr>)))))"

text \<open>The loop of \<open>Print\<close>, with fuel; \<open>Print\<close> runs it with one step for each byte of the file and one more.\<close>

primrec print_loop :: "nat \<Rightarrow> NOpenFile \<Rightarrow> sdisk \<Rightarrow> 8 word list res" where
  "print_loop 0 f d = Inl OutOfFuel"
| "print_loop (Suc fuel) f d = res_bind (NOpenFile_Read (int TransferSize) f d) (\<lambda>(bs, f').
     if bs = [] then Inr [] else res_bind (print_loop fuel f' d) (\<lambda>out. Inr (bs @ out)))"

definition Print :: "bool \<Rightarrow> cstr \<Rightarrow> NFileSystem \<Rightarrow> 8 word list res" where
  "Print be name fs = res_bind (FS_Open be name 0 fs) (\<lambda>r. case r of None \<Rightarrow> Inr []
     | Some f \<Rightarrow> print_loop (nat (NOpenFile_Length f) + 1) f (nfs_disk fs))"

text \<open>\<open>PerformanceTest\<close>, with the complaints that it prints.\<close>

datatype complaint = CantCreate | CantOpen | CantWrite | CantRead | CantRemove

definition test_name :: cstr where "test_name = [0x54, 0x65, 0x73, 0x74, 0x46, 0x69, 0x6c, 0x65]"
definition Contents :: cstr where "Contents = [0x31, 0x32, 0x33, 0x34, 0x35, 0x36, 0x37, 0x38, 0x39, 0x30]"

primrec file_write_loop :: "nat \<Rightarrow> (nat \<Rightarrow> 8 word) \<Rightarrow> NOpenFile \<Rightarrow> sdisk \<Rightarrow> (complaint list \<times> sdisk) res" where
  "file_write_loop 0 g f d = Inr ([], d)"
| "file_write_loop (Suc n) g f d = res_bind (NOpenFile_Write g Contents (int (length Contents)) f d) (\<lambda>(r, f', d').
     if r < 10 then Inr ([CantWrite], d') else file_write_loop n g f' d')"

definition FileWrite :: "bool \<Rightarrow> NFileSystem \<Rightarrow> (complaint list \<times> NFileSystem) res" where
  "FileWrite be fs = res_bind (FS_Create be test_name 0 fs) (\<lambda>(created, fs1).
     if \<not> created then Inr ([CantCreate], fs1)
     else res_bind (FS_Open be test_name 0 fs1) (\<lambda>r. case r of None \<Rightarrow> Inr ([CantOpen], fs1)
       | Some f \<Rightarrow> res_bind (file_write_loop 5000 (nf_junk fs1) f (nfs_disk fs1)) (\<lambda>(cs, d). Inr (cs, fs1\<lparr>nfs_disk := d\<rparr>))))"

primrec file_read_loop :: "nat \<Rightarrow> NOpenFile \<Rightarrow> sdisk \<Rightarrow> complaint list res" where
  "file_read_loop 0 f d = Inr []"
| "file_read_loop (Suc n) f d = res_bind (NOpenFile_Read (int (length Contents)) f d) (\<lambda>(bs, f').
     if length bs < 10 \<or> \<not> strneq (length Contents) bs Contents then Inr [CantRead] else file_read_loop n f' d)"

definition FileRead :: "bool \<Rightarrow> NFileSystem \<Rightarrow> complaint list res" where
  "FileRead be fs = res_bind (FS_Open be test_name 0 fs) (\<lambda>r. case r of None \<Rightarrow> Inr [CantOpen]
     | Some f \<Rightarrow> file_read_loop 5000 f (nfs_disk fs))"

definition PerformanceTest :: "bool \<Rightarrow> NFileSystem \<Rightarrow> (complaint list \<times> NFileSystem) res" where
  "PerformanceTest be fs = res_bind (FileWrite be fs) (\<lambda>(cs1, fs1).
     res_bind (FileRead be fs1) (\<lambda>cs2.
     res_bind (FS_Remove be test_name fs1) (\<lambda>(removed, fs2).
       Inr (cs1 @ cs2 @ (if \<not> removed then [CantRemove] else []), fs2))))"

section \<open>Files on a disk\<close>

definition header_at :: "bool \<Rightarrow> sdisk \<Rightarrow> nat \<Rightarrow> FileHeader" where
  "header_at be d s = projr (FileHeader_FetchFrom be (int s) d)"

definition own :: "bool \<Rightarrow> sdisk \<Rightarrow> nat \<Rightarrow> nat set" where
  "own be d s = insert s (set (hdr_secs (header_at be d s)))"

definition file_at :: "bool \<Rightarrow> sdisk \<Rightarrow> nat \<Rightarrow> bool" where
  "file_at be d s = (\<exists>h. has_header be d s h \<and> hdr_ok h \<and> s \<notin> set (hdr_secs h))"

text \<open>The files of a directory \<open>dm\<close>: no two own a common sector, none owns one of the system's, and \<open>used\<close> are all sectors
  that are owned.\<close>

definition layout :: "bool \<Rightarrow> sdisk \<Rightarrow> nat set \<Rightarrow> (cstr \<rightharpoonup> nat) \<Rightarrow> nat set \<Rightarrow> bool" where
  "layout be d sys dm used =
     ((\<forall>k s. dm k = Some s \<longrightarrow> file_at be d s \<and> own be d s \<inter> sys = {}) \<and>
      (\<forall>k s k' s'. dm k = Some s \<longrightarrow> dm k' = Some s' \<longrightarrow> k \<noteq> k' \<longrightarrow> own be d s \<inter> own be d s' = {}) \<and>
      used = sys \<union> (\<Union>s \<in> ran dm. own be d s))"

definition fs_files :: "bool \<Rightarrow> sdisk \<Rightarrow> (cstr \<rightharpoonup> nat) \<Rightarrow> cstr \<rightharpoonup> 8 word list" where
  "fs_files be d dm k = map_option (\<lambda>s. file_bytes (header_at be d s) d) (dm k)"

lemma header_at: "has_header be d s h \<Longrightarrow> header_at be d s = h"
  by (simp add: header_at_def fetch_header)

lemma header_at_cong: "d' s = d s \<Longrightarrow> header_at be d' s = header_at be d s"
  by (simp add: header_at_def FileHeader_FetchFrom_def disk_read_def)

lemma file_bytes_cong: "(\<And>s. s \<in> set (hdr_secs h) \<Longrightarrow> d' s = d s) \<Longrightarrow> file_bytes h d' = file_bytes h d"
  by (simp add: file_bytes_def cong: map_cong)

lemma own_cong: "d' s = d s \<Longrightarrow> own be d' s = own be d s"
  using header_at_cong [of d' s d be] by (simp add: own_def)

lemma file_at_own: "file_at be d s \<Longrightarrow> \<exists>h. has_header be d s h \<and> hdr_ok h \<and> s \<notin> set (hdr_secs h) \<and> header_at be d s = h \<and>
    own be d s = insert s (set (hdr_secs h))"
  unfolding file_at_def own_def using header_at by blast

lemma file_at_cong: "d' s = d s \<Longrightarrow> file_at be d' s = file_at be d s"
  by (simp add: file_at_def has_header_def)

text \<open>Changing sectors that no file owns.\<close>

lemma layout_frame:
  assumes "layout be d sys dm used" "\<And>s. s \<in> used \<Longrightarrow> s \<notin> sys \<Longrightarrow> d' s = d s"
  shows "layout be d' sys dm used" "fs_files be d' dm = fs_files be d dm"
proof -
  have "\<forall>k s. dm k = Some s \<longrightarrow> own be d s \<inter> sys = {}" "used = sys \<union> (\<Union>s \<in> ran dm. own be d s)"
    using assms(1) by (simp_all add: layout_def)
  then have "own be d s \<subseteq> used - sys" if "dm k = Some s" for k s using that ranI [of dm k s] by blast
  then have eq: "d' t = d t" if "dm k = Some s" "t \<in> own be d s" for k s t using assms(2) that by blast
  have s: "d' s = d s" if "dm k = Some s" for k s using eq [OF that, of s] by (simp add: own_def)
  have "ran dm \<subseteq> {s. \<exists>k. dm k = Some s}" by (auto simp: ran_def)
  then have "(\<Union>s \<in> ran dm. own be d' s) = (\<Union>s \<in> ran dm. own be d s)" using own_cong [of d' _ d be] s by (intro SUP_cong) blast+
  moreover have "own be d' s = own be d s" "file_at be d' s = file_at be d s" if "dm k = Some s" for k s
    using own_cong [of d' s d be] file_at_cong [of d' s d be] s [OF that] by simp_all
  ultimately show "layout be d' sys dm used" using assms(1) unfolding layout_def by simp
  have "file_bytes (header_at be d' s) d' = file_bytes (header_at be d s) d" if "dm k = Some s" for k s
    using eq [OF that] header_at_cong [of d' s d be, OF s [OF that]] file_bytes_cong [of "header_at be d s" d' d] by (simp add: own_def)
  then have "fs_files be d' dm k = fs_files be d dm k" for k by (cases "dm k") (simp_all add: fs_files_def)
  then show "fs_files be d' dm = fs_files be d dm" by (rule ext)
qed

lemma layout_insert:
  assumes "layout be d sys dm used" "file_at be d s" "own be d s \<inter> used = {}" "dm k = None"
  shows "layout be d sys (dm(k \<mapsto> s)) (used \<union> own be d s)"
proof -
  have "own be d t \<inter> own be d s = {}" if "dm k' = Some t" for k' t
  proof -
    have "own be d t \<subseteq> used" using assms(1) that by (auto simp: layout_def intro: ranI)
    then show ?thesis using assms(3) by blast
  qed
  moreover have "own be d s \<inter> sys = {}" using assms(1,3) by (auto simp: layout_def)
  moreover have "ran (dm(k \<mapsto> s)) = insert s (ran dm)" using assms(4) by simp
  ultimately show ?thesis using assms(1,2) by (auto simp: layout_def)
qed

lemma layout_delete:
  assumes "layout be d sys dm used" "dm k = Some s"
  shows "layout be d sys (dm(k := None)) (used - own be d s)"
proof -
  have a: "\<forall>k s k' s'. dm k = Some s \<longrightarrow> dm k' = Some s' \<longrightarrow> k \<noteq> k' \<longrightarrow> own be d s \<inter> own be d s' = {}"
    "\<forall>k s. dm k = Some s \<longrightarrow> own be d s \<inter> sys = {}" "used = sys \<union> (\<Union>s \<in> ran dm. own be d s)"
    using assms(1) by (simp_all add: layout_def)
  have l: "own be d t \<inter> own be d s = {}" if "k' \<noteq> k" "dm k' = Some t" for k' t
    using a(1) that assms(2) by simp
  define X where "X = {t. \<exists>k'. k' \<noteq> k \<and> dm k' = Some t}"
  define A where "A = (\<Union>t \<in> X. own be d t)"
  have r: "ran (dm(k := None)) = X" by (auto simp: ran_def X_def)
  have "t \<in> ran dm \<longleftrightarrow> t \<in> insert s X" for t
    unfolding ran_def X_def mem_Collect_eq insert_iff using assms(2) by (metis option.inject)
  then have "ran dm = insert s X" by blast
  then have "used = sys \<union> (own be d s \<union> A)" using a(3) by (simp add: A_def)
  moreover have "A \<inter> own be d s = {}" using l by (auto simp: A_def X_def)
  moreover have "own be d s \<inter> sys = {}" using a(2) assms(2) by blast
  ultimately have "used - own be d s = sys \<union> A" by blast
  with assms(1) show ?thesis by (simp add: layout_def r A_def)
qed

section \<open>The invariant of the file system\<close>

definition sys_secs :: "NFileSystem \<Rightarrow> nat set" where
  "sys_secs fs = {0, 1} \<union> set (hdr_secs (hdr (freeMapFile fs))) \<union> set (hdr_secs (hdr (directoryFile fs)))"

definition sys_ok :: "FileHeader \<Rightarrow> FileHeader \<Rightarrow> bool" where
  "sys_ok hm hd' = (hdr_ok hm \<and> hdr_ok hd' \<and> hdr_size hm = 128 \<and> hdr_size hd' = 200 \<and>
     {0, 1} \<inter> (set (hdr_secs hm) \<union> set (hdr_secs hd')) = {} \<and> set (hdr_secs hm) \<inter> set (hdr_secs hd') = {})"

definition sys_at :: "bool \<Rightarrow> NFileSystem \<Rightarrow> bool" where
  "sys_at be fs = (disk_ok (nfs_disk fs) \<and> sys_ok (hdr (freeMapFile fs)) (hdr (directoryFile fs)) \<and>
     has_header be (nfs_disk fs) 0 (hdr (freeMapFile fs)) \<and> has_header be (nfs_disk fs) 1 (hdr (directoryFile fs)))"

definition fs_rep :: "bool \<Rightarrow> NFileSystem \<Rightarrow> BitMap \<Rightarrow> Directory \<Rightarrow> bool" where
  "fs_rep be fs b dir = (sys_at be fs \<and> fm_ok b \<and> file_bytes (hdr (freeMapFile fs)) (nfs_disk fs) = words_bytes be (bits b) \<and>
     dir_ok dir \<and> file_bytes (hdr (directoryFile fs)) (nfs_disk fs) = table_bytes be (table dir) \<and>
     layout be (nfs_disk fs) (sys_secs fs) (dir_map dir) (bm_used b))"

lemma sys_secs_disk [simp]: "sys_secs (fs\<lparr>nfs_disk := d\<rparr>) = sys_secs fs"
  by (simp add: sys_secs_def)

lemma sys_at_write:
  assumes "sys_at be fs" "disk_ok d'" "d' 0 = nfs_disk fs 0" "d' 1 = nfs_disk fs 1"
  shows "sys_at be (fs\<lparr>nfs_disk := d'\<rparr>)"
  using assms by (simp add: sys_at_def has_header_def)

lemma store_dir_ok:
  assumes "sys_at be fs" "dt_ok dir"
  shows "\<exists>d'. store_dir be dir fs = Inr (fs\<lparr>nfs_disk := d'\<rparr>) \<and> sys_at be (fs\<lparr>nfs_disk := d'\<rparr>) \<and>
     file_bytes (hdr (directoryFile fs)) d' = table_bytes be (table dir) \<and>
     file_bytes (hdr (freeMapFile fs)) d' = file_bytes (hdr (freeMapFile fs)) (nfs_disk fs) \<and>
     (\<forall>s. s \<notin> sys_secs fs \<longrightarrow> d' s = nfs_disk fs s)"
proof -
  let ?h = "hdr (directoryFile fs)"
  have a: "hdr_ok ?h" "disk_ok (nfs_disk fs)" "hdr_size ?h = 200" using assms(1) by (simp_all add: sys_at_def sys_ok_def)
  from dir_file.store_ok [OF a assms(2), of be "nf_junk fs"] obtain d' where
    d': "Directory_WriteBack be (nf_junk fs) ?h dir (nfs_disk fs) = Inr d'" "file_bytes ?h d' = table_bytes be (table dir)" "disk_ok d'"
      "\<forall>s. s \<notin> set (hdr_secs ?h) \<longrightarrow> d' s = nfs_disk fs s" by blast
  have "file_bytes (hdr (freeMapFile fs)) d' = file_bytes (hdr (freeMapFile fs)) (nfs_disk fs)"
    using d'(4) assms(1) by (intro file_bytes_cong) (auto simp: sys_at_def sys_ok_def)
  moreover have "sys_at be (fs\<lparr>nfs_disk := d'\<rparr>)"
    using d'(3,4) assms(1) by (intro sys_at_write) (auto simp: sys_at_def sys_ok_def)
  moreover have "\<forall>s. s \<notin> sys_secs fs \<longrightarrow> d' s = nfs_disk fs s" using d'(4) by (simp add: sys_secs_def)
  ultimately show ?thesis using d'(1,2) by (auto simp: store_dir_def)
qed

lemma store_map_ok:
  assumes "sys_at be fs" "fm_ok b"
  shows "\<exists>d'. store_map be b fs = Inr (fs\<lparr>nfs_disk := d'\<rparr>) \<and> sys_at be (fs\<lparr>nfs_disk := d'\<rparr>) \<and>
     file_bytes (hdr (freeMapFile fs)) d' = words_bytes be (bits b) \<and>
     file_bytes (hdr (directoryFile fs)) d' = file_bytes (hdr (directoryFile fs)) (nfs_disk fs) \<and>
     (\<forall>s. s \<notin> sys_secs fs \<longrightarrow> d' s = nfs_disk fs s)"
proof -
  let ?h = "hdr (freeMapFile fs)"
  have a: "hdr_ok ?h" "disk_ok (nfs_disk fs)" "hdr_size ?h = 128" using assms(1) by (simp_all add: sys_at_def sys_ok_def)
  from free_map.store_ok [OF a assms(2), of be "nf_junk fs"] obtain d' where
    d': "BitMap_WriteBack be (nf_junk fs) ?h b (nfs_disk fs) = Inr d'" "file_bytes ?h d' = words_bytes be (bits b)" "disk_ok d'"
      "\<forall>s. s \<notin> set (hdr_secs ?h) \<longrightarrow> d' s = nfs_disk fs s" by blast
  have "file_bytes (hdr (directoryFile fs)) d' = file_bytes (hdr (directoryFile fs)) (nfs_disk fs)"
    using d'(4) assms(1) by (intro file_bytes_cong) (auto simp: sys_at_def sys_ok_def)
  moreover have "sys_at be (fs\<lparr>nfs_disk := d'\<rparr>)"
    using d'(3,4) assms(1) by (intro sys_at_write) (auto simp: sys_at_def sys_ok_def)
  moreover have "\<forall>s. s \<notin> sys_secs fs \<longrightarrow> d' s = nfs_disk fs s" using d'(4) by (simp add: sys_secs_def)
  ultimately show ?thesis using d'(1,2) by (auto simp: store_map_def)
qed

text \<open>Writing back both objects, in either order, once the rest of the disk is laid out for them.\<close>

lemma commit_ok:
  assumes "sys_at be fs" "dir_ok dir" "fm_ok b" "layout be (nfs_disk fs) (sys_secs fs) (dir_map dir) (bm_used b)"
  shows "\<exists>d'. res_bind (store_dir be dir fs) (store_map be b) = Inr (fs\<lparr>nfs_disk := d'\<rparr>) \<and> fs_rep be (fs\<lparr>nfs_disk := d'\<rparr>) b dir \<and>
      fs_files be d' (dir_map dir) = fs_files be (nfs_disk fs) (dir_map dir)"
    "\<exists>d'. res_bind (store_map be b fs) (store_dir be dir) = Inr (fs\<lparr>nfs_disk := d'\<rparr>) \<and> fs_rep be (fs\<lparr>nfs_disk := d'\<rparr>) b dir \<and>
      fs_files be d' (dir_map dir) = fs_files be (nfs_disk fs) (dir_map dir)"
proof -
  have dt: "dt_ok dir" using assms(2) by (simp add: dir_ok_def)
  have fin: "fs_rep be (fs\<lparr>nfs_disk := d'\<rparr>) b dir \<and> fs_files be d' (dir_map dir) = fs_files be (nfs_disk fs) (dir_map dir)"
    if "sys_at be (fs\<lparr>nfs_disk := d'\<rparr>)" "file_bytes (hdr (freeMapFile fs)) d' = words_bytes be (bits b)"
      "file_bytes (hdr (directoryFile fs)) d' = table_bytes be (table dir)" "\<forall>s. s \<notin> sys_secs fs \<longrightarrow> d' s = nfs_disk fs s" for d'
    using that layout_frame [OF assms(4), of d'] assms(2,3) by (simp add: fs_rep_def)
  from store_dir_ok [OF assms(1) dt] obtain d1 where
    d1: "store_dir be dir fs = Inr (fs\<lparr>nfs_disk := d1\<rparr>)" "sys_at be (fs\<lparr>nfs_disk := d1\<rparr>)"
      "file_bytes (hdr (directoryFile fs)) d1 = table_bytes be (table dir)" "\<forall>s. s \<notin> sys_secs fs \<longrightarrow> d1 s = nfs_disk fs s" by blast
  from store_map_ok [OF d1(2) assms(3)] obtain d2 where
    "store_map be b (fs\<lparr>nfs_disk := d1\<rparr>) = Inr (fs\<lparr>nfs_disk := d2\<rparr>)" "sys_at be (fs\<lparr>nfs_disk := d2\<rparr>)"
    "file_bytes (hdr (freeMapFile fs)) d2 = words_bytes be (bits b)"
    "file_bytes (hdr (directoryFile fs)) d2 = file_bytes (hdr (directoryFile fs)) d1" "\<forall>s. s \<notin> sys_secs fs \<longrightarrow> d2 s = d1 s" by auto
  with d1 fin [of d2] show "\<exists>d'. res_bind (store_dir be dir fs) (store_map be b) = Inr (fs\<lparr>nfs_disk := d'\<rparr>) \<and>
      fs_rep be (fs\<lparr>nfs_disk := d'\<rparr>) b dir \<and> fs_files be d' (dir_map dir) = fs_files be (nfs_disk fs) (dir_map dir)" by auto
  from store_map_ok [OF assms(1,3)] obtain d1 where
    d1: "store_map be b fs = Inr (fs\<lparr>nfs_disk := d1\<rparr>)" "sys_at be (fs\<lparr>nfs_disk := d1\<rparr>)"
      "file_bytes (hdr (freeMapFile fs)) d1 = words_bytes be (bits b)" "\<forall>s. s \<notin> sys_secs fs \<longrightarrow> d1 s = nfs_disk fs s" by blast
  from store_dir_ok [OF d1(2) dt] obtain d2 where
    "store_dir be dir (fs\<lparr>nfs_disk := d1\<rparr>) = Inr (fs\<lparr>nfs_disk := d2\<rparr>)" "sys_at be (fs\<lparr>nfs_disk := d2\<rparr>)"
    "file_bytes (hdr (directoryFile fs)) d2 = table_bytes be (table dir)"
    "file_bytes (hdr (freeMapFile fs)) d2 = file_bytes (hdr (freeMapFile fs)) d1" "\<forall>s. s \<notin> sys_secs fs \<longrightarrow> d2 s = d1 s" by auto
  with d1 fin [of d2] show "\<exists>d'. res_bind (store_map be b fs) (store_dir be dir) = Inr (fs\<lparr>nfs_disk := d'\<rparr>) \<and>
      fs_rep be (fs\<lparr>nfs_disk := d'\<rparr>) b dir \<and> fs_files be d' (dir_map dir) = fs_files be (nfs_disk fs) (dir_map dir)" by auto
qed

lemma junk_ok: "length (dataSectors (junk_header g)) = NumDirect" "dt_ok (Directory_new NumDirEntries (junk_entry be g))"
  by (simp_all add: junk_header_def dt_ok_def Directory_new_def NumDirEntries_def list_all_iff entry_ok_def junk_entry_def entry_of_def)

lemma fetch_dir_ok: "fs_rep be fs b dir \<Longrightarrow> fetch_dir be fs = Inr dir"
  unfolding fetch_dir_def by (rule dir_file.fetch_ok) (simp_all add: fs_rep_def sys_at_def sys_ok_def dir_ok_def junk_ok)

lemma fetch_map_ok: "fs_rep be fs b dir \<Longrightarrow> fetch_map be fs = Inr b"
proof -
  assume r: "fs_rep be fs b dir"
  obtain b0 where b0: "BitMap_new NumSectors (junk_word (nf_junk fs)) = Inr b0" "fm_ok b0"
    using BitMap_new_ok [of NumSectors] by (fastforce simp: sizes fm_ok_def)
  have "BitMap_FetchFrom be (hdr (freeMapFile fs)) b0 (nfs_disk fs) = Inr b"
    by (rule free_map.fetch_ok) (use r b0(2) in \<open>simp_all add: fs_rep_def sys_at_def sys_ok_def\<close>)
  with b0(1) show ?thesis by (simp add: fetch_map_def)
qed

lemma dir_sectors: "fs_rep be fs b dir \<Longrightarrow> dir_map dir k = Some s \<Longrightarrow> file_at be (nfs_disk fs) s \<and> own be (nfs_disk fs) s \<inter> sys_secs fs = {} \<and>
    own be (nfs_disk fs) s \<subseteq> bm_used b"
  using ranI [of "dir_map dir" k s] unfolding fs_rep_def layout_def by blast

lemma Find_rep:
  assumes "fs_rep be fs b dir" "0 \<notin> set name"
  shows "Directory_Find name dir = (case dir_map dir (take 9 name) of None \<Rightarrow> -1 | Some s \<Rightarrow> int s)"
proof (rule Find_ok)
  show d: "dir_ok dir" using assms(1) by (simp add: fs_rep_def)
  fix i assume "i < (10 :: nat)" "inUse (table dir ! i)"
  then have "dir_map dir (key (table dir ! i)) = Some (nat (sint (de_sector (table dir ! i))))" using dir_map_iff [OF d] by blast
  from dir_sectors [OF assms(1) this] show "0 \<le> sint (de_sector (table dir ! i))" by (auto simp: own_def sys_secs_def)
qed (rule assms(2))

section \<open>Creating and removing files\<close>

definition sectors_for :: "nat \<Rightarrow> nat" where
  "sectors_for size' = nat (divRoundUp (int size') 512)"

lemma hdr_sectors: "hdr_ok h \<Longrightarrow> card (set (hdr_secs h)) = sectors_for (hdr_size h)"
proof -
  assume h: "hdr_ok h"
  then have "distinct (hdr_secs h)" "sint (numSectors h) = divRoundUp (sint (numBytes h)) 512" "0 \<le> sint (numBytes h)"
    by (simp_all add: hdr_ok_def SectorSize_def)
  then show ?thesis using secs_len(1) [OF h] by (simp add: distinct_card sectors_for_def hdr_size_def)
qed

text \<open>There is room for a new file: the name is not taken, the directory has a free entry, and there are sectors for the
  header and the contents.\<close>

definition room :: "cstr \<Rightarrow> nat \<Rightarrow> BitMap \<Rightarrow> Directory \<Rightarrow> bool" where
  "room name size' b dir = (dir_map dir (take 9 name) = None \<and> \<not> list_all inUse (table dir) \<and> card (bm_used b) + 1 + sectors_for size' \<le> 1024)"

lemma Create_steps:
  assumes "fs_rep be fs b dir" "0 \<notin> set name" "dir_map dir (take 9 name) = None" "\<not> list_all inUse (table dir)" "bm_used b \<noteq> {..<1024}"
  obtains s b1 dir' where "BitMap_Find b = Inr (int s, b1)" "s < 1024" "s \<notin> bm_used b" "fm_ok b1" "bm_used b1 = insert s (bm_used b)"
    "dir_ok dir'" "dir_map dir' = (dir_map dir)(take 9 name \<mapsto> s)"
    "\<And>size'. FS_Create be name size' fs = res_bind (Allocate b1 size' (junk_header (nf_junk fs))) (\<lambda>(allocated, h, freeMap2).
         if \<not> allocated then Inr (False, fs)
         else res_bind (FileHeader_WriteBack be (int s) h (nfs_disk fs)) (\<lambda>d.
           res_bind (res_bind (store_dir be dir' (fs\<lparr>nfs_disk := d\<rparr>)) (store_map be freeMap2)) (\<lambda>fs2. Inr (True, fs2))))"
proof -
  have b: "bm_ok b" "bm_cap b = 1024" "dir_ok dir" using assms(1) by (simp_all add: fs_rep_def fm_ok_def bm_cap_def)
  then obtain s b1 where s: "BitMap_Find b = Inr (int s, b1)" "s < 1024" "s \<notin> bm_used b" "fm_ok b1" "bm_used b1 = insert s (bm_used b)"
    using BitMap_Find_free [OF b(1)] assms(1,5) by (auto simp: fm_ok_def fs_rep_def)
  from Add_ok [OF b(3) assms(2) s(2)] assms(3,4) obtain dir' where
    a: "Directory_Add name (int s) dir = (True, dir')" "dir_ok dir'" "dir_map dir' = (dir_map dir)(take 9 name \<mapsto> s)" by auto
  have "FS_Create be name size' fs = res_bind (Allocate b1 size' (junk_header (nf_junk fs))) (\<lambda>(allocated, h, freeMap2).
         if \<not> allocated then Inr (False, fs)
         else res_bind (FileHeader_WriteBack be (int s) h (nfs_disk fs)) (\<lambda>d.
           res_bind (res_bind (store_dir be dir' (fs\<lparr>nfs_disk := d\<rparr>)) (store_map be freeMap2)) (\<lambda>fs2. Inr (True, fs2))))" for size'
    unfolding FS_Create_def res_bind_assoc
    by (simp add: fetch_dir_ok [OF assms(1)] fetch_map_ok [OF assms(1)] Find_rep [OF assms(1,2)] assms(3) s(1) a(1))
  with s a that show thesis by blast
qed

lemma Create_fails:
  assumes "fs_rep be fs b dir" "0 \<notin> set name"
    "\<not> (dir_map dir (take 9 name) = None \<and> \<not> list_all inUse (table dir) \<and> bm_used b \<noteq> {..<1024})"
  shows "FS_Create be name size' fs = Inr (False, fs)"
proof -
  have b: "bm_ok b" "bm_cap b = 1024" "dir_ok dir" using assms(1) by (simp_all add: fs_rep_def fm_ok_def bm_cap_def)
  show ?thesis
  proof (cases "dir_map dir (take 9 name)")
    case None
    show ?thesis
    proof (cases "bm_used b = {..<1024}")
      case True
      then show ?thesis using BitMap_Find_full [OF b(1)] None
        by (simp add: FS_Create_def fetch_dir_ok [OF assms(1)] fetch_map_ok [OF assms(1)] Find_rep [OF assms(1,2)] b(2))
    next
      case n: False
      then obtain s b1 where s: "BitMap_Find b = Inr (int s, b1)" "s < 1024" using BitMap_Find_free [OF b(1)] b(2) by auto
      have "Directory_Add name (int s) dir = (False, dir)" using Add_ok [OF b(3) assms(2) s(2)] None assms(3) n by blast
      then show ?thesis using s(1) None
        by (simp add: FS_Create_def fetch_dir_ok [OF assms(1)] fetch_map_ok [OF assms(1)] Find_rep [OF assms(1,2)])
    qed
  qed (simp add: FS_Create_def fetch_dir_ok [OF assms(1)] Find_rep [OF assms(1,2)])
qed

text \<open>Writing a new header and both objects.\<close>

lemma add_file:
  assumes "fs_rep be fs b dir" "dir_map dir k = None" "s < 1024" "s \<notin> bm_used b" "hdr_ok h" "set (hdr_secs h) \<inter> insert s (bm_used b) = {}"
    "dir_ok dir'" "dir_map dir' = (dir_map dir)(k \<mapsto> s)" "fm_ok b'" "bm_used b' = insert s (bm_used b) \<union> set (hdr_secs h)"
  defines "d \<equiv> (nfs_disk fs)(s := header_bytes be h)"
  shows "\<exists>d'. FileHeader_WriteBack be (int s) h (nfs_disk fs) = Inr d \<and>
     res_bind (store_dir be dir' (fs\<lparr>nfs_disk := d\<rparr>)) (store_map be b') = Inr (fs\<lparr>nfs_disk := d'\<rparr>) \<and> fs_rep be (fs\<lparr>nfs_disk := d'\<rparr>) b' dir' \<and>
     fs_files be d' (dir_map dir') = (fs_files be (nfs_disk fs) (dir_map dir))(k \<mapsto> file_bytes h d) \<and> length (file_bytes h d) = hdr_size h"
proof -
  let ?dm = "dir_map dir"
  have nd: "length (dataSectors h) = NumDirect" using assms(5) by (simp add: hdr_ok_def)
  note W = write_header [OF assms(3) nd, where be = be and d = "nfs_disk fs", folded d_def]
  have rep: "sys_at be fs" "layout be (nfs_disk fs) (sys_secs fs) ?dm (bm_used b)" "disk_ok (nfs_disk fs)"
    using assms(1) by (simp_all add: fs_rep_def sys_at_def)
  have "sys_secs fs \<subseteq> bm_used b" using rep(2) unfolding layout_def by blast
  then have "0 \<in> bm_used b" "1 \<in> bm_used b" by (auto simp: sys_secs_def)
  then have "s \<noteq> 0" "s \<noteq> 1" using assms(4) by metis+
  then have sy: "sys_at be (fs\<lparr>nfs_disk := d\<rparr>)" using rep(1) W(3) [OF rep(3)] by (intro sys_at_write) (simp_all add: d_def)
  have "d t = nfs_disk fs t" if "t \<in> bm_used b" "t \<notin> sys_secs fs" for t using that(1) assms(4) by (auto simp: d_def)
  note fr = layout_frame [OF rep(2), of d, OF this]
  have o: "file_at be d s" "own be d s = insert s (set (hdr_secs h))" "header_at be d s = h"
    using W(2) assms(5,6) header_at [OF W(2)] by (auto simp: file_at_def own_def)
  have "layout be d (sys_secs fs) (?dm(k \<mapsto> s)) (bm_used b \<union> own be d s)"
    using layout_insert [OF fr(1) o(1) _ assms(2)] o(2) assms(4,6) by auto
  moreover have "bm_used b \<union> own be d s = bm_used b'" using o(2) assms(10) by auto
  ultimately obtain d' where d': "res_bind (store_dir be dir' (fs\<lparr>nfs_disk := d\<rparr>)) (store_map be b') = Inr (fs\<lparr>nfs_disk := d'\<rparr>)"
      "fs_rep be (fs\<lparr>nfs_disk := d'\<rparr>) b' dir'" "fs_files be d' (dir_map dir') = fs_files be d (dir_map dir')"
    using commit_ok(1) [OF sy assms(7,9)] assms(8) by auto
  have "fs_files be d (dir_map dir') = (fs_files be d ?dm)(k \<mapsto> file_bytes h d)"
    by (rule ext) (simp add: fs_files_def assms(8) o(3))
  then have "fs_files be d' (dir_map dir') = (fs_files be (nfs_disk fs) ?dm)(k \<mapsto> file_bytes h d)" using d'(3) fr(2) by simp
  with W(1) d'(1,2) length_file_bytes [OF assms(5) W(3) [OF rep(3)]] show ?thesis by blast
qed

lemma FS_Create_ok:
  assumes "fs_rep be fs b dir" "0 \<notin> set name" "size' \<le> 64512"
  shows "if room name size' b dir
     then \<exists>d' b' dir' c. FS_Create be name (int size') fs = Inr (True, fs\<lparr>nfs_disk := d'\<rparr>) \<and> fs_rep be (fs\<lparr>nfs_disk := d'\<rparr>) b' dir' \<and> length c = size' \<and>
       fs_files be d' (dir_map dir') = (fs_files be (nfs_disk fs) (dir_map dir))(take 9 name \<mapsto> c) \<and> dom (dir_map dir') = insert (take 9 name) (dom (dir_map dir)) \<and>
       card (bm_used b') = card (bm_used b) + 1 + sectors_for size'
     else FS_Create be name (int size') fs = Inr (False, fs)"
proof (cases "dir_map dir (take 9 name) = None \<and> \<not> list_all inUse (table dir) \<and> bm_used b \<noteq> {..<1024}")
  case False
  then have "\<not> room name size' b dir" by (auto simp: room_def)
  then show ?thesis using Create_fails [OF assms(1,2) False] by simp
next
  case True
  then have t: "dir_map dir (take 9 name) = None" "\<not> list_all inUse (table dir)" "bm_used b \<noteq> {..<1024}" by blast+
  obtain s b1 dir' where s: "BitMap_Find b = Inr (int s, b1)" "s < 1024" "s \<notin> bm_used b" "fm_ok b1" "bm_used b1 = insert s (bm_used b)"
    "dir_ok dir'" "dir_map dir' = (dir_map dir)(take 9 name \<mapsto> s)" and
    C: "\<And>size'. FS_Create be name size' fs = res_bind (Allocate b1 size' (junk_header (nf_junk fs))) (\<lambda>(allocated, h, freeMap2).
         if \<not> allocated then Inr (False, fs)
         else res_bind (FileHeader_WriteBack be (int s) h (nfs_disk fs)) (\<lambda>d.
           res_bind (res_bind (store_dir be dir' (fs\<lparr>nfs_disk := d\<rparr>)) (store_map be freeMap2)) (\<lambda>fs2. Inr (True, fs2))))"
    by (rule Create_steps [OF assms(1,2) t]) (rule that)
  have b1: "bm_ok b1" "numBits b1 = 1024" "card (bm_used b1) = card (bm_used b) + 1" using s(3,4,5) by (simp_all add: fm_ok_def)
  note A = Allocate_ok [OF b1(1,2) junk_ok(1) assms(3), of "nf_junk fs", folded sectors_for_def]
  show ?thesis
  proof (cases "room name size' b dir")
    case no: False
    then have "\<not> card (bm_used b1) + sectors_for size' \<le> 1024" using True b1(3) by (simp add: room_def)
    with A obtain h where "Allocate b1 (int size') (junk_header (nf_junk fs)) = Inr (False, h, b1)" by auto
    with no show ?thesis by (simp add: C)
  next
    case yes: True
    then have "card (bm_used b1) + sectors_for size' \<le> 1024" using b1(3) by (simp add: room_def)
    with A obtain h b2 where h: "Allocate b1 (int size') (junk_header (nf_junk fs)) = Inr (True, h, b2)" "hdr_ok h" "hdr_size h = size'"
        "set (hdr_secs h) \<inter> bm_used b1 = {}" "bm_ok b2" "numBits b2 = 1024" "bm_used b2 = bm_used b1 \<union> set (hdr_secs h)" by auto
    have b2: "fm_ok b2" "bm_used b2 = insert s (bm_used b) \<union> set (hdr_secs h)" using h(5-7) s(5) by (simp_all add: fm_ok_def)
    let ?d = "(nfs_disk fs)(s := header_bytes be h)"
    obtain d' where d': "FileHeader_WriteBack be (int s) h (nfs_disk fs) = Inr ?d"
        "res_bind (store_dir be dir' (fs\<lparr>nfs_disk := ?d\<rparr>)) (store_map be b2) = Inr (fs\<lparr>nfs_disk := d'\<rparr>)" "fs_rep be (fs\<lparr>nfs_disk := d'\<rparr>) b2 dir'"
        "fs_files be d' (dir_map dir') = (fs_files be (nfs_disk fs) (dir_map dir))(take 9 name \<mapsto> file_bytes h ?d)" "length (file_bytes h ?d) = size'"
      using add_file [OF assms(1) t(1) s(2,3) h(2) h(4) [unfolded s(5)] s(6,7) b2] h(3) by blast
    have "card (bm_used b2) = card (bm_used b) + 1 + sectors_for size'"
      using h(4,7) b1(3) hdr_sectors [OF h(2)] h(3) by (simp add: card_Un_disjoint Int_commute)
    moreover have "FS_Create be name (int size') fs = Inr (True, fs\<lparr>nfs_disk := d'\<rparr>)" using C h(1) d'(1,2) by simp
    moreover have "dom (dir_map dir') = insert (take 9 name) (dom (dir_map dir))" using s(7) by simp
    ultimately show ?thesis unfolding if_P [OF yes] using d'(3-5) by blast
  qed
qed

lemma FS_Remove_ok:
  assumes "fs_rep be fs b dir" "0 \<notin> set name"
  shows "case dir_map dir (take 9 name) of None \<Rightarrow> FS_Remove be name fs = Inr (False, fs)
     | Some s \<Rightarrow> \<exists>d' b' dir'. FS_Remove be name fs = Inr (True, fs\<lparr>nfs_disk := d'\<rparr>) \<and> fs_rep be (fs\<lparr>nfs_disk := d'\<rparr>) b' dir' \<and>
         fs_files be d' (dir_map dir') = (fs_files be (nfs_disk fs) (dir_map dir))(take 9 name := None) \<and>
         bm_used b' = bm_used b - own be (nfs_disk fs) s"
proof (cases "dir_map dir (take 9 name)")
  case None
  then show ?thesis by (simp add: FS_Remove_def fetch_dir_ok [OF assms(1)] Find_rep [OF assms])
next
  case (Some s)
  let ?d = "nfs_disk fs" and ?dm = "dir_map dir"
  have rep: "sys_at be fs" "layout be ?d (sys_secs fs) ?dm (bm_used b)" "bm_ok b" "numBits b = 1024" "dir_ok dir"
    using assms(1) by (simp_all add: fs_rep_def fm_ok_def)
  note f = dir_sectors [OF assms(1) Some]
  from f file_at_own obtain h where h: "has_header be ?d s h" "hdr_ok h" "s \<notin> set (hdr_secs h)" "own be ?d s = insert s (set (hdr_secs h))" by blast
  from Deallocate_ok [OF h(2) rep(3,4)] f h(4) obtain b1 where
    b1: "Deallocate h b = Inr b1" "bm_ok b1" "numBits b1 = 1024" "bm_used b1 = bm_used b - set (hdr_secs h)" by auto
  have "s < bm_cap b1" using h(1) b1(3) by (simp add: has_header_def bm_cap_def)
  with BitMap_Clear_ok [OF b1(2)] obtain b2 where
    b2: "BitMap_Clear (int s) b1 = Inr b2" "fm_ok b2" "bm_used b2 = bm_used b1 - {s}" using b1(3) by (auto simp: fm_ok_def)
  from Remove_ok [OF rep(5) assms(2)] Some obtain dir' where
    dir': "Directory_Remove name dir = (True, dir')" "dir_ok dir'" "dir_map dir' = ?dm(take 9 name := None)" by auto
  have u: "bm_used b2 = bm_used b - own be ?d s" using b1(4) b2(3) h(4) by auto
  obtain d' where d': "res_bind (store_map be b2 fs) (store_dir be dir') = Inr (fs\<lparr>nfs_disk := d'\<rparr>)" "fs_rep be (fs\<lparr>nfs_disk := d'\<rparr>) b2 dir'"
      "fs_files be d' (dir_map dir') = fs_files be ?d (dir_map dir')"
    using commit_ok(2) [OF rep(1) dir'(2) b2(2)] layout_delete [OF rep(2) Some] u dir'(3) by auto
  have "FS_Remove be name fs = Inr (True, fs\<lparr>nfs_disk := d'\<rparr>)"
    unfolding FS_Remove_def using d'(1) Some
    by (simp add: fetch_dir_ok [OF assms(1)] Find_rep [OF assms] fetch_header [OF h(1)] fetch_map_ok [OF assms(1)] b1(1) b2(1) dir'(1)
        flip: res_bind_assoc)
  moreover have "fs_files be ?d (dir_map dir') = (fs_files be ?d ?dm)(take 9 name := None)" by (rule ext) (simp add: fs_files_def dir'(3))
  ultimately show ?thesis using Some d'(2,3) u by auto
qed

section \<open>Formatting, and opening files\<close>

lemma card_dir: "dir_ok dir \<Longrightarrow> card (dom (dir_map dir)) = length (filter inUse (table dir))"
proof -
  assume "dir_ok dir"
  moreover have "dom (dir_map dir) = set (map key (filter inUse (table dir)))" by (simp add: dir_map_def dom_map_of_conv_image_fst image_image)
  ultimately show ?thesis using distinct_card [of "map key (filter inUse (table dir))"] by (simp add: dir_ok_def)
qed

lemma full_dir: "dir_ok dir \<Longrightarrow> list_all inUse (table dir) \<longleftrightarrow> \<not> card (dom (dir_map dir)) < 10"
proof -
  assume d: "dir_ok dir"
  then have l: "length (table dir) = 10" by (simp add: dir_ok_def dt_ok_def)
  have "list_all inUse (table dir) \<longleftrightarrow> filter inUse (table dir) = table dir" by (simp add: filter_id_conv list_all_iff)
  also have "\<dots> \<longleftrightarrow> length (filter inUse (table dir)) = length (table dir)" by (metis length_filter_less filter_id_conv less_irrefl)
  finally show ?thesis using l length_filter_le [of inUse "table dir"] card_dir [OF d] by auto
qed

lemma empty_dir: "dir_ok (Directory_new NumDirEntries (junk_entry be g))" "dir_map (Directory_new NumDirEntries (junk_entry be g)) = Map.empty"
proof -
  have "filter inUse (table (Directory_new NumDirEntries (junk_entry be g))) = []"
    by (simp add: Directory_new_def filter_empty_conv inUse_def)
  then show "dir_ok (Directory_new NumDirEntries (junk_entry be g))" "dir_map (Directory_new NumDirEntries (junk_entry be g)) = Map.empty"
    by (simp_all add: dir_ok_def junk_ok dir_map_def)
qed

lemma new_free_map:
  obtains b0 b1 b2 hm b3 hd' b4 where "BitMap_new NumSectors (junk_word g) = Inr b0" "BitMap_Mark FreeMapSector b0 = Inr b1"
    "BitMap_Mark DirectorySector b1 = Inr b2" "Allocate b2 FreeMapFileSize (junk_header g) = Inr (True, hm, b3)"
    "Allocate b3 DirectoryFileSize (junk_header g) = Inr (True, hd', b4)" "sys_ok hm hd'" "fm_ok b4"
    "bm_used b4 = {0, 1} \<union> set (hdr_secs hm) \<union> set (hdr_secs hd')" "card (bm_used b4) = 4"
proof -
  obtain b0 where b0: "BitMap_new NumSectors (junk_word g) = Inr b0" "bm_ok b0" "numBits b0 = 1024" "bm_used b0 = {}"
    using BitMap_new_ok [of NumSectors] by (auto simp: sizes)
  then obtain b1 where b1: "BitMap_Mark 0 b0 = Inr b1" "bm_ok b1" "numBits b1 = 1024" "bm_used b1 = {0}"
    using BitMap_Mark_ok [of b0 0] by (auto simp: bm_cap_def)
  then obtain b2 where b2: "BitMap_Mark 1 b1 = Inr b2" "bm_ok b2" "numBits b2 = 1024" "bm_used b2 = {0, 1}"
    using BitMap_Mark_ok [of b1 1] by (auto simp: bm_cap_def)
  have n: "nat (divRoundUp (int 128) 512) = 1" "nat (divRoundUp (int 200) 512) = 1" by (simp_all add: divRoundUp_def sdiv_nonneg smod_nonneg)
  obtain hm b3 where hm: "Allocate b2 (int 128) (junk_header g) = Inr (True, hm, b3)" "hdr_ok hm" "hdr_size hm = 128" "set (hdr_secs hm) \<inter> {0, 1} = {}"
      "bm_ok b3" "numBits b3 = 1024" "bm_used b3 = {0, 1} \<union> set (hdr_secs hm)"
    using Allocate_ok [OF b2(2,3) junk_ok(1), of 128 g] n(1) b2(4) by auto
  have c3: "card (bm_used b3) = 3" using hm(4,7) hdr_sectors [OF hm(2)] n(1) hm(3) by (simp add: card_Un_disjoint Int_commute sectors_for_def)
  obtain hd' b4 where hd': "Allocate b3 (int 200) (junk_header g) = Inr (True, hd', b4)" "hdr_ok hd'" "hdr_size hd' = 200" "set (hdr_secs hd') \<inter> bm_used b3 = {}"
      "bm_ok b4" "numBits b4 = 1024" "bm_used b4 = bm_used b3 \<union> set (hdr_secs hd')"
    using Allocate_ok [OF hm(5,6) junk_ok(1), of 200 g] n(2) c3 by auto
  have "card (bm_used b4) = 4" using hd'(4,7) hdr_sectors [OF hd'(2)] n(2) hd'(3) c3 by (simp add: card_Un_disjoint Int_commute sectors_for_def)
  moreover have "sys_ok hm hd'" using hm(2,3,4,7) hd'(2,3,4) by (auto simp: sys_ok_def)
  moreover have "FreeMapFileSize = int 128" "DirectoryFileSize = int 200" by (simp_all add: FreeMapFileSize_def DirectoryFileSize_def NumDirEntries_def sizes sdiv_nonneg)
  ultimately show thesis using that b0 b1 b2 hm hd' by (simp add: FreeMapSector_def DirectorySector_def fm_ok_def)
qed

lemma FS_format_ok:
  assumes "disk_ok d"
  shows "\<exists>fs b dir. FS_format be d g = Inr fs \<and> fs_rep be fs b dir \<and> dir_map dir = Map.empty \<and> card (bm_used b) = 4 \<and>
     nf_heap fs = Map.empty \<and> nf_next fs = 0"
proof -
  obtain b0 b1 b2 hm b3 hd' b4 where a: "BitMap_new NumSectors (junk_word g) = Inr b0" "BitMap_Mark FreeMapSector b0 = Inr b1"
    "BitMap_Mark DirectorySector b1 = Inr b2" "Allocate b2 FreeMapFileSize (junk_header g) = Inr (True, hm, b3)"
    "Allocate b3 DirectoryFileSize (junk_header g) = Inr (True, hd', b4)" "sys_ok hm hd'" "fm_ok b4"
    "bm_used b4 = {0, 1} \<union> set (hdr_secs hm) \<union> set (hdr_secs hd')" "card (bm_used b4) = 4" by (rule new_free_map)
  have nd: "length (dataSectors hm) = NumDirect" "length (dataSectors hd') = NumDirect" using a(6) by (simp_all add: sys_ok_def hdr_ok_def)
  let ?d1 = "d(0 := header_bytes be hm)" let ?d2 = "?d1(1 := header_bytes be hd')"
  note W = write_header [of 0 hm, OF _ nd(1), where be = be and d = d] write_header [of 1 hd', OF _ nd(2), where be = be and d = ?d1]
  have hh: "has_header be ?d2 0 hm" "has_header be ?d2 1 hd'" using W(2,5) nd by (simp_all add: has_header_def)
  define fs where "fs = \<lparr>nfs_disk = ?d2, freeMapFile = \<lparr>hdr = hm, seekPosition = 0, nf_type = 0\<rparr>,
     directoryFile = \<lparr>hdr = hd', seekPosition = 0, nf_type = 0\<rparr>, nf_slots = [], nf_heap = Map.empty, nf_next = 0, nf_junk = g\<rparr>"
  let ?dir = "Directory_new NumDirEntries (junk_entry be g)"
  have sy: "sys_at be fs" using W(3,6) assms a(6) hh by (simp add: sys_at_def fs_def)
  have "layout be (nfs_disk fs) (sys_secs fs) (dir_map ?dir) (bm_used b4)" by (simp add: layout_def empty_dir sys_secs_def fs_def a(8))
  then obtain d' where "res_bind (store_map be b4 fs) (store_dir be ?dir) = Inr (fs\<lparr>nfs_disk := d'\<rparr>)" "fs_rep be (fs\<lparr>nfs_disk := d'\<rparr>) b4 ?dir"
    using commit_ok(2) [OF sy empty_dir(1) a(7)] by blast
  moreover have "FS_format be d g = res_bind (store_map be b4 fs) (store_dir be ?dir)"
    using fetch_header [OF hh(1)] fetch_header [OF hh(2)] W(1,4)
    by (simp add: FS_format_def a(1,4,5) a(2,3) [unfolded FreeMapSector_def DirectorySector_def] NOpenFile_new_def fs_def FreeMapSector_def DirectorySector_def del: fun_upd_apply)
  ultimately show ?thesis using empty_dir(2) a(9) by (auto simp: fs_def)
qed

lemma FS_Open_ok:
  assumes "fs_rep be fs b dir" "0 \<notin> set name"
  shows "FS_Open be name t fs = Inr (map_option (\<lambda>s. \<lparr>hdr = header_at be (nfs_disk fs) s, seekPosition = 0, nf_type = t\<rparr>) (dir_map dir (take 9 name)))"
proof (cases "dir_map dir (take 9 name)")
  case None
  then show ?thesis by (simp add: FS_Open_def fetch_dir_ok [OF assms(1)] Find_rep [OF assms])
next
  case (Some s)
  from dir_sectors [OF assms(1) Some] file_at_own obtain h where "has_header be (nfs_disk fs) s h" "header_at be (nfs_disk fs) s = h" by blast
  then show ?thesis using Some by (simp add: FS_Open_def fetch_dir_ok [OF assms(1)] Find_rep [OF assms] NOpenFile_new_def fetch_header)
qed

lemma FS_OpenType_ok:
  assumes "fs_rep be fs b dir" "0 \<notin> set name" "dir_map dir (take 9 name) = Some s" "2 \<le> i" "i < 15"
    "length (nf_slots fs) = 15" "nf_slots fs ! i = None" "\<forall>j. 2 \<le> j \<longrightarrow> j < i \<longrightarrow> nf_slots fs ! j \<noteq> None"
  shows "FS_OpenType be name t fs = Inr (Some (nf_next fs), fs\<lparr>nf_slots := (nf_slots fs)[i := Some (nf_next fs)],
      nf_heap := (nf_heap fs)(nf_next fs \<mapsto> \<lparr>hdr = header_at be (nfs_disk fs) s, seekPosition = 0, nf_type = t\<rparr>), nf_next := nf_next fs + 1\<rparr>)"
proof -
  have "[2..<i + (15 - i)] = [2..<i] @ [i..<i + (15 - i)]" by (rule upt_add_eq_append [OF assms(4)])
  then have "[2..<15] = [2..<i] @ i # [Suc i..<15]" using assms(5) upt_conv_Cons [of i 15] by (simp del: upt_rec_numeral)
  moreover have "filter (\<lambda>j. nf_slots fs ! j = None) [2..<i] = []" using assms(8) unfolding filter_empty_conv by auto
  ultimately have "filter (\<lambda>j. nf_slots fs ! j = None) [2..<15] = i # filter (\<lambda>j. nf_slots fs ! j = None) [Suc i..<15]"
    using assms(7) by (simp only: filter_append filter.simps) simp
  then have "FS_FindFreeSlot fs = int i" unfolding FS_FindFreeSlot_def by (simp only: list.case)
  then show ?thesis using assms(5,6) by (simp add: FS_OpenType_def FS_Open_ok [OF assms(1,2)] assms(3))
qed

lemma fs_rep_slots:
  "fs_rep be fs b dir \<Longrightarrow> nfs_disk fs' = nfs_disk fs \<Longrightarrow> freeMapFile fs' = freeMapFile fs \<Longrightarrow> directoryFile fs' = directoryFile fs \<Longrightarrow> fs_rep be fs' b dir"
  by (simp add: fs_rep_def sys_at_def sys_secs_def)

lemma console_names: "0 \<notin> set stdin_name" "0 \<notin> set stdout_name" "take 9 stdin_name = stdin_name" "take 9 stdout_name = stdout_name" "stdin_name \<noteq> stdout_name"
  by (simp_all add: stdin_name_def stdout_name_def)

lemma fs_files_empty: "fs_files be d Map.empty = Map.empty"
  by (rule ext) (simp add: fs_files_def)

lemma sectors_for_0: "sectors_for 0 = 0"
  by (simp add: sectors_for_def divRoundUp_def sdiv_nonneg smod_nonneg)

lemma create_empty:
  assumes "fs_rep be fs b dir" "0 \<notin> set name" "take 9 name = name" "name \<notin> dom (dir_map dir)" "card (dom (dir_map dir)) < 10" "card (bm_used b) < 1024"
  shows "\<exists>d' b' dir'. FS_Create be name 0 fs = Inr (True, fs\<lparr>nfs_disk := d'\<rparr>) \<and> fs_rep be (fs\<lparr>nfs_disk := d'\<rparr>) b' dir' \<and>
     fs_files be d' (dir_map dir') = (fs_files be (nfs_disk fs) (dir_map dir))(name \<mapsto> []) \<and> dom (dir_map dir') = insert name (dom (dir_map dir)) \<and>
     card (bm_used b') = card (bm_used b) + 1"
proof -
  have "dir_ok dir" using assms(1) by (simp add: fs_rep_def)
  then have "room name 0 b dir" using full_dir [of dir] assms(3-6) by (auto simp: room_def sectors_for_0 domIff)
  then obtain d' b' dir' c where "FS_Create be name (int 0) fs = Inr (True, fs\<lparr>nfs_disk := d'\<rparr>)" "fs_rep be (fs\<lparr>nfs_disk := d'\<rparr>) b' dir'" "length c = 0"
      "fs_files be d' (dir_map dir') = (fs_files be (nfs_disk fs) (dir_map dir))(take 9 name \<mapsto> c)" "dom (dir_map dir') = insert (take 9 name) (dom (dir_map dir))"
      "card (bm_used b') = card (bm_used b) + 1 + sectors_for 0"
    using FS_Create_ok [OF assms(1,2), of 0] by (simp only: if_True zero_le) blast
  then show ?thesis using assms(3) by (auto simp: sectors_for_0)
qed

lemma blank_disk: "disk_ok (\<lambda>_. replicate 512 0)"
  by (simp add: disk_ok_def sizes)

lemma blank_fs:
  obtains fs b dir where "FS_format False (\<lambda>_. replicate 512 0) (\<lambda>_. 0) = Inr fs" "fs_rep False fs b dir" "dir_map dir = Map.empty"
    "card (bm_used b) = 4" "\<not> list_all inUse (table dir)"
proof -
  obtain fs b dir where a: "FS_format False (\<lambda>_. replicate 512 0) (\<lambda>_. 0) = Inr fs" "fs_rep False fs b dir" "dir_map dir = Map.empty"
    "card (bm_used b) = 4" using FS_format_ok [OF blank_disk] by blast
  moreover have "\<not> list_all inUse (table dir)" using full_dir [of dir] a(2,3) by (auto simp: fs_rep_def)
  ultimately show thesis by (rule that)
qed

text \<open>C38. Formatting a disk, whatever is on it, gives a working file system: the invariant holds and the files are the two of the
  console, both empty. But the table of open files starts with shared entries: \<open>Open\<close> with a type enters the file in a free slot, and the
  constructor enters it once more, so that slots 0 and 2 are the same object, and so are slots 1 and 3.\<close>

theorem format_gives_file_system:
  assumes "disk_ok d"
  shows "\<exists>fs b dir f0 f1. FS_new be True d g = Inr fs \<and> fs_rep be fs b dir \<and>
     fs_files be (nfs_disk fs) (dir_map dir) = [stdin_name \<mapsto> [], stdout_name \<mapsto> []] \<and>
     nf_slots fs = [Some 0, Some 1, Some 0, Some 1] @ replicate 11 None \<and> nf_heap fs = [0 \<mapsto> f0, 1 \<mapsto> f1]"
proof -
  from FS_format_ok [OF assms, of be g] obtain fs b dir where fs: "FS_format be d g = Inr fs" "fs_rep be fs b dir" "dir_map dir = Map.empty"
    "card (bm_used b) = 4" "nf_heap fs = Map.empty" "nf_next fs = 0" by blast
  let ?fs = "fs\<lparr>nf_slots := replicate 15 None\<rparr>"
  have r0: "fs_rep be ?fs b dir" by (rule fs_rep_slots [OF fs(2)]) simp_all
  have n1: "stdin_name \<notin> dom (dir_map dir)" "card (dom (dir_map dir)) < 10" "card (bm_used b) < 1024" using fs(3,4) by simp_all
  from create_empty [OF r0 console_names(1,3) n1] obtain d1 b1 dir1 where
    c1: "FS_Create be stdin_name 0 ?fs = Inr (True, ?fs\<lparr>nfs_disk := d1\<rparr>)" "fs_rep be (?fs\<lparr>nfs_disk := d1\<rparr>) b1 dir1"
      "fs_files be d1 (dir_map dir1) = (fs_files be (nfs_disk ?fs) (dir_map dir))(stdin_name \<mapsto> [])" "dom (dir_map dir1) = insert stdin_name (dom (dir_map dir))"
      "card (bm_used b1) = card (bm_used b) + 1" by blast
  have n2: "stdout_name \<notin> dom (dir_map dir1)" "card (dom (dir_map dir1)) < 10" "card (bm_used b1) < 1024"
    using c1(4,5) fs(3,4) console_names(5) by simp_all
  from create_empty [OF c1(2) console_names(2,4) n2] obtain d2 b2 dir2 where
    c2: "FS_Create be stdout_name 0 (?fs\<lparr>nfs_disk := d1\<rparr>) = Inr (True, (?fs\<lparr>nfs_disk := d1\<rparr>)\<lparr>nfs_disk := d2\<rparr>)"
      "fs_rep be ((?fs\<lparr>nfs_disk := d1\<rparr>)\<lparr>nfs_disk := d2\<rparr>) b2 dir2"
      "fs_files be d2 (dir_map dir2) = (fs_files be (nfs_disk (?fs\<lparr>nfs_disk := d1\<rparr>)) (dir_map dir1))(stdout_name \<mapsto> [])"
      "dom (dir_map dir2) = insert stdout_name (dom (dir_map dir1))" by blast
  let ?fs2 = "?fs\<lparr>nfs_disk := d2\<rparr>"
  have r2: "fs_rep be ?fs2 b2 dir2" using c2(2) by simp
  have files: "fs_files be d2 (dir_map dir2) = [stdin_name \<mapsto> [], stdout_name \<mapsto> []]"
    using c2(3) c1(3) fs(3) by (simp add: fs_files_empty)
  obtain s1 s2 where s12: "dir_map dir2 (take 9 stdin_name) = Some s1" "dir_map dir2 (take 9 stdout_name) = Some s2"
    using c2(4) c1(4) by (metis console_names(3,4) domD insertI1 insertI2)
  have f2: "nf_slots ?fs2 = replicate 15 None" "nf_next ?fs2 = 0" "nf_heap ?fs2 = Map.empty" using fs(5,6) by simp_all
  have e1: "length (nf_slots ?fs2) = 15" "nf_slots ?fs2 ! 2 = None" "\<forall>j. 2 \<le> j \<longrightarrow> j < 2 \<longrightarrow> nf_slots ?fs2 ! j \<noteq> None" by (simp_all add: f2)
  define fa fb where "fa = \<lparr>hdr = header_at be d2 s1, seekPosition = 0, nf_type = 2\<rparr>" and "fb = \<lparr>hdr = header_at be d2 s2, seekPosition = 0, nf_type = 3\<rparr>"
  have o1: "FS_OpenType be stdin_name 2 ?fs2 = Inr (Some 0, ?fs2\<lparr>nf_slots := (replicate 15 None)[2 := Some 0], nf_heap := [0 \<mapsto> fa], nf_next := 1\<rparr>)"
    using FS_OpenType_ok [OF r2 console_names(1) s12(1) _ _ e1, of 2] by (simp add: fs(5,6) fa_def)
  let ?fs3 = "?fs2\<lparr>nf_heap := [0 \<mapsto> fa], nf_next := 1, nf_slots := (replicate 15 None)[2 := Some 0, 0 := Some 0]\<rparr>"
  have r3: "fs_rep be ?fs3 b2 dir2" by (rule fs_rep_slots [OF r2]) simp_all
  have "nf_slots ?fs3 ! j \<noteq> None" if "2 \<le> j" "j < 3" for j
  proof -
    have "j = 2" using that by simp
    then show ?thesis by simp
  qed
  then have e3: "length (nf_slots ?fs3) = 15" "nf_slots ?fs3 ! 3 = None" "\<forall>j. 2 \<le> j \<longrightarrow> j < 3 \<longrightarrow> nf_slots ?fs3 ! j \<noteq> None"
    by (simp_all add: nth_list_update)
  have o2: "FS_OpenType be stdout_name 3 ?fs3 = Inr (Some 1, ?fs3\<lparr>nf_slots := (replicate 15 None)[2 := Some 0, 0 := Some 0, 3 := Some 1],
       nf_heap := [0 \<mapsto> fa, 1 \<mapsto> fb], nf_next := Suc 1\<rparr>)"
    using FS_OpenType_ok [OF r3 console_names(2) s12(2) _ _ e3, of 3] by (simp add: fb_def)
  let ?fs4 = "?fs2\<lparr>nf_heap := [0 \<mapsto> fa, 1 \<mapsto> fb], nf_next := Suc 1, nf_slots := [Some 0, Some 1, Some 0, Some 1] @ replicate 11 None\<rparr>"
  have "FS_new be True d g = Inr ?fs4"
    using c1(1) c2(1) o1 o2 by (simp add: FS_new_def fs(1) numeral_eq_Suc)
  moreover have "fs_rep be ?fs4 b2 dir2" by (rule fs_rep_slots [OF r2]) simp_all
  ultimately show ?thesis using files by (intro exI [of _ ?fs4] exI [of _ b2] exI [of _ dir2] exI [of _ fa] exI [of _ fb]) simp
qed

theorem format_gives_file_system_witness:
  "\<exists>fs. FS_new False True (\<lambda>_. replicate 512 0) (\<lambda>_. 0) = Inr fs \<and> nf_slots fs ! 0 = Some 0 \<and> nf_slots fs ! 2 = Some 0"
proof -
  obtain fs where "FS_new False True (\<lambda>_. replicate 512 0) (\<lambda>_. 0) = Inr fs" "nf_slots fs = [Some 0, Some 1, Some 0, Some 1] @ replicate 11 None"
    using format_gives_file_system [OF blank_disk, of False "\<lambda>_. 0"] by blast
  then show ?thesis by auto
qed

section \<open>The files form a map\<close>

text \<open>Writing to the sectors of one file.\<close>

lemma layout_write:
  assumes "layout be d sys dm used" "dm k = Some s" "header_at be d s = h" "\<forall>t. t \<notin> set (hdr_secs h) \<longrightarrow> d' t = d t"
  shows "layout be d' sys dm used" "fs_files be d' dm = (fs_files be d dm)(k \<mapsto> file_bytes h d')"
proof -
  have l: "\<forall>k s. dm k = Some s \<longrightarrow> file_at be d s" "\<forall>k s k' s'. dm k = Some s \<longrightarrow> dm k' = Some s' \<longrightarrow> k \<noteq> k' \<longrightarrow> own be d s \<inter> own be d s' = {}"
    using assms(1) by (simp_all add: layout_def)
  have h: "own be d s = insert s (set (hdr_secs h))" "s \<notin> set (hdr_secs h)" using l(1) assms(2,3) file_at_own [of be d s] by auto
  have o: "own be d s' \<inter> set (hdr_secs h) = {}" if "dm k' = Some s'" "k' \<noteq> k" for k' s' using l(2) that assms(2) h(1) by blast
  have e: "d' s' = d s'" if "dm k' = Some s'" for k' s'
  proof (cases "k' = k")
    case False
    then show ?thesis using o [OF that False] assms(4) by (auto simp: own_def)
  qed (use that assms(2,4) h(2) in simp)
  have c: "own be d' s' = own be d s'" "file_at be d' s' = file_at be d s'" "header_at be d' s' = header_at be d s'" if "dm k' = Some s'" for k' s'
    using own_cong [of d' s' d be] file_at_cong [of d' s' d be] header_at_cong [of d' s' d be] e [OF that] by simp_all
  have "ran dm \<subseteq> {s. \<exists>k. dm k = Some s}" by (auto simp: ran_def)
  then have "(\<Union>s \<in> ran dm. own be d' s) = (\<Union>s \<in> ran dm. own be d s)" using c(1) by (intro SUP_cong) blast+
  with assms(1) c show "layout be d' sys dm used" unfolding layout_def by simp
  have "fs_files be d' dm k' = ((fs_files be d dm)(k \<mapsto> file_bytes h d')) k'" for k'
  proof (cases "dm k'")
    case (Some s')
    show ?thesis
    proof (cases "k' = k")
      case False
      have "file_bytes (header_at be d s') d' = file_bytes (header_at be d s') d"
        using o [OF Some False] assms(4) by (intro file_bytes_cong) (auto simp: own_def)
      then show ?thesis using Some False c(3) by (simp add: fs_files_def)
    qed (use Some assms(2,3) c(3) in \<open>simp add: fs_files_def\<close>)
  qed (use assms(2) in \<open>auto simp: fs_files_def\<close>)
  then show "fs_files be d' dm = (fs_files be d dm)(k \<mapsto> file_bytes h d')" by (rule ext)
qed

lemma rep_write:
  assumes "fs_rep be fs b dir" "dir_map dir k = Some s" "header_at be (nfs_disk fs) s = h" "disk_ok d'"
    "\<forall>t. t \<notin> set (hdr_secs h) \<longrightarrow> d' t = nfs_disk fs t"
  shows "fs_rep be (fs\<lparr>nfs_disk := d'\<rparr>) b dir"
    "fs_files be d' (dir_map dir) = (fs_files be (nfs_disk fs) (dir_map dir))(k \<mapsto> file_bytes h d')"
proof -
  have l: "layout be (nfs_disk fs) (sys_secs fs) (dir_map dir) (bm_used b)" using assms(1) by (simp add: fs_rep_def)
  from dir_sectors [OF assms(1,2)] assms(3) have "set (hdr_secs h) \<inter> sys_secs fs = {}" by (auto simp: own_def)
  then have e: "d' t = nfs_disk fs t" if "t \<in> sys_secs fs" for t using that assms(5) by blast
  have "0 \<in> sys_secs fs" "1 \<in> sys_secs fs" by (simp_all add: sys_secs_def)
  then have "sys_at be (fs\<lparr>nfs_disk := d'\<rparr>)" using assms(1,4) e by (intro sys_at_write) (simp_all add: fs_rep_def)
  moreover have "file_bytes (hdr (freeMapFile fs)) d' = file_bytes (hdr (freeMapFile fs)) (nfs_disk fs)"
    "file_bytes (hdr (directoryFile fs)) d' = file_bytes (hdr (directoryFile fs)) (nfs_disk fs)"
    using e by (intro file_bytes_cong; simp add: sys_secs_def)+
  ultimately show "fs_rep be (fs\<lparr>nfs_disk := d'\<rparr>) b dir"
    using assms(1) layout_write(1) [OF l assms(2,3,5)] by (simp add: fs_rep_def)
  show "fs_files be d' (dir_map dir) = (fs_files be (nfs_disk fs) (dir_map dir))(k \<mapsto> file_bytes h d')"
    by (rule layout_write(2) [OF l assms(2,3,5)])
qed

text \<open>The operations that a client of the file system uses: creating and removing by name, and reading and writing an opened file at a position.\<close>

datatype fs_op = OCreate cstr nat | ORemove cstr | ORead cstr nat nat | OWrite cstr nat "8 word list"

datatype fs_answer = Success bool | Bytes "8 word list" | Count nat | NoFile

fun fs_do :: "bool \<Rightarrow> fs_op \<Rightarrow> NFileSystem \<Rightarrow> (fs_answer \<times> NFileSystem) res" where
  "fs_do be (OCreate name n) fs = res_bind (FS_Create be name (int n) fs) (\<lambda>(r, fs'). Inr (Success r, fs'))"
| "fs_do be (ORemove name) fs = res_bind (FS_Remove be name fs) (\<lambda>(r, fs'). Inr (Success r, fs'))"
| "fs_do be (ORead name pos n) fs = res_bind (FS_Open be name 0 fs) (\<lambda>r. case r of None \<Rightarrow> Inr (NoFile, fs)
     | Some f \<Rightarrow> res_bind (ReadAt (int n) (int pos) (hdr f) (nfs_disk fs)) (\<lambda>bs. Inr (Bytes bs, fs)))"
| "fs_do be (OWrite name pos bs) fs = res_bind (FS_Open be name 0 fs) (\<lambda>r. case r of None \<Rightarrow> Inr (NoFile, fs)
     | Some f \<Rightarrow> res_bind (WriteAt (nf_junk fs) bs (int (length bs)) (int pos) (hdr f) (nfs_disk fs)) (\<lambda>(n, d). Inr (Count (nat n), fs\<lparr>nfs_disk := d\<rparr>)))"

text \<open>What they promise, on a map from names of at most nine characters to arrays of bytes. A file is created exactly when its name is free,
  there are fewer than ten files, and the disk has sectors left for it; it has the size that was asked for and any contents.\<close>

definition disk_use :: "(cstr \<rightharpoonup> 8 word list) \<Rightarrow> nat" where
  "disk_use F = 4 + (\<Sum>k \<in> dom F. 1 + sectors_for (length (the (F k))))"

definition admits :: "(cstr \<rightharpoonup> 8 word list) \<Rightarrow> cstr \<Rightarrow> nat \<Rightarrow> bool" where
  "admits F name n = (F (take 9 name) = None \<and> card (dom F) < 10 \<and> disk_use F + 1 + sectors_for n \<le> 1024)"

inductive map_step :: "fs_op \<Rightarrow> (cstr \<rightharpoonup> 8 word list) \<Rightarrow> fs_answer \<Rightarrow> (cstr \<rightharpoonup> 8 word list) \<Rightarrow> bool" where
  created: "admits F name n \<Longrightarrow> length c = n \<Longrightarrow> map_step (OCreate name n) F (Success True) (F(take 9 name \<mapsto> c))"
| not_created: "\<not> admits F name n \<Longrightarrow> map_step (OCreate name n) F (Success False) F"
| removed: "F (take 9 name) = Some c \<Longrightarrow> map_step (ORemove name) F (Success True) (F(take 9 name := None))"
| not_removed: "F (take 9 name) = None \<Longrightarrow> map_step (ORemove name) F (Success False) F"
| read_file: "F (take 9 name) = Some c \<Longrightarrow> map_step (ORead name pos n) F (Bytes (take n (drop pos c))) F"
| wrote_file: "F (take 9 name) = Some c \<Longrightarrow> map_step (OWrite name pos bs) F (Count (min (length bs) (length c - pos))) (F(take 9 name \<mapsto> written pos bs c))"
| no_read: "F (take 9 name) = None \<Longrightarrow> map_step (ORead name pos n) F NoFile F"
| no_write: "F (take 9 name) = None \<Longrightarrow> map_step (OWrite name pos bs) F NoFile F"

inductive_simps map_step_simps: "map_step (OCreate name n) F a F'" "map_step (ORemove name) F a F'"
  "map_step (ORead name pos n) F a F'" "map_step (OWrite name pos bs) F a F'"

fun op_ok :: "fs_op \<Rightarrow> bool" where
  "op_ok (OCreate name n) = (0 \<notin> set name \<and> n \<le> 64512)"
| "op_ok (ORemove name) = (0 \<notin> set name)"
| "op_ok (ORead name pos n) = (0 \<notin> set name \<and> pos + n < 2 ^ 31)"
| "op_ok (OWrite name pos bs) = (0 \<notin> set name \<and> pos + length bs < 2 ^ 31)"

definition nfs_ok :: "bool \<Rightarrow> NFileSystem \<Rightarrow> bool" where
  "nfs_ok be fs = (\<exists>b dir. fs_rep be fs b dir)"

definition fs_abs :: "bool \<Rightarrow> NFileSystem \<Rightarrow> cstr \<rightharpoonup> 8 word list" where
  "fs_abs be fs = fs_files be (nfs_disk fs) (dir_map (projr (fetch_dir be fs)))"

lemma fs_abs_rep: "fs_rep be fs b dir \<Longrightarrow> fs_abs be fs = fs_files be (nfs_disk fs) (dir_map dir)"
  by (simp add: fs_abs_def fetch_dir_ok)

text \<open>A service that answers requests and implements a specification: then every sequence of requests is answered as the specification allows.\<close>

fun serve_all :: "('o \<Rightarrow> 's \<Rightarrow> ('a \<times> 's) res) \<Rightarrow> 'o list \<Rightarrow> 's \<Rightarrow> ('a list \<times> 's) res" where
  "serve_all f [] s = Inr ([], s)"
| "serve_all f (x # xs) s = res_bind (f x s) (\<lambda>(a, s1). res_bind (serve_all f xs s1) (\<lambda>(as', s2). Inr (a # as', s2)))"

inductive spec_run :: "('o \<Rightarrow> 't \<Rightarrow> 'a \<Rightarrow> 't \<Rightarrow> bool) \<Rightarrow> 'o list \<Rightarrow> 't \<Rightarrow> 'a list \<Rightarrow> 't \<Rightarrow> bool" for spec where
  "spec_run spec [] t [] t"
| "spec x t a t1 \<Longrightarrow> spec_run spec xs t1 as' t2 \<Longrightarrow> spec_run spec (x # xs) t (a # as') t2"

inductive_simps spec_run_simps [simp]: "spec_run spec [] t as' t'" "spec_run spec (x # xs) t as' t'"

locale service =
  fixes inv :: "'s \<Rightarrow> bool"
    and abs :: "'s \<Rightarrow> 't"
    and perform :: "'o \<Rightarrow> 's \<Rightarrow> ('a \<times> 's) res"
    and spec :: "'o \<Rightarrow> 't \<Rightarrow> 'a \<Rightarrow> 't \<Rightarrow> bool"
    and legal :: "'o \<Rightarrow> bool"
  assumes perform_spec: "inv s \<Longrightarrow> legal x \<Longrightarrow> \<exists>a s'. perform x s = Inr (a, s') \<and> inv s' \<and> spec x (abs s) a (abs s')"
begin

lemma serves:
  "inv s \<Longrightarrow> list_all legal xs \<Longrightarrow> \<exists>as' s'. serve_all perform xs s = Inr (as', s') \<and> inv s' \<and> spec_run spec xs (abs s) as' (abs s')"
proof (induction xs arbitrary: s)
  case (Cons x xs)
  then obtain a s1 where "perform x s = Inr (a, s1)" "inv s1" "spec x (abs s) a (abs s1)" using perform_spec by fastforce
  moreover from Cons this(2) obtain as' s' where "serve_all perform xs s1 = Inr (as', s')" "inv s'" "spec_run spec xs (abs s1) as' (abs s')" by fastforce
  ultimately show ?case by auto
qed simp

end

text \<open>Each operation meets its specification.\<close>

definition meets :: "bool \<Rightarrow> fs_op \<Rightarrow> NFileSystem \<Rightarrow> bool" where
  "meets be x fs = (\<exists>a fs'. fs_do be x fs = Inr (a, fs') \<and> nfs_ok be fs' \<and> map_step x (fs_abs be fs) a (fs_abs be fs'))"

lemma meetsI: "fs_do be x fs = Inr (a, fs') \<Longrightarrow> fs_rep be fs' b dir \<Longrightarrow>
    map_step x (fs_abs be fs) a (fs_files be (nfs_disk fs') (dir_map dir)) \<Longrightarrow> meets be x fs"
  by (auto simp: meets_def nfs_ok_def fs_abs_rep)

lemma fs_files_None: "fs_files be d dm k = None \<longleftrightarrow> dm k = None"
  by (simp add: fs_files_def)

lemma own_card: "file_at be d s \<Longrightarrow> disk_ok d \<Longrightarrow> card (own be d s) = 1 + sectors_for (length (file_bytes (header_at be d s) d))"
  using file_at_own [of be d s] by (auto simp: hdr_sectors length_file_bytes)

lemma sys_card: "sys_at be fs \<Longrightarrow> card (sys_secs fs) = 4 \<and> finite (sys_secs fs)"
proof -
  assume "sys_at be fs"
  then have s: "sys_ok (hdr (freeMapFile fs)) (hdr (directoryFile fs))" by (simp add: sys_at_def)
  have "sectors_for 128 = 1" "sectors_for 200 = 1" by (simp_all add: sectors_for_def divRoundUp_def sdiv_nonneg smod_nonneg)
  with s hdr_sectors have "card (set (hdr_secs (hdr (freeMapFile fs)))) = 1" "card (set (hdr_secs (hdr (directoryFile fs)))) = 1"
    by (metis sys_ok_def)+
  then show ?thesis using s by (auto simp: sys_secs_def sys_ok_def card_Un_disjoint Int_Un_distrib2 Int_Un_distrib)
qed

lemma used_card:
  assumes "fs_rep be fs b dir"
  shows "card (bm_used b) = disk_use (fs_files be (nfs_disk fs) (dir_map dir))"
proof -
  let ?dm = "dir_map dir" and ?d = "nfs_disk fs"
  let ?own = "\<lambda>k. own be ?d (the (?dm k))"
  have rep: "sys_at be fs" "layout be ?d (sys_secs fs) ?dm (bm_used b)" "disk_ok ?d" using assms by (simp_all add: fs_rep_def sys_at_def)
  have fin: "finite (dom ?dm)" by (simp add: dir_map_def finite_dom_map_of)
  have "ran ?dm = (\<lambda>k. the (?dm k)) ` dom ?dm" by (force simp: ran_def dom_def image_def)
  then have u: "bm_used b = sys_secs fs \<union> (\<Union>k \<in> dom ?dm. ?own k)" using rep(2) by (simp add: layout_def)
  have f: "finite (?own k)" for k by (simp add: own_def)
  have dj: "?own k \<inter> ?own j = {}" if "k \<in> dom ?dm" "j \<in> dom ?dm" "k \<noteq> j" for k j
    using rep(2) that unfolding layout_def dom_def by (metis (mono_tags) mem_Collect_eq option.exhaust_sel)
  have "card (\<Union>k \<in> dom ?dm. ?own k) = (\<Sum>k \<in> dom ?dm. card (?own k))"
    using fin f dj by (intro card_UN_disjoint) auto
  also have "\<dots> = (\<Sum>k \<in> dom ?dm. 1 + sectors_for (length (the (fs_files be ?d ?dm k))))"
    using rep(2,3) own_card by (intro sum.cong refl) (auto simp: layout_def fs_files_def)
  finally have "card (\<Union>k \<in> dom ?dm. ?own k) + 4 = disk_use (fs_files be ?d ?dm)"
    by (simp add: disk_use_def fs_files_def dom_def)
  moreover have "sys_secs fs \<inter> (\<Union>k \<in> dom ?dm. ?own k) = {}" using rep(2) by (fastforce simp: layout_def)
  ultimately show ?thesis using sys_card [OF rep(1)] fin f by (simp add: u card_Un_disjoint)
qed

lemma room_admits:
  assumes "fs_rep be fs b dir"
  shows "room name n b dir = admits (fs_abs be fs) name n"
proof -
  have "dir_ok dir" using assms by (simp add: fs_rep_def)
  moreover have "dom (fs_abs be fs) = dom (dir_map dir)" by (auto simp: fs_abs_rep [OF assms] fs_files_def dom_def)
  ultimately show ?thesis using used_card [OF assms]
    by (simp add: room_def admits_def full_dir fs_files_None flip: fs_abs_rep [OF assms]) (simp add: fs_abs_rep [OF assms] fs_files_None)
qed

lemma do_create:
  assumes r: "fs_rep be fs b dir" and "op_ok (OCreate name n)" shows "meets be (OCreate name n) fs"
proof (cases "room name n b dir")
  case True
  then obtain d' b' dir' c where "FS_Create be name (int n) fs = Inr (True, fs\<lparr>nfs_disk := d'\<rparr>)" "fs_rep be (fs\<lparr>nfs_disk := d'\<rparr>) b' dir'"
      "length c = n" "fs_files be d' (dir_map dir') = (fs_files be (nfs_disk fs) (dir_map dir))(take 9 name \<mapsto> c)"
    using FS_Create_ok [OF r, of name n] assms(2) by auto
  then show ?thesis using True
    by (intro meetsI [of _ _ _ "Success True" "fs\<lparr>nfs_disk := d'\<rparr>" b' dir']) (simp_all add: fs_abs_rep [OF r] created room_admits [OF r])
next
  case False
  then show ?thesis using FS_Create_ok [OF r, of name n] assms(2)
    by (intro meetsI [of _ _ _ "Success False" fs b dir]) (simp_all add: not_created r room_admits [OF r] flip: fs_abs_rep [OF r])
qed

lemma do_remove:
  assumes r: "fs_rep be fs b dir" and "op_ok (ORemove name)" shows "meets be (ORemove name) fs"
proof (cases "dir_map dir (take 9 name)")
  case None
  then show ?thesis using FS_Remove_ok [OF r, of name] assms(2)
    by (intro meetsI [of _ _ _ "Success False" fs b dir]) (simp_all add: fs_abs_rep [OF r] not_removed fs_files_None r)
next
  case (Some s)
  then obtain d' b' dir' where "FS_Remove be name fs = Inr (True, fs\<lparr>nfs_disk := d'\<rparr>)" "fs_rep be (fs\<lparr>nfs_disk := d'\<rparr>) b' dir'"
      "fs_files be d' (dir_map dir') = (fs_files be (nfs_disk fs) (dir_map dir))(take 9 name := None)"
    using FS_Remove_ok [OF r, of name] assms(2) by auto
  moreover from Some have "fs_abs be fs (take 9 name) \<noteq> None" by (simp add: fs_abs_rep [OF r] fs_files_None)
  then have "map_step (ORemove name) (fs_abs be fs) (Success True) ((fs_abs be fs)(take 9 name := None))" using removed by blast
  ultimately show ?thesis
    by (intro meetsI [of _ _ _ "Success True" "fs\<lparr>nfs_disk := d'\<rparr>" b' dir']) (simp_all add: fs_abs_rep [OF r])
qed

lemma open_header:
  assumes "fs_rep be fs b dir" "0 \<notin> set name" "dir_map dir (take 9 name) = Some s"
  obtains h where "FS_Open be name t fs = Inr (Some \<lparr>hdr = h, seekPosition = 0, nf_type = t\<rparr>)" "hdr_ok h" "header_at be (nfs_disk fs) s = h"
    "fs_abs be fs (take 9 name) = Some (file_bytes h (nfs_disk fs))" "disk_ok (nfs_disk fs)"
proof -
  from dir_sectors [OF assms(1,3)] file_at_own [of be "nfs_disk fs" s] obtain h where "hdr_ok h" "header_at be (nfs_disk fs) s = h" by blast
  moreover have "disk_ok (nfs_disk fs)" using assms(1) by (simp add: fs_rep_def sys_at_def)
  ultimately show thesis using that by (simp add: FS_Open_ok [OF assms(1,2)] assms(3) fs_abs_rep [OF assms(1)] fs_files_def)
qed

lemma do_read:
  assumes r: "fs_rep be fs b dir" and "op_ok (ORead name pos n)" shows "meets be (ORead name pos n) fs"
proof (cases "dir_map dir (take 9 name)")
  case None
  then show ?thesis using FS_Open_ok [OF r, of name] assms(2)
    by (intro meetsI [of _ _ _ NoFile fs b dir]) (simp_all add: fs_abs_rep [OF r] no_read fs_files_None r)
next
  case (Some s)
  have z: "0 \<notin> set name" using assms(2) by simp
  obtain h where "FS_Open be name 0 fs = Inr (Some \<lparr>hdr = h, seekPosition = 0, nf_type = 0\<rparr>)" "hdr_ok h"
    "fs_abs be fs (take 9 name) = Some (file_bytes h (nfs_disk fs))" "disk_ok (nfs_disk fs)" by (rule open_header [OF r z Some])
  moreover have "ReadAt (int n) (int pos) h (nfs_disk fs) = Inr (take n (drop pos (file_bytes h (nfs_disk fs))))"
    using ReadAt_ok calculation(2,4) assms(2) by simp
  ultimately show ?thesis
    by (intro meetsI [of _ _ _ "Bytes (take n (drop pos (file_bytes h (nfs_disk fs))))" fs b dir])
      (auto simp: fs_abs_rep [OF r, symmetric] r intro: read_file)
qed

lemma do_write:
  assumes r: "fs_rep be fs b dir" and "op_ok (OWrite name pos bs)" shows "meets be (OWrite name pos bs) fs"
proof (cases "dir_map dir (take 9 name)")
  case None
  then show ?thesis using FS_Open_ok [OF r, of name] assms(2)
    by (intro meetsI [of _ _ _ NoFile fs b dir]) (simp_all add: fs_abs_rep [OF r] no_write fs_files_None r)
next
  case (Some s)
  let ?d = "nfs_disk fs"
  have z: "0 \<notin> set name" using assms(2) by simp
  obtain h where h: "FS_Open be name 0 fs = Inr (Some \<lparr>hdr = h, seekPosition = 0, nf_type = 0\<rparr>)" "hdr_ok h" "header_at be ?d s = h"
    "fs_abs be fs (take 9 name) = Some (file_bytes h ?d)" "disk_ok ?d" by (rule open_header [OF r z Some])
  obtain d' where d': "WriteAt (nf_junk fs) bs (int (length bs)) (int pos) h ?d = Inr (int (min (length bs) (hdr_size h - pos)), d')"
      "file_bytes h d' = written pos bs (file_bytes h ?d)" "disk_ok d'" "\<forall>t. t \<notin> set (hdr_secs h) \<longrightarrow> d' t = ?d t"
    using WriteAt_ok [OF h(2,5), of pos "length bs" bs "nf_junk fs"] assms(2) by auto
  note w = rep_write [OF r Some h(3) d'(3,4)]
  have "map_step (OWrite name pos bs) (fs_abs be fs) (Count (min (length bs) (hdr_size h - pos))) ((fs_abs be fs)(take 9 name \<mapsto> file_bytes h d'))"
    using wrote_file [of "fs_abs be fs" name "file_bytes h ?d" pos bs, OF h(4)] by (simp add: d'(2) length_file_bytes [OF h(2,5)])
  then show ?thesis using h(1) d'(1) w
    by (intro meetsI [of _ _ _ "Count (min (length bs) (hdr_size h - pos))" "fs\<lparr>nfs_disk := d'\<rparr>" b dir]) (simp_all add: fs_abs_rep [OF r])
qed

interpretation nachos_fs: service "nfs_ok be" "fs_abs be" "fs_do be" map_step op_ok for be
proof
  fix fs x
  assume "nfs_ok be fs" "op_ok x"
  then have "meets be x fs" by (cases x) (auto simp only: nfs_ok_def intro: do_create do_remove do_read do_write)
  then show "\<exists>a fs'. fs_do be x fs = Inr (a, fs') \<and> nfs_ok be fs' \<and> map_step x (fs_abs be fs) a (fs_abs be fs')"
    by (simp add: meets_def)
qed



section \<open>Copying and printing\<close>

lemma copy_loop_ok:
  "hdr_ok (hdr f) \<Longrightarrow> disk_ok d \<Longrightarrow> seekPosition f = int p \<Longrightarrow> p + length bs = hdr_size (hdr f) \<Longrightarrow>
   \<exists>d'. copy_loop g bs f d = Inr d' \<and> file_bytes (hdr f) d' = take p (file_bytes (hdr f) d) @ bs \<and> disk_ok d' \<and>
     (\<forall>s. s \<notin> set (hdr_secs (hdr f)) \<longrightarrow> d' s = d s)"
proof (induction g bs f d arbitrary: p rule: copy_loop.induct)
  case (1 g bs f d)
  let ?h = "hdr f" and ?buf = "take TransferSize bs"
  have len: "length (file_bytes ?h d) = hdr_size ?h" by (rule length_file_bytes [OF 1(2,3)])
  show ?case
  proof (cases "?buf = []")
    case True
    then have "bs = []" by (auto simp: TransferSize_def)
    then show ?thesis using 1(3,5) len by (simp add: copy_loop.simps [of g "[]"])
  next
    case False
    have m: "min (length ?buf) (hdr_size ?h - p) = length ?buf" using 1(5) by auto
    have sz: "p + length ?buf < 2 ^ 31" using 1(5) size_bound [OF 1(2)] by (simp add: min_def)
    obtain d1 where d1: "WriteAt g ?buf (int (length ?buf)) (int p) ?h d = Inr (int (min (length ?buf) (hdr_size ?h - p)), d1)"
        "file_bytes ?h d1 = written p ?buf (file_bytes ?h d)" "disk_ok d1" "\<forall>s. s \<notin> set (hdr_secs ?h) \<longrightarrow> d1 s = d s"
      using WriteAt_ok [OF 1(2,3) sz order_refl, of g] by (simp only: take_all order_refl) (elim exE conjE, rule that)
    let ?f = "f\<lparr>seekPosition := int p + int (length ?buf)\<rparr>"
    have w: "NOpenFile_Write g ?buf (int (length ?buf)) f d = Inr (int (length ?buf), ?f, d1)"
      using d1(1) 1(4) m by (simp add: NOpenFile_Write_def del: length_take)
    have "p + length ?buf + length (drop TransferSize bs) = hdr_size ?h" using 1(5) by simp
    then obtain d' where d': "copy_loop g (drop TransferSize bs) ?f d1 = Inr d'"
        "file_bytes ?h d' = take (p + length ?buf) (file_bytes ?h d1) @ drop TransferSize bs" "disk_ok d'"
        "\<forall>s. s \<notin> set (hdr_secs ?h) \<longrightarrow> d' s = d1 s"
      using 1(1) [OF refl False, of ?f d1 "p + length ?buf"] 1(2) d1(3) by auto
    have "take (p + length ?buf) (file_bytes ?h d1) = take p (file_bytes ?h d) @ ?buf"
      using 1(5) [symmetric] len by (simp add: d1(2) written_def min_def)
    then have "file_bytes ?h d' = take p (file_bytes ?h d) @ bs" using d'(2) by simp
    then show ?thesis using d'(1,3,4) d1(4) False w by (subst copy_loop.simps) (simp add: Let_def)
  qed
qed

lemma print_loop_ok:
  "hdr_ok (hdr f) \<Longrightarrow> disk_ok d \<Longrightarrow> seekPosition f = int p \<Longrightarrow> p \<le> hdr_size (hdr f) \<Longrightarrow> hdr_size (hdr f) - p < fuel \<Longrightarrow>
   print_loop fuel f d = Inr (drop p (file_bytes (hdr f) d))"
proof (induction fuel arbitrary: f p)
  case (Suc fuel)
  let ?c = "file_bytes (hdr f) d" let ?bs = "take 10 (drop p ?c)"
  have len: "length ?c = hdr_size (hdr f)" by (rule length_file_bytes [OF Suc.prems(1,2)])
  have "p + 10 < 2 ^ 31" using Suc.prems(4) size_bound [OF Suc.prems(1)] by simp
  from ReadAt_ok [OF Suc.prems(1,2) this] have rd: "NOpenFile_Read (int TransferSize) f d = Inr (?bs, f\<lparr>seekPosition := int (p + length ?bs)\<rparr>)"
    by (simp add: NOpenFile_Read_def Suc.prems(3) TransferSize_def)
  show ?case
  proof (cases "?bs = []")
    case True
    then show ?thesis using rd by simp
  next
    case False
    have "print_loop fuel (f\<lparr>seekPosition := int (p + length ?bs)\<rparr>) d = Inr (drop (p + length ?bs) ?c)"
      using Suc.IH [of "f\<lparr>seekPosition := int (p + length ?bs)\<rparr>" "p + length ?bs"] Suc.prems len False by auto
    moreover have "?bs @ drop (p + length ?bs) ?c = drop p ?c"
      by (metis add.commute append_take_drop_id drop_drop length_take take_all_iff linorder_le_cases min_def drop_all)
    ultimately show ?thesis using rd False by simp
  qed
qed simp

text \<open>C39. Copying a UNIX file into the file system and printing it gives it back: when the name is free and there is room, \<open>Copy\<close>
  leaves exactly the bytes of the UNIX file under the name, every other file as it was, and \<open>Print\<close> of that name prints these bytes.\<close>

theorem copy_print_roundtrip:
  assumes "fs_rep be fs b dir" "0 \<notin> set to" "length bs \<le> 64512" "room to (length bs) b dir"
  shows "\<exists>fs' b' dir'. Copy be (Some bs) to fs = Inr fs' \<and> fs_rep be fs' b' dir' \<and>
     fs_files be (nfs_disk fs') (dir_map dir') = (fs_files be (nfs_disk fs) (dir_map dir))(take 9 to \<mapsto> bs) \<and> Print be to fs' = Inr bs"
proof -
  obtain d1 b1 dir1 c where c: "FS_Create be to (int (length bs)) fs = Inr (True, fs\<lparr>nfs_disk := d1\<rparr>)" "fs_rep be (fs\<lparr>nfs_disk := d1\<rparr>) b1 dir1"
      "length c = length bs" "fs_files be d1 (dir_map dir1) = (fs_files be (nfs_disk fs) (dir_map dir))(take 9 to \<mapsto> c)"
    using FS_Create_ok [OF assms(1-3)] assms(4) by auto
  then obtain s where s: "dir_map dir1 (take 9 to) = Some s" by (metis fs_files_None fun_upd_same not_None_eq)
  obtain h where h: "FS_Open be to 0 (fs\<lparr>nfs_disk := d1\<rparr>) = Inr (Some \<lparr>hdr = h, seekPosition = 0, nf_type = 0\<rparr>)" "hdr_ok h"
      "header_at be d1 s = h" "fs_abs be (fs\<lparr>nfs_disk := d1\<rparr>) (take 9 to) = Some (file_bytes h d1)" "disk_ok d1"
    using open_header [OF c(2) assms(2) s] by auto
  have "file_bytes h d1 = c" using h(4) c(4) fs_abs_rep [OF c(2)] by simp
  then have sz: "hdr_size h = length bs" using length_file_bytes [OF h(2,5)] c(3) by simp
  obtain d2 where d2: "copy_loop (nf_junk fs) bs \<lparr>hdr = h, seekPosition = 0, nf_type = 0\<rparr> d1 = Inr d2" "file_bytes h d2 = bs" "disk_ok d2"
      "\<forall>t. t \<notin> set (hdr_secs h) \<longrightarrow> d2 t = d1 t"
    using copy_loop_ok [of "\<lparr>hdr = h, seekPosition = 0, nf_type = 0\<rparr>" d1 0 bs "nf_junk fs"] h(2,5) sz by auto
  let ?fs = "fs\<lparr>nfs_disk := d2\<rparr>"
  have w: "fs_rep be ?fs b1 dir1" "fs_files be d2 (dir_map dir1) = (fs_files be (nfs_disk fs) (dir_map dir))(take 9 to \<mapsto> bs)"
    using rep_write [OF c(2) s, of h d2] h(3) d2(2-4) c(4) by simp_all
  have "Copy be (Some bs) to fs = Inr ?fs" using c(1) h(1) d2(1) by (simp add: Copy_def)
  moreover have "Print be to ?fs = Inr bs"
  proof -
    obtain h' where h': "FS_Open be to 0 ?fs = Inr (Some \<lparr>hdr = h', seekPosition = 0, nf_type = 0\<rparr>)" "hdr_ok h'"
      "fs_abs be ?fs (take 9 to) = Some (file_bytes h' d2)" using open_header [OF w(1) assms(2) s] by auto
    then have "file_bytes h' d2 = bs" using w(2) fs_abs_rep [OF w(1)] by simp
    moreover have "hdr_size h' \<le> nat (FileLength h')" using FileLength_size [OF h'(2)] by simp
    ultimately show ?thesis using h'(1,2) d2(3) print_loop_ok [of "\<lparr>hdr = h', seekPosition = 0, nf_type = 0\<rparr>" d2 0 "Suc (nat (FileLength h'))"]
      by (simp add: Print_def NOpenFile_Length_def del: print_loop.simps)
  qed
  ultimately show ?thesis using w by auto
qed

theorem copy_print_roundtrip_witness:
  "\<exists>fs fs'. FS_format False (\<lambda>_. replicate 512 0) (\<lambda>_. 0) = Inr fs \<and> Copy False (Some (map of_nat [0..<25])) [0x61] fs = Inr fs' \<and>
     Print False [0x61] fs' = Inr (map of_nat [0..<25])"
proof -
  obtain fs b dir where a: "FS_format False (\<lambda>_. replicate 512 0) (\<lambda>_. 0) = Inr fs" "fs_rep False fs b dir" "dir_map dir = Map.empty"
    "card (bm_used b) = 4" "\<not> list_all inUse (table dir)" by (rule blank_fs)
  have "sectors_for 25 = 1" by (simp add: sectors_for_def divRoundUp_def sdiv_nonneg smod_nonneg)
  then have "room [0x61] 25 b dir" using a(3-5) by (simp add: room_def)
  then show ?thesis using copy_print_roundtrip [OF a(2), of "[0x61]" "map of_nat [0..<25]"] a(1) by (auto simp del: upt_rec_numeral)
qed

section \<open>Listing\<close>

text \<open>\<open>List\<close> prints the name of each file once, when all names are shorter than nine characters.\<close>

lemma FS_List_ok:
  assumes "fs_rep be fs b dir" "\<forall>k \<in> dom (fs_abs be fs). length k < 9"
  shows "\<exists>ns. FS_List be fs = Inr ns \<and> distinct ns \<and> set ns = dom (fs_abs be fs)"
proof -
  have d: "dir_ok dir" using assms(1) by (simp add: fs_rep_def)
  have "dom (fs_abs be fs) = dom (dir_map dir)" by (auto simp: fs_abs_rep [OF assms(1)] fs_files_def dom_def)
  also have "\<dots> = key ` set (filter inUse (table dir))" by (simp add: dir_map_def dom_map_of_conv_image_fst image_image)
  finally have k: "dom (fs_abs be fs) = set (map key (filter inUse (table dir)))" by simp
  then have "FS_List be fs = Inr (map key (filter inUse (table dir)))"
    using List_ok [OF d, of be] assms(2) by (simp add: FS_List_def fetch_dir_ok [OF assms(1)])
  then show ?thesis using k d by (auto simp: dir_ok_def)
qed

section \<open>The performance test\<close>

text \<open>The test can not succeed: it creates its file with size 0, files do not grow, and its first write fails. It leaves the
  files as they were.\<close>

lemma performance_test_fails:
  assumes "fs_rep be fs b dir" "room test_name 0 b dir"
  shows "\<exists>fs' b' dir'. PerformanceTest be fs = Inr ([CantWrite, CantRead], fs') \<and> fs_rep be fs' b' dir' \<and>
     fs_files be (nfs_disk fs') (dir_map dir') = fs_files be (nfs_disk fs) (dir_map dir)"
proof -
  let ?F = "fs_files be (nfs_disk fs) (dir_map dir)"
  have n: "0 \<notin> set test_name" "take 9 test_name = test_name" by (simp_all add: test_name_def)
  obtain d1 b1 dir1 c where c: "FS_Create be test_name (int 0) fs = Inr (True, fs\<lparr>nfs_disk := d1\<rparr>)" "fs_rep be (fs\<lparr>nfs_disk := d1\<rparr>) b1 dir1"
      "length c = 0" "fs_files be d1 (dir_map dir1) = ?F(test_name \<mapsto> c)"
    using FS_Create_ok [OF assms(1) n(1), of 0] assms(2) by (simp only: if_True zero_le n(2)) blast
  let ?fs = "fs\<lparr>nfs_disk := d1\<rparr>"
  obtain s where s: "dir_map dir1 (take 9 test_name) = Some s" using c(4) n(2) by (metis fs_files_None fun_upd_same not_None_eq)
  obtain h where h: "FS_Open be test_name 0 ?fs = Inr (Some \<lparr>hdr = h, seekPosition = 0, nf_type = 0\<rparr>)" "hdr_ok h"
      "fs_abs be ?fs (take 9 test_name) = Some (file_bytes h d1)" "disk_ok d1"
    using open_header [OF c(2) n(1) s] by auto
  have "file_bytes h d1 = c" using h(3) c(4) n(2) fs_abs_rep [OF c(2)] by simp
  then have z: "FileLength h = 0" using length_file_bytes [OF h(2,4)] c(3) FileLength_size [OF h(2)] by simp
  have suc: "(5000 :: nat) = Suc 4999" by simp
  have w: "file_write_loop (Suc n) (nf_junk fs) \<lparr>hdr = h, seekPosition = 0, nf_type = 0\<rparr> d1 = Inr ([CantWrite], d1)" for n
    using z by (simp add: NOpenFile_Write_def WriteAt_def)
  have r: "file_read_loop (Suc n) \<lparr>hdr = h, seekPosition = 0, nf_type = 0\<rparr> d1 = Inr [CantRead]" for n
    using z by (simp add: NOpenFile_Read_def ReadAt_def)
  have "FileWrite be fs = Inr ([CantWrite], ?fs)" using c(1) h(1) w [of 4999, folded suc] by (simp add: FileWrite_def)
  moreover have "FileRead be ?fs = Inr [CantRead]" using h(1) r [of 4999, folded suc] by (simp add: FileRead_def)
  moreover obtain d2 b2 dir2 where "FS_Remove be test_name ?fs = Inr (True, ?fs\<lparr>nfs_disk := d2\<rparr>)" "fs_rep be (?fs\<lparr>nfs_disk := d2\<rparr>) b2 dir2"
      "fs_files be d2 (dir_map dir2) = (fs_files be d1 (dir_map dir1))(test_name := None)"
    using FS_Remove_ok [OF c(2) n(1)] s n(2) by auto
  moreover have "?F test_name = None" using assms(2) n(2) by (simp add: room_def fs_files_None)
  ultimately show ?thesis using c(4) by (auto simp: PerformanceTest_def fun_upd_idem)
qed

section \<open>Files that are too large\<close>

lemma Allocate_overrun:
  assumes "bm_ok b" "numBits b = 1024" "length (dataSectors h) = NumDirect" "126 < sectors_for size'" "card (bm_used b) + sectors_for size' \<le> 1024"
  shows "Allocate b (int size') h = Inl OutOfBounds"
proof -
  let ?n = "sectors_for size'"
  have cap: "bm_cap b = 1024" using assms(2) by (simp add: bm_cap_def)
  obtain c where c: "BitMap_NumClear b = Inr c" "int ?n \<le> c"
    using BitMap_NumClear_ok [OF assms(1)] bitmap_alloc.num_clear_enough [OF assms(1)] cap assms(5) by auto
  have d: "divRoundUp (int size') 512 = int ?n" by (simp add: sectors_for_def divRoundUp_nonneg)
  let ?h1 = "h\<lparr>numBytes := word_of_int (int size'), numSectors := word_of_int (int ?n)\<rparr>"
  have lt: "NumDirect < ?n" using assms(4) by (simp add: sizes)
  obtain js b' where js: "res_drain BitMap_Find NumDirect b = Inr (map int js, b')" "length js = NumDirect" "distinct js"
      "set js \<inter> bm_used b = {}" "bm_ok b'" "bm_cap b' = 1024" "bm_used b' = bm_used b \<union> set js"
    using bitmap_alloc.find_n [OF assms(1), of NumDirect] cap lt assms(5) by auto
  have "card (bm_used b') \<le> card (bm_used b) + card (set js)" unfolding js(7) by (rule card_Un_le)
  then have "card (bm_used b') < card {..<bm_cap b'}" using distinct_card [OF js(3)] js(2,6) lt assms(5) by simp
  then have "bm_used b' \<noteq> {..<bm_cap b'}" by (metis less_irrefl)
  then have over: "alloc_sector NumDirect (h', b') = Inl OutOfBounds" for h' by (rule fold_overrun [OF js(5)])
  have "[0..<?n] = [0..<NumDirect] @ NumDirect # [Suc NumDirect..<?n]"
    using upt_add_eq_append [of 0 NumDirect "?n - NumDirect"] lt by (simp add: upt_conv_Cons)
  then have "res_fold alloc_sector [0..<?n] (?h1, b) = Inl OutOfBounds"
    using alloc_fold [OF js(1), of 0 ?h1] assms(3) over by (simp add: res_fold_append)
  then show ?thesis using c d by (simp add: Allocate_def SectorSize_def)
qed

lemma large_sectors: "64512 < size' \<Longrightarrow> 126 < sectors_for size'"
  using divRoundUp_bounds(1) [of "int size'" 512] by (simp add: sectors_for_def)

text \<open>C40. A file of more than 126 sectors does not fit the header, and nothing checks it: when the name is free and the disk has room,
  \<open>FileSystem::Create\<close> of such a size makes \<open>FileHeader::Allocate\<close> write past the end of \<open>dataSectors\<close>, instead of failing.\<close>

theorem large_file_overruns:
  assumes "fs_rep be fs b dir" "0 \<notin> set name" "64512 < size'" "room name size' b dir"
  shows "FS_Create be name (int size') fs = Inl OutOfBounds"
proof -
  have t: "dir_map dir (take 9 name) = None" "\<not> list_all inUse (table dir)" "card (bm_used b) + 1 + sectors_for size' \<le> 1024"
    using assms(4) by (simp_all add: room_def)
  then have "card (bm_used b) < 1024" by simp
  then have u: "bm_used b \<noteq> {..<1024}" by (metis card_lessThan less_irrefl)
  obtain s b1 dir' where s: "s \<notin> bm_used b" "fm_ok b1" "bm_used b1 = insert s (bm_used b)" and
    C: "\<And>size'. FS_Create be name size' fs = res_bind (Allocate b1 size' (junk_header (nf_junk fs))) (\<lambda>(allocated, h, freeMap2).
         if \<not> allocated then Inr (False, fs)
         else res_bind (FileHeader_WriteBack be (int s) h (nfs_disk fs)) (\<lambda>d.
           res_bind (res_bind (store_dir be dir' (fs\<lparr>nfs_disk := d\<rparr>)) (store_map be freeMap2)) (\<lambda>fs2. Inr (True, fs2))))"
    by (rule Create_steps [OF assms(1,2) t(1,2) u]) (rule that)
  have "card (bm_used b1) = card (bm_used b) + 1" using s by (simp add: fm_ok_def)
  then have "Allocate b1 (int size') (junk_header (nf_junk fs)) = Inl OutOfBounds"
    using s(2) t(3) large_sectors [OF assms(3)] by (intro Allocate_overrun) (simp_all add: fm_ok_def junk_ok)
  then show ?thesis by (simp add: C)
qed

theorem large_file_overruns_witness:
  "\<exists>fs. FS_format False (\<lambda>_. replicate 512 0) (\<lambda>_. 0) = Inr fs \<and> FS_Create False [0x61] 70000 fs = Inl OutOfBounds"
proof -
  obtain fs b dir where a: "FS_format False (\<lambda>_. replicate 512 0) (\<lambda>_. 0) = Inr fs" "fs_rep False fs b dir" "dir_map dir = Map.empty"
    "card (bm_used b) = 4" "\<not> list_all inUse (table dir)" by (rule blank_fs)
  have "sectors_for 70000 = 137" by (simp add: sectors_for_def divRoundUp_def sdiv_nonneg smod_nonneg)
  then have "room [0x61] 70000 b dir" using a(3-5) by (simp add: room_def)
  then show ?thesis using large_file_overruns [OF a(2), of "[0x61]" 70000] a(1) by auto
qed

end
